(* ===== verification/Flow_Prelude.thy ===== *)
theory Flow_Prelude
  imports Main
begin

text \<open>
  The prelude of the development: the Go values every component uses.

  \<^item> \<open>wrap64\<close> is the two's complement reading of a 64-bit Go \<open>int\<close>, \<open>int64\<close> or
    \<open>time.Duration\<close>; arithmetic whose overflow matters is written \<open>wrap64 (a + b)\<close>.
  \<^item> \<open>err\<close> is the shape of a Go error value: what was passed to \<open>errors.New\<close>,
    \<open>fmt.Errorf\<close> (with the error behind \<open>%w\<close>), \<open>errors.Join\<close>, or a typed error of
    the program. \<open>errors_is\<close> is the walk of \<open>errors.Is\<close> over it. A place where the code stores
    \<open>err.Error()\<close> stores the \<open>err\<close> value itself.
  \<^item> \<open>TrimSpace\<close> is \<open>strings.TrimSpace\<close> on the UTF-8 bytes of a string.
  \<^item> \<open>result\<close> is a Go \<open>(T, error)\<close> return: \<open>Inl\<close> the error, \<open>Inr\<close> the value.
  \<^item> the named collections \<open>limiter_simps\<close>, \<open>engine_simps\<close> and \<open>report_simps\<close>
    gather the rewrite rules the component theories share.
\<close>

named_theorems limiter_simps "rewrite rules of the admission components"
named_theorems engine_simps "rewrite rules of the map and step engines"
named_theorems report_simps "rewrite rules of the reports"

section \<open>Machine integers\<close>

definition wrap64 :: "int \<Rightarrow> int" where
  "wrap64 x = (x + 2 ^ 63) mod 2 ^ 64 - 2 ^ 63"

definition int64_range :: "int \<Rightarrow> bool" where
  "int64_range x \<longleftrightarrow> - (2 ^ 63) \<le> x \<and> x < 2 ^ 63"

lemma wrap64_id [simp]: "int64_range x \<Longrightarrow> wrap64 x = x"
  by (simp add: wrap64_def int64_range_def)

lemma wrap64_range [simp]: "int64_range (wrap64 x)"
  by (simp add: wrap64_def int64_range_def pos_mod_bound [of "2 ^ 64"] algebra_simps)

section \<open>Go errors\<close>

text \<open>The package-level error values that callers compare with \<open>errors.Is\<close>.\<close>

datatype sentinel = ErrBudgetExceeded | ErrCorruptCache | Canceled | DeadlineExceeded

datatype err =
    ErrorsNew string
  | Errorf string "farg list" "err option"
  | Sentinel sentinel
  | DataErr err
  | StatusErr int "err option"
  | ErrJoin "err list"
  | Foreign string
and farg = FStr string | FInt int | FErr err

type_synonym 'a result = "err + 'a"

text \<open>A context as its observer sees it: \<open>ctx.Err()\<close>.\<close>

type_synonym ctx = "err option"

fun errors_is :: "sentinel \<Rightarrow> err \<Rightarrow> bool" where
  "errors_is t (Sentinel s) = (s = t)"
| "errors_is t (Errorf _ _ (Some e)) = errors_is t e"
| "errors_is t (Errorf _ _ None) = False"
| "errors_is t (DataErr e) = errors_is t e"
| "errors_is t (StatusErr _ (Some e)) = errors_is t e"
| "errors_is t (StatusErr _ None) = False"
| "errors_is t (ErrJoin es) = (\<exists>e \<in> set es. errors_is t e)"
| "errors_is t (ErrorsNew _) = False"
| "errors_is t (Foreign _) = False"

text \<open>\<open>errors.Join\<close>: \<open>nil\<close> errors are dropped, and nothing but \<open>nil\<close>s joins to \<open>nil\<close>.\<close>

definition errors_join :: "err option list \<Rightarrow> err option" where
  "errors_join es = (case List.map_filter id es of [] \<Rightarrow> None | xs \<Rightarrow> Some (ErrJoin xs))"

text \<open>The first error of a list of outcomes.\<close>

fun first_error :: "err option list \<Rightarrow> err option" where
  "first_error [] = None"
| "first_error (Some e # rs) = Some e"
| "first_error (None # rs) = first_error rs"

section \<open>strings.TrimSpace\<close>

text \<open>
  The UTF-8 encodings of the code points \<open>unicode.IsSpace\<close> accepts: the six ASCII
  spaces, U+0085, U+00A0, U+1680, U+2000 to U+200A, U+2028, U+2029, U+202F, U+205F
  and U+3000. UTF-8 is self-synchronising, so a suffix that is one of these byte
  sequences is the last rune of the string.
\<close>

definition space_encodings :: "string list" where
  "space_encodings =
     map (\<lambda>n. [char_of n]) [9, 10, 11, 12, 13, 32 :: nat] @
     map (map char_of)
       ([[194, 133], [194, 160], [225, 154, 128]] @
        map (\<lambda>n. [226, 128, n]) [128 ..< 139] @
        [[226, 128, 168], [226, 128, 169], [226, 128, 175], [226, 129, 159], [227, 128, 128 :: nat]])"

definition strip_one :: "string list \<Rightarrow> string \<Rightarrow> string option" where
  "strip_one encs s =
     (case filter (\<lambda>e. take (length e) s = e) encs of [] \<Rightarrow> None | e # _ \<Rightarrow> Some (drop (length e) s))"

lemma space_encodings_nonempty: "e \<in> set space_encodings \<Longrightarrow> e \<noteq> []"
  by (auto simp: space_encodings_def)

lemma strip_one_shorter:
  assumes "strip_one encs s = Some t" and "\<And>e. e \<in> set encs \<Longrightarrow> e \<noteq> []"
  shows "length t < length s"
proof -
  from assms(1) obtain e es where es: "filter (\<lambda>e. take (length e) s = e) encs = e # es"
    and t: "t = drop (length e) s"
    by (auto simp: strip_one_def split: list.splits)
  from es have "e \<in> set (filter (\<lambda>e. take (length e) s = e) encs)" by simp
  then have "e \<in> set encs" and pre: "take (length e) s = e" by auto
  with assms(2) have "0 < length e" by auto
  moreover from pre have "length e \<le> length s" by (metis length_take min.cobounded1)
  ultimately show ?thesis unfolding t length_drop by linarith
qed

function trim_left :: "string list \<Rightarrow> string \<Rightarrow> string" where
  "trim_left encs s =
     (if [] \<in> set encs then s
      else case strip_one encs s of None \<Rightarrow> s | Some t \<Rightarrow> trim_left encs t)"
  by pat_completeness auto
termination
  by (relation "measure (length \<circ> snd)") (auto dest: strip_one_shorter)

declare trim_left.simps [simp del]

definition TrimSpace :: "string \<Rightarrow> string" where
  "TrimSpace s =
     rev (trim_left (map rev space_encodings) (rev (trim_left space_encodings s)))"

lemma trim_left_suffix: "\<exists>p. s = p @ trim_left encs s"
proof (induction encs s rule: trim_left.induct)
  case (1 encs s)
  show ?case
  proof (cases "[] \<in> set encs \<or> strip_one encs s = None")
    case True
    then have "trim_left encs s = s" by (auto simp: trim_left.simps [of encs s])
    then show ?thesis by simp
  next
    case False
    then obtain t where t: "strip_one encs s = Some t" and ne: "[] \<notin> set encs" by auto
    from t obtain n where "t = drop n s"
      by (auto simp: strip_one_def split: list.splits)
    then have s: "s = take n s @ t" by simp
    from "1.IH" [OF ne t] obtain p where "t = p @ trim_left encs t" by blast
    moreover from ne t have "trim_left encs s = trim_left encs t"
      by (simp add: trim_left.simps [of encs s])
    ultimately have "s = (take n s @ p) @ trim_left encs s" using s by simp
    then show ?thesis by blast
  qed
qed

lemma TrimSpace_infix: "\<exists>p q. s = p @ TrimSpace s @ q"
proof -
  obtain p where p: "s = p @ trim_left space_encodings s"
    using trim_left_suffix by blast
  obtain q where "rev (trim_left space_encodings s)
      = q @ trim_left (map rev space_encodings) (rev (trim_left space_encodings s))"
    using trim_left_suffix by blast
  then have "trim_left space_encodings s = TrimSpace s @ rev q"
    by (metis TrimSpace_def rev_append rev_rev_ident)
  with p show ?thesis by metis
qed

lemma TrimSpace_Nil [simp]: "TrimSpace [] = []"
  using TrimSpace_infix [of "[]"] by simp

text \<open>Most strings begin and end with a printing ASCII character; the code equation tests that
  before it goes through the encodings.\<close>

definition printing :: "char \<Rightarrow> bool" where
  "printing c \<longleftrightarrow> 33 \<le> (of_char c :: nat) \<and> (of_char c :: nat) \<le> 126"

lemma space_encodings_not_printing: "e \<in> set space_encodings \<Longrightarrow> \<not> printing (hd e) \<and> \<not> printing (last e)"
  by (auto simp: space_encodings_def printing_def)

lemma trim_left_printing:
  assumes "printing (hd s)" and "s \<noteq> []" and "\<And>e. e \<in> set encs \<Longrightarrow> e \<noteq> [] \<and> \<not> printing (hd e)"
  shows "trim_left encs s = s"
proof -
  have "\<not> take (length e) s = e" if "e \<in> set encs" for e
    using assms(1,2) assms(3) [OF that] by (cases e; cases s) auto
  then have "strip_one encs s = None" by (auto simp: strip_one_def filter_empty_conv split: list.splits)
  then show ?thesis by (subst trim_left.simps) simp
qed

lemma TrimSpace_code [code]:
  "TrimSpace s =
     (if s \<noteq> [] \<and> printing (hd s) \<and> printing (last s) then s
      else rev (trim_left (map rev space_encodings) (rev (trim_left space_encodings s))))"
proof (cases "s \<noteq> [] \<and> printing (hd s) \<and> printing (last s)")
  case True
  then have "trim_left space_encodings s = s"
    by (intro trim_left_printing) (simp_all add: space_encodings_nonempty space_encodings_not_printing)
  moreover have "trim_left (map rev space_encodings) (rev s) = rev s"
    using True by (intro trim_left_printing) (auto simp: hd_rev space_encodings_not_printing dest: space_encodings_nonempty)
  ultimately show ?thesis using True by (simp add: TrimSpace_def)
qed (simp only: TrimSpace_def if_False)

section \<open>Shared facts on lists and maps\<close>

lemma map_upd_restore: "m a = Some v \<Longrightarrow> (m(a \<mapsto> w))(a \<mapsto> v) = m"
  by auto

lemma list_update_nth_map:
  "i < length xs \<Longrightarrow> map f (xs[i := x]) = (map f xs)[i := f x]"
  by (simp add: map_update)

lemma sum_list_update_int:
  "i < length xs \<Longrightarrow> sum_list (xs[i := (x :: int)]) = sum_list xs - xs ! i + x"
  by (induction xs arbitrary: i) (auto split: nat.splits)

end
