(* ===== verification/Bounded_Map.thy ===== *)
theory Bounded_Map
  imports Flow_Prelude "HOL-Library.Multiset"
begin

text \<open>
  The bounded parallel map of \<open>src/execution/map.go\<close>.

  \<open>Map\<close> runs a feeder and some workers in one \<open>errgroup\<close>. Its state \<open>mstate\<close> has the
  items the feeder has still to send (\<open>None\<close> once it has returned and closed the
  channel), what each worker is at, the slots of the result slice, what the goroutines
  returned so far, in order, and the error of the group context. A \<open>map_event\<close> is one
  move of one goroutine, and a schedule is a list of them: a result for every schedule
  is a result for every interleaving. \<open>None\<close> is a schedule that takes a move that is
  not enabled, or a call that has not returned at its end.

  \<open>golang.org/x/sync/errgroup\<close> is not part of the repository: its \<open>Wait\<close> and the
  cancellation of its context are the parameter \<open>eg\<close>, and \<open>errgroup_spec\<close> is their
  documentation. The shared state \<open>'s\<close> is whatever the limiter and the work function
  share (budgets, a cache, counters); one call of the work function is one move.

  \<open>calls\<close> is a history variable: the work calls that returned, with their results.
\<close>

section \<open>errgroup\<close>

record errgroup =
  eg_wait :: "err option list \<Rightarrow> err option"
  eg_cancels :: "err option list \<Rightarrow> bool"

definition errgroup_spec :: "errgroup \<Rightarrow> bool" where
  "errgroup_spec eg \<longleftrightarrow>
     (\<forall>rs. (\<forall>r \<in> set rs. r = None) \<longrightarrow> eg_wait eg rs = None) \<and>
     (\<forall>xs e ys. (\<forall>r \<in> set xs. r = None) \<longrightarrow> eg_wait eg (xs @ Some e # ys) = Some e) \<and>
     (\<forall>rs. eg_cancels eg rs \<longleftrightarrow> (\<exists>r \<in> set rs. r \<noteq> None))"

section \<open>State and moves\<close>

datatype 't worker = WIdle | WJob nat 't | WWork nat 't | WExit

record ('t, 's) map_options =
  mo_workers :: int
  mo_limiter :: "(ctx \<Rightarrow> int \<Rightarrow> 's \<Rightarrow> (err option \<times> 's) option) option"
  mo_cost :: "('t \<Rightarrow> int) option"

type_synonym ('t, 'r, 's) work = "ctx \<Rightarrow> 't \<Rightarrow> 's \<Rightarrow> 'r result \<times> 's"

record ('t, 'r, 's) mstate =
  feed :: "(nat \<times> 't) list option"
  wks :: "'t worker list"
  outs :: "'r option list"
  rets :: "err option list"
  gctx :: ctx
  shared :: 's
  calls :: "(nat \<times> 'r result) list"

datatype map_event =
  FeedTo nat | FeedStop | FeedClose | Admit nat | Finish nat | Drain nat | ParentCancel err

definition worker_count :: "int \<Rightarrow> nat \<Rightarrow> nat" where
  "worker_count workers n =
     (let w = (if workers < 1 then 1 else workers) in nat (if w > int n then int n else w))"

definition map_start :: "('t, 's) map_options \<Rightarrow> ctx \<Rightarrow> 't list \<Rightarrow> 's \<Rightarrow> ('t, 'r, 's) mstate" where
  "map_start mo c xs s =
     \<lparr>feed = Some (enumerate 0 xs), wks = replicate (worker_count (mo_workers mo) (length xs)) WIdle,
      outs = replicate (length xs) None, rets = [], gctx = c, shared = s, calls = []\<rparr>"

text \<open>A goroutine of the group returns: the first error cancels the group context.\<close>

definition go_return :: "errgroup \<Rightarrow> err option \<Rightarrow> ('t, 'r, 's) mstate \<Rightarrow> ('t, 'r, 's) mstate" where
  "go_return eg r st =
     st\<lparr>rets := rets st @ [r],
        gctx := (if gctx st = None \<and> eg_cancels eg (rets st @ [r])
                 then Some (Sentinel Canceled) else gctx st)\<rparr>"

definition exit_worker :: "errgroup \<Rightarrow> nat \<Rightarrow> err option \<Rightarrow> ('t, 'r, 's) mstate \<Rightarrow> ('t, 'r, 's) mstate" where
  "exit_worker eg w r st = go_return eg r (st\<lparr>wks := (wks st)[w := WExit]\<rparr>)"

definition cost_error :: "nat \<Rightarrow> err" where
  "cost_error i = Errorf ''item %d: resource cost must be positive'' [FInt (int i)] None"

definition wait_error :: "nat \<Rightarrow> err \<Rightarrow> err" where
  "wait_error i e = Errorf ''item %d: wait for resources: %w'' [FInt (int i)] (Some e)"

definition item_error :: "nat \<Rightarrow> err \<Rightarrow> err" where
  "item_error i e = Errorf ''item %d: %w'' [FInt (int i)] (Some e)"

definition item_cost :: "('t, 's) map_options \<Rightarrow> 't \<Rightarrow> int" where
  "item_cost mo x = (case mo_cost mo of None \<Rightarrow> 1 | Some c \<Rightarrow> c x)"

definition admit_move :: "errgroup \<Rightarrow> ('t, 's) map_options \<Rightarrow> nat \<Rightarrow> nat \<Rightarrow> 't \<Rightarrow>
    ('t, 'r, 's) mstate \<Rightarrow> ('t, 'r, 's) mstate option" where
  "admit_move eg mo w i x st =
     (if item_cost mo x < 1 then Some (exit_worker eg w (Some (cost_error i)) st)
      else case mo_limiter mo of
        None \<Rightarrow> Some (st\<lparr>wks := (wks st)[w := WWork i x]\<rparr>)
      | Some lim \<Rightarrow>
          (case lim (gctx st) (item_cost mo x) (shared st) of
             None \<Rightarrow> None
           | Some (Some e, s') \<Rightarrow> Some (exit_worker eg w (Some (wait_error i e)) (st\<lparr>shared := s'\<rparr>))
           | Some (None, s') \<Rightarrow> Some (st\<lparr>wks := (wks st)[w := WWork i x], shared := s'\<rparr>)))"

definition finish_move :: "errgroup \<Rightarrow> ('t, 'r, 's) work \<Rightarrow> nat \<Rightarrow> nat \<Rightarrow> 't \<Rightarrow>
    ('t, 'r, 's) mstate \<Rightarrow> ('t, 'r, 's) mstate" where
  "finish_move eg f w i x st =
     (case f (gctx st) x (shared st) of
        (Inl e, s') \<Rightarrow>
          exit_worker eg w (Some (item_error i e)) (st\<lparr>shared := s', calls := calls st @ [(i, Inl e)]\<rparr>)
      | (Inr r, s') \<Rightarrow>
          st\<lparr>wks := (wks st)[w := WIdle], outs := (outs st)[i := Some r], shared := s',
             calls := calls st @ [(i, Inr r)]\<rparr>)"

fun map_step :: "errgroup \<Rightarrow> ('t, 's) map_options \<Rightarrow> ('t, 'r, 's) work \<Rightarrow> map_event \<Rightarrow>
    ('t, 'r, 's) mstate \<Rightarrow> ('t, 'r, 's) mstate option" where
  "map_step eg mo f (FeedTo w) st =
     (case feed st of
        Some (job # rest) \<Rightarrow>
          if w < length (wks st) \<and> wks st ! w = WIdle
          then Some (st\<lparr>feed := Some rest, wks := (wks st)[w := WJob (fst job) (snd job)]\<rparr>)
          else None
      | _ \<Rightarrow> None)"
| "map_step eg mo f FeedStop st =
     (case (feed st, gctx st) of
        (Some (job # rest), Some e) \<Rightarrow> Some (go_return eg (Some e) (st\<lparr>feed := None\<rparr>))
      | _ \<Rightarrow> None)"
| "map_step eg mo f FeedClose st =
     (case feed st of Some [] \<Rightarrow> Some (go_return eg None (st\<lparr>feed := None\<rparr>)) | _ \<Rightarrow> None)"
| "map_step eg mo f (Admit w) st =
     (if w < length (wks st)
      then (case wks st ! w of WJob i x \<Rightarrow> admit_move eg mo w i x st | _ \<Rightarrow> None) else None)"
| "map_step eg mo f (Finish w) st =
     (if w < length (wks st)
      then (case wks st ! w of WWork i x \<Rightarrow> Some (finish_move eg f w i x st) | _ \<Rightarrow> None) else None)"
| "map_step eg mo f (Drain w) st =
     (if w < length (wks st) \<and> wks st ! w = WIdle \<and> feed st = None
      then Some (exit_worker eg w None st) else None)"
| "map_step eg mo f (ParentCancel e) st =
     (if gctx st = None then Some (st\<lparr>gctx := Some e\<rparr>) else None)"

fun map_run :: "errgroup \<Rightarrow> ('t, 's) map_options \<Rightarrow> ('t, 'r, 's) work \<Rightarrow> map_event list \<Rightarrow>
    ('t, 'r, 's) mstate \<Rightarrow> ('t, 'r, 's) mstate option" where
  "map_run eg mo f [] st = Some st"
| "map_run eg mo f (ev # evs) st =
     (case map_step eg mo f ev st of None \<Rightarrow> None | Some st' \<Rightarrow> map_run eg mo f evs st')"

definition map_finished :: "('t, 'r, 's) mstate \<Rightarrow> bool" where
  "map_finished st \<longleftrightarrow> feed st = None \<and> list_all (\<lambda>w. w = WExit) (wks st)"

text \<open>The call: a slot that is still \<open>None\<close> holds the zero value of the result type.\<close>

definition bounded_Map :: "errgroup \<Rightarrow> ('t, 's) map_options \<Rightarrow> ('t, 'r, 's) work option \<Rightarrow> ctx \<Rightarrow>
    't list \<Rightarrow> map_event list \<Rightarrow> 's \<Rightarrow> ('r option list result \<times> 's) option" where
  "bounded_Map eg mo fo c xs evs s =
     (case fo of
        None \<Rightarrow> Some (Inl (Errorf ''work function is required'' [] None), s)
      | Some f \<Rightarrow>
          if xs = [] then Some (Inr [], s)
          else case map_run eg mo f evs (map_start mo c xs s) of
            None \<Rightarrow> None
          | Some st \<Rightarrow>
              if map_finished st
              then Some (case eg_wait eg (rets st) of Some e \<Rightarrow> Inl e | None \<Rightarrow> Inr (outs st), shared st)
              else None)"

section \<open>The invariant\<close>

fun worker_job :: "'t worker \<Rightarrow> (nat \<times> 't) multiset" where
  "worker_job (WJob i x) = {#(i, x)#}"
| "worker_job (WWork i x) = {#(i, x)#}"
| "worker_job _ = {#}"

text \<open>The jobs that are still to be fed or that a worker holds.\<close>

definition pend :: "('t, 'r, 's) mstate \<Rightarrow> (nat \<times> 't) multiset" where
  "pend st = mset (case feed st of None \<Rightarrow> [] | Some js \<Rightarrow> js) + sum_list (map worker_job (wks st))"

text \<open>The indices the call can account for: pending or called.\<close>

definition accounted :: "('t, 'r, 's) mstate \<Rightarrow> nat multiset" where
  "accounted st = image_mset fst (pend st) + mset (map fst (calls st))"

definition no_error :: "('t, 'r, 's) mstate \<Rightarrow> bool" where
  "no_error st \<longleftrightarrow> (\<forall>r \<in> set (rets st). r = None)"

lemma sum_list_map_update:
  assumes "w < length ws"
  shows "sum_list (map h (ws[w := v])) + h (ws ! w) = sum_list (map h ws) + (h v :: 'm :: comm_monoid_add)"
  using assms
proof (induction ws arbitrary: w)
  case (Cons a ws)
  show ?case
  proof (cases w)
    case 0
    then show ?thesis by (simp add: ac_simps)
  next
    case (Suc k)
    with Cons.IH [of k] Cons.prems show ?thesis by (simp add: add.assoc)
  qed
qed simp

lemma pend_worker:
  assumes "w < length (wks st)"
  shows "pend (st\<lparr>wks := (wks st)[w := v]\<rparr>) + worker_job (wks st ! w) = pend st + worker_job v"
  using sum_list_map_update [OF assms, of worker_job v]
  by (simp add: pend_def add.assoc)

lemma pend_worker_same:
  "w < length (wks st) \<Longrightarrow> worker_job (wks st ! w) = worker_job v \<Longrightarrow>
     pend (st\<lparr>wks := (wks st)[w := v]\<rparr>) = pend st"
  using pend_worker [of w st v] by simp

lemma pend_worker_drop:
  "w < length (wks st) \<Longrightarrow> worker_job v = {#} \<Longrightarrow>
     pend st = pend (st\<lparr>wks := (wks st)[w := v]\<rparr>) + worker_job (wks st ! w)"
  using pend_worker [of w st v] by simp

lemma pend_frame [engine_simps]:
  "pend (st\<lparr>shared := s\<rparr>) = pend st" "pend (st\<lparr>outs := os\<rparr>) = pend st"
  "pend (st\<lparr>rets := rs\<rparr>) = pend st" "pend (st\<lparr>gctx := c\<rparr>) = pend st"
  "pend (st\<lparr>calls := cs\<rparr>) = pend st"
  by (simp_all add: pend_def)

lemma pend_return [engine_simps]: "pend (go_return eg r st) = pend st"
  by (simp add: go_return_def pend_def)

lemma return_frame [engine_simps]:
  "feed (go_return eg r st) = feed st" "wks (go_return eg r st) = wks st"
  "outs (go_return eg r st) = outs st" "shared (go_return eg r st) = shared st"
  "calls (go_return eg r st) = calls st" "rets (go_return eg r st) = rets st @ [r]"
  by (simp_all add: go_return_def)

lemma no_error_return [engine_simps]: "no_error (go_return eg r st) \<longleftrightarrow> no_error st \<and> r = None"
  by (auto simp: no_error_def go_return_def)

lemma exit_frame [engine_simps]:
  "feed (exit_worker eg w r st) = feed st" "wks (exit_worker eg w r st) = (wks st)[w := WExit]"
  "outs (exit_worker eg w r st) = outs st" "shared (exit_worker eg w r st) = shared st"
  "calls (exit_worker eg w r st) = calls st" "rets (exit_worker eg w r st) = rets st @ [r]"
  by (simp_all add: exit_worker_def engine_simps)

lemma no_error_exit [engine_simps]: "no_error (exit_worker eg w r st) \<longleftrightarrow> no_error st \<and> r = None"
  by (auto simp: no_error_def engine_simps)

text \<open>What a state of a call on the items \<open>xs\<close> satisfies: every pending job is an item with
  its own index, no index is accounted for twice, none is lost before an error, the filled
  slots are the results of the calls that succeeded, and the client's \<open>P\<close> holds.\<close>

definition jobs_ok :: "'t list \<Rightarrow> (nat \<times> 't) multiset \<Rightarrow> bool" where
  "jobs_ok xs js \<longleftrightarrow> (\<forall>j \<in># js. fst j < length xs \<and> snd j = xs ! fst j)"

definition outs_ok :: "'r option list \<Rightarrow> (nat \<times> 'r result) list \<Rightarrow> bool" where
  "outs_ok os cs \<longleftrightarrow> (\<forall>i < length os. \<forall>r. os ! i = Some r \<longleftrightarrow> (i, Inr r) \<in> set cs)"

definition minv :: "((nat \<times> 'r result) list \<Rightarrow> 's \<Rightarrow> bool) \<Rightarrow> 't list \<Rightarrow> ('t, 'r, 's) mstate \<Rightarrow> bool" where
  "minv P xs st \<longleftrightarrow>
     length (outs st) = length xs \<and> jobs_ok xs (pend st) \<and>
     accounted st \<subseteq># mset [0 ..< length xs] \<and>
     (no_error st \<longrightarrow> accounted st = mset [0 ..< length xs] \<and> (\<forall>c \<in> set (calls st). \<not> isl (snd c))) \<and>
     outs_ok (outs st) (calls st) \<and> P (calls st) (shared st)"

lemma sum_list_replicate_empty [simp]: "sum_list (replicate n {#}) = {#}"
  by (induction n) auto

lemma minv_start:
  assumes "P [] s"
  shows "minv P xs (map_start mo c xs s)"
proof -
  have pend: "pend (map_start mo c xs s) = mset (enumerate 0 xs)"
    by (simp add: pend_def map_start_def del: mset_map)
  have "image_mset fst (mset (enumerate 0 xs)) = mset [0 ..< length xs]"
    by (simp only: mset_map [symmetric] map_fst_enumerate add_0)
  then have "accounted (map_start mo c xs s) = mset [0 ..< length xs]"
    unfolding accounted_def pend by (simp add: map_start_def)
  moreover have "jobs_ok xs (pend (map_start mo c xs s))"
    by (auto simp: jobs_ok_def pend in_set_enumerate_eq)
  ultimately show ?thesis
    using assms by (auto simp: minv_def map_start_def no_error_def outs_ok_def)
qed

lemma minv_keep:
  assumes "minv P xs st" and "pend st' = pend st" and "outs st' = outs st" and "calls st' = calls st"
    and "no_error st' \<Longrightarrow> no_error st" and "P (calls st) (shared st')"
  shows "minv P xs st'"
  using assms by (auto simp: minv_def accounted_def)

lemma minv_lose:
  assumes "minv P xs st" and "pend st = pend st' + lost" and "outs st' = outs st"
    and "calls st' = calls st" and "\<not> no_error st'" and "P (calls st) (shared st')"
  shows "minv P xs st'"
proof -
  have "accounted st = accounted st' + image_mset fst lost"
    using assms(2,4) by (simp add: accounted_def)
  then have "accounted st' \<subseteq># accounted st" by simp
  also have "accounted st \<subseteq># mset [0 ..< length xs]"
    using assms(1) unfolding minv_def by blast
  finally show ?thesis
    using assms by (auto simp: minv_def jobs_ok_def)
qed

lemma pend_job:
  assumes "jobs_ok xs (pend st)" and "w < length (wks st)"
    and "worker_job (wks st ! w) = {#(i, x)#}"
  shows "i < length xs" and "x = xs ! i" and "(i, x) \<in># pend st"
proof -
  show "(i, x) \<in># pend st"
    unfolding pend_worker_drop [OF assms(2), of WExit, simplified] assms(3) by simp
  then show "i < length xs" "x = xs ! i"
    using assms(1) by (auto simp: jobs_ok_def)
qed

lemma pending_not_called:
  assumes "accounted st \<subseteq># mset [0 ..< n]" and "(i, x) \<in># pend st"
  shows "i \<notin> fst ` set (calls st)"
proof
  assume "i \<in> fst ` set (calls st)"
  then have "1 \<le> count (mset (map fst (calls st))) i"
    by (simp add: Suc_le_eq del: mset_map)
  moreover have "1 \<le> count (image_mset fst (pend st)) i"
    using assms(2) by (force simp: Suc_le_eq)
  moreover have "count (accounted st) i
      = count (image_mset fst (pend st)) i + count (mset (map fst (calls st))) i"
    by (simp add: accounted_def)
  ultimately have "2 \<le> count (accounted st) i" by linarith
  also have "\<dots> \<le> count (mset [0 ..< n]) i" using assms(1) by (rule mset_subset_eq_count)
  also have "\<dots> \<le> 1" by (simp add: count_mset_set')
  finally show False by simp
qed

text \<open>The documentation of \<open>errgroup\<close> determines what \<open>Wait\<close> returns.\<close>

lemma first_error_split:
  "first_error rs = Some e \<Longrightarrow> \<exists>xs ys. rs = xs @ Some e # ys \<and> (\<forall>r \<in> set xs. r = None)"
proof (induction rs rule: first_error.induct)
  case (2 d rs)
  then show ?case by (intro exI [of _ "[]"] exI [of _ rs]) auto
next
  case (3 rs)
  then obtain xs ys where "rs = xs @ Some e # ys" "\<forall>r \<in> set xs. r = None" by auto
  then show ?case by (intro exI [of _ "None # xs"] exI [of _ ys]) auto
qed simp

lemma first_error_None: "first_error rs = None \<longleftrightarrow> (\<forall>r \<in> set rs. r = None)"
  by (induction rs rule: first_error.induct) auto

lemma first_error_append:
  "first_error (xs @ ys) = (case first_error xs of None \<Rightarrow> first_error ys | Some e \<Rightarrow> Some e)"
  by (induction xs rule: first_error.induct) auto

lemma errgroup_wait: "errgroup_spec eg \<Longrightarrow> eg_wait eg rs = first_error rs"
  by (cases "first_error rs")
     (auto simp: errgroup_spec_def first_error_None [symmetric] simp del: not_None_eq
       dest!: first_error_split)

lemma errgroup_cancels: "errgroup_spec eg \<Longrightarrow> eg_cancels eg rs \<longleftrightarrow> first_error rs \<noteq> None"
  by (simp add: errgroup_spec_def first_error_None)

lemma errgroup_None: "errgroup_spec eg \<Longrightarrow> eg_wait eg rs = None \<longleftrightarrow> (\<forall>r \<in> set rs. r = None)"
  by (simp add: errgroup_wait first_error_None)

lemma exited_jobs: "list_all (\<lambda>w. w = WExit) ws \<Longrightarrow> sum_list (map worker_job ws) = {#}"
  by (induction ws) auto

lemma finished_pend:
  assumes "map_finished st"
  shows "pend st = {#}"
  using assms by (simp add: pend_def map_finished_def exited_jobs)

section \<open>Clients of the map\<close>

text \<open>
  What a caller has to show of its limiter and work function to have a fact \<open>P\<close> about
  the completed calls and the shared state hold under every interleaving: the limiter
  keeps it, and a work call on an item that was not called before extends it.
\<close>

locale map_client =
  fixes mo :: "('t, 's) map_options" and f :: "('t, 'r, 's) work" and xs :: "'t list"
    and P :: "(nat \<times> 'r result) list \<Rightarrow> 's \<Rightarrow> bool"
  assumes limiter_keeps: "mo_limiter mo = Some lim \<Longrightarrow> lim c k s = Some (r, s') \<Longrightarrow> P cs s \<Longrightarrow> P cs s'"
    and work_extends: "i < length xs \<Longrightarrow> i \<notin> fst ` set cs \<Longrightarrow> P cs s \<Longrightarrow> f c (xs ! i) s = (res, s') \<Longrightarrow>
      P (cs @ [(i, res)]) s'"
begin

lemma finish_minv:
  assumes inv: "minv P xs st" and w: "w < length (wks st)" and job: "wks st ! w = WWork i x"
  shows "minv P xs (finish_move eg f w i x st)"
proof -
  from inv have jobs: "jobs_ok xs (pend st)" and acc: "accounted st \<subseteq># mset [0 ..< length xs]"
    and outs: "length (outs st) = length xs" "outs_ok (outs st) (calls st)"
    and ne: "no_error st \<longrightarrow> accounted st = mset [0 ..< length xs] \<and> (\<forall>c \<in> set (calls st). \<not> isl (snd c))"
    and P: "P (calls st) (shared st)"
    unfolding minv_def by blast+
  have ij: "worker_job (wks st ! w) = {#(i, x)#}" using job by simp
  note i = pend_job [OF jobs w ij]
  have fresh: "i \<notin> fst ` set (calls st)" using acc i(3) by (rule pending_not_called)
  obtain res s' where fx: "f (gctx st) x (shared st) = (res, s')" by fastforce
  let ?cs = "calls st @ [(i, res)]"
  have P': "P ?cs s'" using i fresh P fx by (auto intro: work_extends)
  let ?st = "finish_move eg f w i x st"
  have calls: "calls ?st = ?cs" and sh: "shared ?st = s'"
    by (auto simp: finish_move_def fx engine_simps split: sum.splits)
  have "pend ?st + {#(i, x)#} = pend st"
    using pend_worker [OF w, of WExit] pend_worker [OF w, of WIdle] job
    by (auto simp: finish_move_def fx pend_def engine_simps split: sum.splits)
  then have pend: "pend st = add_mset (i, x) (pend ?st)" by simp
  then have accs: "accounted ?st = accounted st" by (simp add: accounted_def calls)
  have "outs_ok (outs ?st) ?cs"
  proof (cases res)
    case (Inl e)
    then show ?thesis using outs by (auto simp: finish_move_def fx outs_ok_def engine_simps)
  next
    case (Inr r)
    have "(i, y) \<notin> set (calls st)" for y using fresh by force
    moreover have "outs ?st = (outs st)[i := Some r]" by (simp add: finish_move_def fx Inr)
    ultimately show ?thesis using outs i(1) Inr
      by (auto simp: outs_ok_def nth_list_update)
  qed
  moreover have "no_error ?st \<longrightarrow> no_error st \<and> \<not> isl res"
    by (auto simp: finish_move_def fx engine_simps no_error_def split: sum.splits)
  moreover have "length (outs ?st) = length xs"
    using outs by (auto simp: finish_move_def fx engine_simps split: sum.splits)
  moreover have "jobs_ok xs (pend ?st)" using jobs pend by (simp add: jobs_ok_def)
  ultimately show ?thesis
    using acc ne P' unfolding minv_def calls sh accs by auto
qed

lemma admit_minv:
  assumes inv: "minv P xs st" and w: "w < length (wks st)" and job: "wks st ! w = WJob i x"
    and step: "admit_move eg mo w i x st = Some st'"
  shows "minv P xs st'"
proof -
  let ?exit = "\<lambda>e s. exit_worker eg w (Some e) (st\<lparr>shared := s\<rparr>)"
  let ?go = "\<lambda>s. st\<lparr>wks := (wks st)[w := WWork i x], shared := s\<rparr>"
  from inv have P: "P (calls st) (shared st)" by (simp add: minv_def)
  have exit: "minv P xs (?exit e s)" if "P (calls st) s" for e s
  proof (rule minv_lose [OF inv])
    show "pend st = pend (?exit e s) + {#(i, x)#}"
      using pend_worker_drop [OF w, of WExit] job by (simp add: pend_def engine_simps)
  qed (simp_all add: engine_simps that)
  have go: "minv P xs (?go s)" if "P (calls st) s" for s
  proof (rule minv_keep [OF inv])
    show "pend (?go s) = pend st"
      using pend_worker_same [OF w, of "WWork i x"] job by (simp add: pend_def)
  qed (simp_all add: no_error_def that)
  have same: "st = st\<lparr>shared := shared st\<rparr>" by simp
  show ?thesis
  proof (cases "item_cost mo x < 1")
    case True
    then show ?thesis using step exit [OF P] by (auto simp: admit_move_def)
  next
    case False
    show ?thesis
    proof (cases "mo_limiter mo")
      case None
      then have "st' = ?go (shared st)" using step False by (auto simp: admit_move_def)
      then show ?thesis using go [OF P] by simp
    next
      case (Some lim)
      then obtain r s' where lim: "lim (gctx st) (item_cost mo x) (shared st) = Some (r, s')"
        using step False by (auto simp: admit_move_def split: option.splits)
      then have "P (calls st) s'" using Some P by (blast intro: limiter_keeps)
      then show ?thesis using step False Some lim exit go
        by (cases r) (auto simp: admit_move_def)
    qed
  qed
qed

lemma step_minv:
  assumes inv: "minv P xs st" and step: "map_step eg mo f ev st = Some st'"
  shows "minv P xs st'"
proof -
  from inv have P: "P (calls st) (shared st)" by (simp add: minv_def)
  show ?thesis
  proof (cases ev)
    case (FeedTo w)
    with step obtain job rest where w: "w < length (wks st)" "wks st ! w = WIdle"
      and feed: "feed st = Some (job # rest)"
      and st': "st' = st\<lparr>feed := Some rest, wks := (wks st)[w := WJob (fst job) (snd job)]\<rparr>"
      by (auto split: option.splits list.splits if_splits)
    have "pend st' = pend st"
      using pend_worker [OF w(1), of "WJob (fst job) (snd job)"] w(2)
      by (simp add: pend_def st' feed)
    then show ?thesis using P by (intro minv_keep [OF inv]) (simp_all add: st' no_error_def)
  next
    case FeedStop
    with step obtain jobs e where feed: "feed st = Some jobs"
      and st': "st' = go_return eg (Some e) (st\<lparr>feed := None\<rparr>)"
      by (auto split: option.splits list.splits)
    show ?thesis
    proof (rule minv_lose [OF inv])
      show "pend st = pend st' + mset jobs" by (simp add: st' pend_def feed engine_simps)
    qed (simp_all add: st' engine_simps P)
  next
    case FeedClose
    with step have "feed st = Some []" and st': "st' = go_return eg None (st\<lparr>feed := None\<rparr>)"
      by (auto split: option.splits list.splits)
    then have "pend st' = pend st" by (simp add: pend_def engine_simps)
    then show ?thesis using P
      by (intro minv_keep [OF inv]) (auto simp: st' engine_simps no_error_def)
  next
    case (Admit w)
    with step obtain i x where "w < length (wks st)" "wks st ! w = WJob i x"
      "admit_move eg mo w i x st = Some st'"
      by (auto split: if_splits worker.splits)
    then show ?thesis by (rule admit_minv [OF inv])
  next
    case (Finish w)
    with step obtain i x where "w < length (wks st)" "wks st ! w = WWork i x"
      "st' = finish_move eg f w i x st"
      by (auto split: if_splits worker.splits)
    then show ?thesis using finish_minv [OF inv] by simp
  next
    case (Drain w)
    with step have w: "w < length (wks st)" "wks st ! w = WIdle" and st': "st' = exit_worker eg w None st"
      by (auto split: if_splits)
    have "pend st' = pend st"
      using pend_worker_same [OF w(1), of WExit] w(2) by (simp add: st' pend_def engine_simps)
    then show ?thesis using P
      by (intro minv_keep [OF inv]) (auto simp: st' engine_simps no_error_def)
  next
    case (ParentCancel e)
    with step have "st' = st\<lparr>gctx := Some e\<rparr>" by (auto split: if_splits)
    then show ?thesis using P
      by (intro minv_keep [OF inv]) (auto simp: engine_simps no_error_def)
  qed
qed

lemma run_minv: "map_run eg mo f evs st = Some st' \<Longrightarrow> minv P xs st \<Longrightarrow> minv P xs st'"
  by (induction evs arbitrary: st) (auto split: option.splits intro: step_minv)

lemma map_success:
  assumes eg: "errgroup_spec eg" and start: "P [] s"
    and run: "bounded_Map eg mo (Some f) c xs evs s = Some (Inr rs, s')"
  shows "length rs = length xs \<and> (\<exists>cs. P cs s' \<and> mset (map fst cs) = mset [0 ..< length xs]
           \<and> (\<forall>c \<in> set cs. \<not> isl (snd c)) \<and> outs_ok rs cs)"
proof (cases "xs = []")
  case True
  with run start show ?thesis by (auto simp: bounded_Map_def outs_ok_def intro!: exI [of _ "[]"])
next
  case False
  with run obtain st where st: "map_run eg mo f evs (map_start mo c xs s) = Some st"
    and fin: "map_finished st" and wait: "eg_wait eg (rets st) = None"
    and rs: "rs = outs st" and s': "s' = shared st"
    by (auto simp: bounded_Map_def split: option.splits if_splits)
  from run_minv [OF st minv_start] start have inv: "minv P xs st" by blast
  have "no_error st" using wait errgroup_None [OF eg] by (simp add: no_error_def)
  moreover have "pend st = {#}" using fin by (rule finished_pend)
  ultimately show ?thesis
    using inv unfolding minv_def rs s' by (auto simp: accounted_def intro!: exI [of _ "calls st"])
qed

lemma map_failure:
  assumes start: "P [] s" and run: "bounded_Map eg mo (Some f) c xs evs s = Some (Inl e, s')"
  shows "\<exists>cs. P cs s' \<and> mset (map fst cs) \<subseteq># mset [0 ..< length xs]"
proof -
  from run obtain st where st: "map_run eg mo f evs (map_start mo c xs s) = Some st"
    and s': "s' = shared st"
    by (auto simp: bounded_Map_def split: option.splits if_splits)
  from run_minv [OF st minv_start] start have "minv P xs st" by blast
  then have "P (calls st) s'" and "accounted st \<subseteq># mset [0 ..< length xs]"
    by (auto simp: minv_def s')
  moreover have "mset (map fst (calls st)) \<subseteq># accounted st" by (simp add: accounted_def)
  ultimately show ?thesis by (meson subset_mset.order_trans)
qed

end

lemma outs_filled:
  assumes "outs_ok rs cs" and "\<forall>c \<in> set cs. \<not> isl (snd c)" and "length rs = n"
    and "mset (map fst cs) = mset [0 ..< n]" and "i < n"
  shows "\<exists>r. rs ! i = Some r \<and> (i, Inr r) \<in> set cs"
proof -
  have "i \<in> set (map fst cs)" using assms(4,5) by (metis atLeastLessThan_iff set_mset_mset set_upt zero_le)
  then obtain res where "(i, res) \<in> set cs" by auto
  moreover from this assms(2) obtain r where "res = Inr r" by (cases res) auto
  ultimately show ?thesis using assms by (auto simp: outs_ok_def)
qed

text \<open>Whatever the work function is, the calls of the history are calls of it.\<close>

definition real_calls :: "('t, 'r, 's) work \<Rightarrow> 't list \<Rightarrow> (nat \<times> 'r result) list \<Rightarrow> 's \<Rightarrow> bool" where
  "real_calls f xs cs s \<longleftrightarrow>
     (\<forall>(i, res) \<in> set cs. i < length xs \<and> (\<exists>c t t'. f c (xs ! i) t = (res, t')))"

interpretation any_client: map_client mo f xs "real_calls f xs"
  for mo :: "('t, 's) map_options" and f :: "('t, 'r, 's) work" and xs :: "'t list"
proof
  show "real_calls f xs cs s'" if "real_calls f xs cs s" for cs s s'
    using that by (simp add: real_calls_def)
  show "real_calls f xs (cs @ [(i, res)]) s'"
    if "i < length xs" "real_calls f xs cs s" "f c (xs ! i) s = (res, s')" for i cs s c res s'
    using that by (auto simp: real_calls_def)
qed

section \<open>Errors name an item\<close>

text \<open>An error of the call that did not come from outside is about one item of the input:
  its cost, the refusal of its admission, or the error of its work call.\<close>

definition item_failure :: "('t, 's) map_options \<Rightarrow> 't list \<Rightarrow> (nat \<times> 'r result) list \<Rightarrow> err \<Rightarrow> bool" where
  "item_failure mo xs cs e \<longleftrightarrow>
     (\<exists>i < length xs. (e = cost_error i \<and> item_cost mo (xs ! i) < 1)
        \<or> (\<exists>d. e = wait_error i d) \<or> (\<exists>d. e = item_error i d \<and> (i, Inl d) \<in> set cs))"

definition error_inv :: "('t, 's) map_options \<Rightarrow> 't list \<Rightarrow> ('t, 'r, 's) mstate \<Rightarrow> bool" where
  "error_inv mo xs st \<longleftrightarrow>
     (gctx st = None \<longleftrightarrow> first_error (rets st) = None)
     \<and> (\<forall>e. first_error (rets st) = Some e \<longrightarrow> item_failure mo xs (calls st) e)"

lemma item_failure_mono:
  "item_failure mo xs cs e \<Longrightarrow> set cs \<subseteq> set cs' \<Longrightarrow> item_failure mo xs cs' e"
  by (auto simp: item_failure_def)

lemma error_inv_keep:
  assumes "error_inv mo xs st" and "gctx st' = gctx st" and "rets st' = rets st"
    and "set (calls st) \<subseteq> set (calls st')"
  shows "error_inv mo xs st'"
  using assms by (auto simp: error_inv_def intro: item_failure_mono)

lemma error_inv_return:
  assumes "errgroup_spec eg" and "error_inv mo xs st"
    and "\<And>e. r = Some e \<Longrightarrow> gctx st = None \<Longrightarrow> item_failure mo xs (calls st) e"
  shows "error_inv mo xs (go_return eg r st)"
  using assms
  by (cases r; cases "first_error (rets st)")
     (auto simp: error_inv_def go_return_def errgroup_cancels first_error_append)

lemma error_inv_exit:
  assumes "errgroup_spec eg" and "error_inv mo xs st"
    and "\<And>e. r = Some e \<Longrightarrow> item_failure mo xs (calls st) e"
  shows "error_inv mo xs (exit_worker eg w r st)"
  unfolding exit_worker_def
  by (rule error_inv_return [OF assms(1)]) (use assms(2,3) in \<open>auto simp: error_inv_def\<close>)

lemma step_error_inv:
  assumes eg: "errgroup_spec eg" and inv: "error_inv mo xs st" and jobs: "jobs_ok xs (pend st)"
    and step: "map_step eg mo f ev st = Some st'" and ev: "\<And>e. ev \<noteq> ParentCancel e"
  shows "error_inv mo xs st'"
proof (cases ev)
  case (FeedTo w)
  with step inv show ?thesis
    by (auto split: option.splits list.splits if_splits simp: error_inv_def)
next
  case FeedStop
  with step obtain e where "gctx st = Some e" and st': "st' = go_return eg (Some e) (st\<lparr>feed := None\<rparr>)"
    by (auto split: option.splits list.splits)
  moreover have "error_inv mo xs (st\<lparr>feed := None\<rparr>)" using inv by (simp add: error_inv_def)
  ultimately show ?thesis by (auto intro!: error_inv_return [OF eg])
next
  case FeedClose
  with step have st': "st' = go_return eg None (st\<lparr>feed := None\<rparr>)"
    by (auto split: option.splits list.splits)
  moreover have "error_inv mo xs (st\<lparr>feed := None\<rparr>)" using inv by (simp add: error_inv_def)
  ultimately show ?thesis by (auto intro!: error_inv_return [OF eg])
next
  case (Admit w)
  with step obtain i x where w: "w < length (wks st)" and job: "wks st ! w = WJob i x"
    and adm: "admit_move eg mo w i x st = Some st'"
    by (auto split: if_splits worker.splits)
  have i: "i < length xs" "x = xs ! i" using pend_job [OF jobs w] job by auto
  have wait: "item_failure mo xs (calls st) (wait_error i d)" for d
    using i by (auto simp: item_failure_def)
  have cost: "item_failure mo xs (calls st) (cost_error i)" if "item_cost mo x < 1"
    using i that by (auto simp: item_failure_def)
  have exit: "error_inv mo xs (exit_worker eg w (Some (wait_error i d)) (st\<lparr>shared := s\<rparr>))" for d s
    using inv wait by (intro error_inv_exit [OF eg]) (auto simp: error_inv_def)
  have go: "error_inv mo xs (st\<lparr>wks := ws, shared := s\<rparr>)" for ws s
    using inv by (simp add: error_inv_def)
  show ?thesis
  proof (cases "item_cost mo x < 1")
    case True
    with adm cost inv show ?thesis by (auto simp: admit_move_def intro!: error_inv_exit [OF eg])
  next
    case False
    with adm inv exit go show ?thesis
      by (auto simp: admit_move_def error_inv_def split: option.splits prod.splits)
  qed
next
  case (Finish w)
  with step obtain i x where w: "w < length (wks st)" and job: "wks st ! w = WWork i x"
    and st': "st' = finish_move eg f w i x st"
    by (auto split: if_splits worker.splits)
  have i: "i < length xs" using pend_job [OF jobs w] job by auto
  obtain res s' where fx: "f (gctx st) x (shared st) = (res, s')" by fastforce
  show ?thesis
  proof (cases res)
    case (Inl e)
    have "error_inv mo xs (st\<lparr>shared := s', calls := calls st @ [(i, Inl e)]\<rparr>)"
      by (rule error_inv_keep [OF inv]) auto
    moreover have "item_failure mo xs (calls st @ [(i, Inl e)]) (item_error i e)"
      using i by (auto simp: item_failure_def)
    ultimately show ?thesis
      by (auto simp: st' finish_move_def fx Inl intro!: error_inv_exit [OF eg])
  next
    case (Inr r)
    then show ?thesis
      by (auto simp: st' finish_move_def fx intro!: error_inv_keep [OF inv])
  qed
next
  case (Drain w)
  with step inv show ?thesis by (auto split: if_splits intro!: error_inv_exit [OF eg])
next
  case (ParentCancel e)
  with ev show ?thesis by blast
qed

lemma run_error_inv:
  assumes "errgroup_spec eg" and "map_run eg mo f evs st = Some st'"
    and "\<forall>e. ParentCancel e \<notin> set evs"
    and "minv (real_calls f xs) xs st" and "error_inv mo xs st"
  shows "error_inv mo xs st'"
  using assms(2-5)
proof (induction evs arbitrary: st)
  case (Cons ev evs)
  then obtain st1 where st1: "map_step eg mo f ev st = Some st1"
    and rest: "map_run eg mo f evs st1 = Some st'"
    by (auto split: option.splits)
  have "jobs_ok xs (pend st)" using Cons.prems(3) by (simp add: minv_def)
  then have "error_inv mo xs st1"
    using Cons.prems(2,4) by (intro step_error_inv [OF assms(1) _ _ st1]) auto
  moreover have "minv (real_calls f xs) xs st1"
    using Cons.prems(3) st1 by (rule any_client.step_minv)
  ultimately show ?case using Cons.IH [OF rest] Cons.prems(2) by auto
qed simp

section \<open>The call returns\<close>

text \<open>Every move makes a measure smaller, and a call that has not returned can move, as
  long as the limiter does not block for ever.\<close>

fun worker_rank :: "'t worker \<Rightarrow> nat" where
  "worker_rank (WJob i x) = 4"
| "worker_rank (WWork i x) = 3"
| "worker_rank WIdle = 1"
| "worker_rank WExit = 0"

definition map_rank :: "('t, 'r, 's) mstate \<Rightarrow> nat" where
  "map_rank st = (case feed st of None \<Rightarrow> 0 | Some js \<Rightarrow> Suc (4 * length js))
     + sum_list (map worker_rank (wks st)) + (if gctx st = None then 1 else 0)"

definition live_inv :: "('t, 'r, 's) mstate \<Rightarrow> bool" where
  "live_inv st \<longleftrightarrow> wks st \<noteq> [] \<and> (feed st \<noteq> None \<and> gctx st = None \<longrightarrow> WExit \<notin> set (wks st))"

definition nonblocking :: "('t, 's) map_options \<Rightarrow> bool" where
  "nonblocking mo \<longleftrightarrow> (\<forall>lim c k s. mo_limiter mo = Some lim \<longrightarrow> lim c k s \<noteq> None)"

lemma return_gctx: "gctx (go_return eg r st) = None \<Longrightarrow> gctx st = None"
  by (simp add: go_return_def split: if_splits)

lemma error_return_gctx: "errgroup_spec eg \<Longrightarrow> gctx (go_return eg (Some e) st) \<noteq> None"
  by (auto simp: go_return_def errgroup_spec_def)

lemma exit_gctx: "errgroup_spec eg \<Longrightarrow> gctx (exit_worker eg w (Some e) st) \<noteq> None"
  by (simp add: exit_worker_def error_return_gctx)

lemma rank_worker:
  assumes "w < length (wks st)"
  shows "sum_list (map worker_rank ((wks st)[w := v])) + worker_rank (wks st ! w)
           = sum_list (map worker_rank (wks st)) + worker_rank v"
  by (rule sum_list_map_update [OF assms])

lemma map_rank_move:
  assumes "w < length (wks st)" and "wks st' = (wks st)[w := v]"
    and "worker_rank v < worker_rank (wks st ! w)" and "feed st' = feed st"
    and "gctx st' = None \<Longrightarrow> gctx st = None"
  shows "map_rank st' < map_rank st"
  using rank_worker [OF assms(1), of v] assms by (auto simp: map_rank_def)

lemma exit_rank:
  assumes "w < length (wks st)" and "wks st ! w \<noteq> WExit" and "wks st0 = wks st"
    and "feed st0 = feed st" and "gctx st0 = gctx st"
  shows "map_rank (exit_worker eg w r st0) < map_rank st"
proof (rule map_rank_move [OF assms(1), of _ WExit])
  show "worker_rank WExit < worker_rank (wks st ! w)"
    using assms(2) by (cases "wks st ! w") auto
  show "gctx (exit_worker eg w r st0) = None \<Longrightarrow> gctx st = None"
    using assms(5) return_gctx [of eg r "st0\<lparr>wks := (wks st0)[w := WExit]\<rparr>"]
    by (simp add: exit_worker_def)
qed (simp_all add: assms engine_simps)

lemma step_rank:
  assumes "map_step eg mo f ev st = Some st'"
  shows "map_rank st' < map_rank st"
proof (cases ev)
  case (FeedTo w)
  with assms obtain job rest where w: "w < length (wks st)" "wks st ! w = WIdle"
    and feed: "feed st = Some (job # rest)"
    and st': "st' = st\<lparr>feed := Some rest, wks := (wks st)[w := WJob (fst job) (snd job)]\<rparr>"
    by (auto split: option.splits list.splits if_splits)
  show ?thesis
    using rank_worker [OF w(1), of "WJob (fst job) (snd job)"] w(2)
    by (simp add: map_rank_def st' feed)
next
  case FeedStop
  with assms show ?thesis
    by (auto split: option.splits list.splits simp: map_rank_def engine_simps dest: return_gctx)
next
  case FeedClose
  with assms show ?thesis
    by (auto split: option.splits list.splits simp: map_rank_def engine_simps dest: return_gctx)
next
  case (Admit w)
  with assms obtain i x where w: "w < length (wks st)" "wks st ! w = WJob i x"
    and adm: "admit_move eg mo w i x st = Some st'"
    by (auto split: if_splits worker.splits)
  have exit: "map_rank (exit_worker eg w r (st\<lparr>shared := s\<rparr>)) < map_rank st" for r s
    using w by (intro exit_rank) auto
  have exit': "map_rank (exit_worker eg w r st) < map_rank st" for r
    using w by (intro exit_rank) auto
  have go: "map_rank (st\<lparr>wks := (wks st)[w := WWork i x], shared := s\<rparr>) < map_rank st" for s
    using w by (intro map_rank_move) auto
  have go': "map_rank (st\<lparr>wks := (wks st)[w := WWork i x]\<rparr>) < map_rank st"
    using w by (intro map_rank_move) auto
  show ?thesis using adm exit exit' go go'
    by (auto simp: admit_move_def split: if_splits option.splits)
next
  case (Finish w)
  with assms obtain i x where w: "w < length (wks st)" "wks st ! w = WWork i x"
    and st': "st' = finish_move eg f w i x st"
    by (auto split: if_splits worker.splits)
  have exit: "map_rank (exit_worker eg w r (st\<lparr>shared := s, calls := cs\<rparr>)) < map_rank st" for r s cs
    using w by (intro exit_rank) auto
  have go: "map_rank (st\<lparr>wks := (wks st)[w := WIdle], outs := os, shared := s, calls := cs\<rparr>)
      < map_rank st" for s os cs
    using w by (intro map_rank_move) auto
  show ?thesis using exit go by (auto simp: st' finish_move_def split: prod.splits sum.splits)
next
  case (Drain w)
  with assms show ?thesis by (auto split: if_splits intro!: exit_rank)
next
  case (ParentCancel e)
  with assms show ?thesis by (auto split: if_splits simp: map_rank_def)
qed

lemma live_keep:
  assumes "live_inv st" and "wks st' = (wks st)[w := v]" and "v \<noteq> WExit"
    and "feed st' \<noteq> None \<Longrightarrow> feed st \<noteq> None" and "gctx st' = gctx st"
  shows "live_inv st'"
  using assms set_update_subset_insert [of "wks st" w v] by (auto simp: live_inv_def)

lemma live_exit:
  "errgroup_spec eg \<Longrightarrow> live_inv st \<Longrightarrow> wks st0 = wks st \<Longrightarrow> live_inv (exit_worker eg w (Some e) st0)"
  using exit_gctx [of eg w e st0] by (auto simp: live_inv_def engine_simps)

lemma step_live:
  assumes eg: "errgroup_spec eg" and inv: "live_inv st" and step: "map_step eg mo f ev st = Some st'"
  shows "live_inv st'"
proof (cases ev)
  case (FeedTo w)
  with step inv show ?thesis
    by (auto split: option.splits list.splits if_splits intro!: live_keep [OF inv])
next
  case FeedStop
  with step inv show ?thesis
    by (auto split: option.splits list.splits simp: live_inv_def engine_simps)
next
  case FeedClose
  with step inv show ?thesis
    by (auto split: option.splits list.splits simp: live_inv_def engine_simps)
next
  case (Admit w)
  with step obtain i x where w: "wks st ! w = WJob i x" and adm: "admit_move eg mo w i x st = Some st'"
    by (auto split: if_splits worker.splits)
  have go: "live_inv (st\<lparr>wks := (wks st)[w := WWork i x], shared := s\<rparr>)" for s
    by (rule live_keep [OF inv]) auto
  have go': "live_inv (st\<lparr>wks := (wks st)[w := WWork i x]\<rparr>)"
    by (rule live_keep [OF inv]) auto
  show ?thesis using adm go go'
    by (auto simp: admit_move_def live_exit [OF eg inv] split: if_splits option.splits)
next
  case (Finish w)
  with step obtain i x where st': "st' = finish_move eg f w i x st"
    by (auto split: if_splits worker.splits)
  have go: "live_inv (st\<lparr>wks := (wks st)[w := WIdle], outs := os, shared := s, calls := cs\<rparr>)" for s os cs
    by (rule live_keep [OF inv]) auto
  show ?thesis using go
    by (auto simp: st' finish_move_def live_exit [OF eg inv] split: prod.splits sum.splits)
next
  case (Drain w)
  with step inv show ?thesis by (auto split: if_splits simp: live_inv_def engine_simps)
next
  case (ParentCancel e)
  with step inv show ?thesis by (auto split: if_splits simp: live_inv_def)
qed

lemma admit_progress:
  assumes "nonblocking mo"
  shows "\<exists>st'. admit_move eg mo w i x st = Some st'"
proof (cases "mo_limiter mo")
  case (Some lim)
  with assms obtain r s' where "lim (gctx st) (item_cost mo x) (shared st) = Some (r, s')"
    unfolding nonblocking_def by (metis old.prod.exhaust option.exhaust)
  with Some show ?thesis by (cases r) (auto simp: admit_move_def)
qed (simp add: admit_move_def)

lemma map_progress:
  assumes nb: "nonblocking mo" and inv: "live_inv st" and unfin: "\<not> map_finished st"
  shows "\<exists>ev st'. map_step eg mo f ev st = Some st'"
proof (cases "\<exists>w < length (wks st). \<exists>i x. wks st ! w = WJob i x \<or> wks st ! w = WWork i x")
  case True
  then obtain w i x where w: "w < length (wks st)" "wks st ! w = WJob i x \<or> wks st ! w = WWork i x"
    by blast
  from w(2) show ?thesis
  proof
    assume job: "wks st ! w = WJob i x"
    obtain st' where "admit_move eg mo w i x st = Some st'" using admit_progress [OF nb] by blast
    then have "map_step eg mo f (Admit w) st = Some st'" using w(1) job by simp
    then show ?thesis by blast
  next
    assume "wks st ! w = WWork i x"
    then have "map_step eg mo f (Finish w) st = Some (finish_move eg f w i x st)" using w(1) by simp
    then show ?thesis by blast
  qed
next
  case False
  then have idle: "wks st ! w = WIdle" if "w < length (wks st)" "wks st ! w \<noteq> WExit" for w
    using that by (cases "wks st ! w") auto
  show ?thesis
  proof (cases "feed st")
    case None
    with unfin obtain w where "w < length (wks st)" "wks st ! w \<noteq> WExit"
      by (auto simp: map_finished_def list_all_length)
    then have "map_step eg mo f (Drain w) st = Some (exit_worker eg w None st)"
      using idle None by simp
    then show ?thesis by blast
  next
    case (Some js)
    show ?thesis
    proof (cases js)
      case Nil
      with Some have "map_step eg mo f FeedClose st = Some (go_return eg None (st\<lparr>feed := None\<rparr>))" by simp
      then show ?thesis by blast
    next
      case (Cons job rest)
      show ?thesis
      proof (cases "gctx st")
        case None
        then have "wks st ! 0 = WIdle" and "0 < length (wks st)"
          using inv idle [of 0] Some by (auto simp: live_inv_def in_set_conv_nth)
        then have "\<exists>st'. map_step eg mo f (FeedTo 0) st = Some st'" using Some Cons by simp
        then show ?thesis by blast
      next
        case (Some e)
        then have "map_step eg mo f FeedStop st = Some (go_return eg (Some e) (st\<lparr>feed := None\<rparr>))"
          using \<open>feed st = Some js\<close> Cons by simp
        then show ?thesis by blast
      qed
    qed
  qed
qed

lemma map_can_finish:
  assumes "errgroup_spec eg" and "nonblocking mo" and "live_inv st"
  shows "\<exists>evs st'. map_run eg mo f evs st = Some st' \<and> map_finished st'"
  using assms(3)
proof (induction "map_rank st" arbitrary: st rule: less_induct)
  case less
  show ?case
  proof (cases "map_finished st")
    case True
    then show ?thesis by (intro exI [of _ "[]"]) simp
  next
    case False
    then obtain ev st1 where st1: "map_step eg mo f ev st = Some st1"
      using map_progress [OF assms(2) less.prems] by blast
    from less.hyps [OF step_rank [OF st1] step_live [OF assms(1) less.prems st1]]
    obtain evs st' where "map_run eg mo f evs st1 = Some st'" "map_finished st'" by blast
    then show ?thesis using st1 by (intro exI [of _ "ev # evs"]) auto
  qed
qed

lemma run_rank: "map_run eg mo f evs st = Some st' \<Longrightarrow> map_rank st' + length evs \<le> map_rank st"
proof (induction evs arbitrary: st)
  case (Cons ev evs)
  then obtain st1 where st1: "map_step eg mo f ev st = Some st1"
    and rest: "map_run eg mo f evs st1 = Some st'"
    by (auto split: option.splits)
  from Cons.IH [OF rest] step_rank [OF st1] show ?case by simp
qed simp

lemma run_live:
  "errgroup_spec eg \<Longrightarrow> map_run eg mo f evs st = Some st' \<Longrightarrow> live_inv st \<Longrightarrow> live_inv st'"
  by (induction evs arbitrary: st) (auto split: option.splits intro: step_live)

lemma map_run_append:
  "map_run eg mo f (evs @ evs') st =
     (case map_run eg mo f evs st of None \<Rightarrow> None | Some st' \<Rightarrow> map_run eg mo f evs' st')"
  by (induction evs arbitrary: st) (auto split: option.splits)

lemma worker_count_bounds:
  "n \<noteq> 0 \<Longrightarrow> 1 \<le> worker_count k n \<and> worker_count k n \<le> n \<and> worker_count k n \<le> nat (max 1 k)"
  by (auto simp: worker_count_def Let_def)

lemma live_start: "xs \<noteq> [] \<Longrightarrow> live_inv (map_start mo c xs s)"
  using worker_count_bounds [of "length xs" "mo_workers mo"] by (auto simp: live_inv_def map_start_def)

lemma rank_start:
  "map_rank (map_start mo c xs s)
     \<le> 4 * length xs + worker_count (mo_workers mo) (length xs) + 2"
  by (simp add: map_rank_def map_start_def sum_list_replicate)

section \<open>Properties\<close>

text \<open>The errgroup of the witnesses: \<open>Wait\<close> is the first error, and any error cancels.\<close>

definition first_group :: errgroup where
  "first_group = \<lparr>eg_wait = first_error, eg_cancels = (\<lambda>rs. first_error rs \<noteq> None)\<rparr>"

lemma first_group_spec: "errgroup_spec first_group"
proof -
  have "first_error (ys @ Some e # zs) = Some e" if "\<forall>r \<in> set ys. r = None" for ys e zs
    using that by (simp add: first_error_append first_error_None [THEN iffD2])
  moreover have "first_error rs = None" if "\<forall>r \<in> set rs. r = None" for rs
    using that by (simp add: first_error_None)
  moreover have "first_error rs \<noteq> None \<longleftrightarrow> (\<exists>r \<in> set rs. r \<noteq> None)" for rs
    by (simp add: first_error_None)
  ultimately show ?thesis by (simp add: errgroup_spec_def first_group_def)
qed

text \<open>The work of the witnesses counts its calls and fails on zero.\<close>

definition demo_work :: "(nat, nat, nat) work" where
  "demo_work c x s = (if x = 0 then Inl (ErrorsNew ''zero'') else Inr (x * 10), Suc s)"

definition demo_options :: "(nat, nat) map_options" where
  "demo_options = \<lparr>mo_workers = 2, mo_limiter = None, mo_cost = None\<rparr>"

text \<open>C6. When \<open>Map\<close> returns without an error, whatever the interleaving of its
  goroutines, it returns one result per item, and the result at an index is one that the
  work function gave for the item at that index.\<close>

theorem map_preserves_order:
  assumes "errgroup_spec eg"
    and "bounded_Map eg mo (Some f) c xs evs s = Some (Inr rs, s')"
  shows "length rs = length xs \<and>
    (\<forall>i < length xs. \<exists>r d t t'. rs ! i = Some r \<and> f d (xs ! i) t = (Inr r, t'))"
proof -
  have "real_calls f xs [] s" by (simp add: real_calls_def)
  from any_client.map_success [OF assms(1) this assms(2)] obtain cs
    where len: "length rs = length xs" and calls: "real_calls f xs cs s'"
      and all: "mset (map fst cs) = mset [0 ..< length xs]"
      and ok: "\<forall>c \<in> set cs. \<not> isl (snd c)" "outs_ok rs cs"
    by blast
  have "\<exists>r d t t'. rs ! i = Some r \<and> f d (xs ! i) t = (Inr r, t')" if i: "i < length xs" for i
  proof -
    obtain r where "rs ! i = Some r" "(i, Inr r) \<in> set cs"
      using outs_filled [OF ok(2,1) len all i] by blast
    then show ?thesis using calls by (fastforce simp: real_calls_def)
  qed
  with len show ?thesis by blast
qed

theorem map_preserves_order_witness:
  "\<exists>rs. bounded_Map first_group demo_options (Some demo_work) None [3, 4]
      [FeedTo 1, FeedTo 0, Admit 0, Finish 0, Admit 1, FeedClose, Finish 1, Drain 0, Drain 1] 0
        = Some (Inr rs, 2) \<and> rs = [Some 30, Some 40] \<and> length rs = 2"
proof -
  let ?evs = "[FeedTo 1, FeedTo 0, Admit 0, Finish 0, Admit 1, FeedClose, Finish 1, Drain 0, Drain 1]"
  have run: "bounded_Map first_group demo_options (Some demo_work) None [3, 4] ?evs 0
      = Some (Inr [Some 30, Some 40], 2)"
    by code_simp
  from map_preserves_order [OF first_group_spec this] run show ?thesis by simp
qed

text \<open>A work function that writes the items it is called on to a log.\<close>

definition logged :: "('t, 'r, 's) work \<Rightarrow> ('t, 'r, 't list \<times> 's) work" where
  "logged f c x ls = (case f c x (snd ls) of (r, s') \<Rightarrow> (r, (fst ls @ [x], s')))"

definition keeps_log :: "('t, 't list \<times> 's) map_options \<Rightarrow> bool" where
  "keeps_log mo \<longleftrightarrow>
     (\<forall>lim c k ls r ls'. mo_limiter mo = Some lim \<longrightarrow> lim c k ls = Some (r, ls') \<longrightarrow> fst ls' = fst ls)"

definition log_calls :: "'t list \<Rightarrow> (nat \<times> 'r result) list \<Rightarrow> 't list \<times> 's \<Rightarrow> bool" where
  "log_calls xs cs ls \<longleftrightarrow> fst ls = map (\<lambda>(i, _). xs ! i) cs"

lemma logged_client:
  assumes "keeps_log mo"
  shows "map_client mo (logged f) xs (log_calls xs)"
proof
  show "log_calls xs cs s'" if "mo_limiter mo = Some lim" "lim c k s = Some (r, s')" "log_calls xs cs s"
    for lim c k s r s' cs
    using assms that unfolding log_calls_def keeps_log_def by metis
  show "log_calls xs (cs @ [(i, res)]) s'"
    if "log_calls xs cs s" "logged f c (xs ! i) s = (res, s')" for i cs s c res s'
    using that by (auto simp: log_calls_def logged_def split: prod.splits)
qed

lemma logged_items:
  assumes "log_calls xs cs ls"
  shows "mset (fst ls) = image_mset (\<lambda>i. xs ! i) (mset (map fst cs))"
proof -
  have "fst ls = map (\<lambda>i. xs ! i) (map fst cs)"
    using assms by (auto simp: log_calls_def)
  then show ?thesis by (simp only: mset_map)
qed

lemma items_by_index: "image_mset (\<lambda>i. xs ! i) (mset [0 ..< length xs]) = mset xs"
  by (simp only: mset_map [symmetric] map_nth)

text \<open>C7. \<open>Map\<close> calls the work function at most once for each item of the input, and
  exactly once when it returns without an error: the items that the calls wrote to a log
  are among the items of the input, with their multiplicity, and are all of them on success.\<close>

theorem map_exactly_once:
  fixes f :: "('t, 'r, 's) work"
  assumes "errgroup_spec eg" and "keeps_log mo"
    and "bounded_Map eg mo (Some (logged f)) c xs evs ([], s) = Some (r, ls)"
  shows "mset (fst ls) \<subseteq># mset xs \<and> (\<not> isl r \<longrightarrow> mset (fst ls) = mset xs)"
proof -
  note client = logged_client [OF assms(2), of f xs]
  have start: "log_calls xs [] ([], s)" by (simp add: log_calls_def)
  show ?thesis
  proof (cases r)
    case (Inl e)
    from map_client.map_failure [OF client start assms(3) [unfolded Inl]] obtain cs :: "(nat \<times> 'r result) list"
      where "log_calls xs cs ls" "mset (map fst cs) \<subseteq># mset [0 ..< length xs]" by blast
    then have "mset (fst ls) \<subseteq># image_mset (\<lambda>i. xs ! i) (mset [0 ..< length xs])"
      by (simp only: logged_items image_mset_subseteq_mono)
    then show ?thesis using Inl by (simp only: items_by_index) simp
  next
    case (Inr rs)
    from map_client.map_success [OF client assms(1) start assms(3) [unfolded Inr]] obtain cs :: "(nat \<times> 'r result) list"
      where "log_calls xs cs ls" "mset (map fst cs) = mset [0 ..< length xs]" by blast
    then have "mset (fst ls) = mset xs" by (simp only: logged_items items_by_index)
    then show ?thesis by simp
  qed
qed

definition log_options :: "(nat, nat list \<times> nat) map_options" where
  "log_options = \<lparr>mo_workers = 2, mo_limiter = None, mo_cost = None\<rparr>"

theorem map_exactly_once_witness:
  "bounded_Map first_group log_options (Some (logged demo_work)) None [3, 4]
      [FeedTo 1, FeedTo 0, Admit 0, Finish 0, Admit 1, FeedClose, Finish 1, Drain 0, Drain 1] ([], 0)
        = Some (Inr [Some 30, Some 40], ([4, 3], 2)) \<and> mset [4, 3::nat] = mset [3, 4]"
proof -
  let ?evs = "[FeedTo 1, FeedTo 0, Admit 0, Finish 0, Admit 1, FeedClose, Finish 1, Drain 0, Drain 1]"
  have run: "bounded_Map first_group log_options (Some (logged demo_work)) None [3, 4] ?evs ([], 0)
      = Some (Inr [Some 30, Some 40], ([4, 3], 2))"
    by code_simp
  have "keeps_log log_options" by (simp add: keeps_log_def log_options_def)
  from map_exactly_once [OF first_group_spec this run] run show ?thesis by simp
qed



text \<open>C9. \<open>Map\<close> always returns when its limiter does not block for ever: no schedule is
  longer than four moves per item, one per worker and two more, and every schedule can be
  continued to one after which the call has returned.\<close>

theorem map_returns:
  assumes "errgroup_spec eg" and "nonblocking mo" and "xs \<noteq> []"
    and "map_run eg mo f evs (map_start mo c xs s) = Some st"
  shows "length evs \<le> 4 * length xs + worker_count (mo_workers mo) (length xs) + 2
    \<and> (\<exists>more r s'. bounded_Map eg mo (Some f) c xs (evs @ more) s = Some (r, s'))"
proof
  show "length evs \<le> 4 * length xs + worker_count (mo_workers mo) (length xs) + 2"
    using order_trans [OF run_rank [OF assms(4)] rank_start] by simp
  have "live_inv st" using assms(1,4) live_start [OF assms(3)] by (rule run_live)
  from map_can_finish [OF assms(1,2) this] obtain more st'
    where "map_run eg mo f more st = Some st'" "map_finished st'" by blast
  then have "map_run eg mo f (evs @ more) (map_start mo c xs s) = Some st'" "map_finished st'"
    using assms(4) by (auto simp: map_run_append)
  then show "\<exists>more r s'. bounded_Map eg mo (Some f) c xs (evs @ more) s = Some (r, s')"
    using assms(3) by (intro exI [of _ more]) (simp add: bounded_Map_def)
qed

theorem map_returns_witness:
  "\<exists>st. map_run first_group demo_options demo_work [FeedTo 0, ParentCancel (Sentinel DeadlineExceeded)]
      (map_start demo_options None [3, 4] 0) = Some st \<and>
    (\<exists>more r s'. bounded_Map first_group demo_options (Some demo_work) None [3, 4]
      ([FeedTo 0, ParentCancel (Sentinel DeadlineExceeded)] @ more) 0 = Some (r, s'))"
proof -
  let ?evs = "[FeedTo 0, ParentCancel (Sentinel DeadlineExceeded)]"
  obtain st where run: "map_run first_group demo_options demo_work ?evs
      (map_start demo_options None [3, 4] 0) = Some st"
    by (simp add: map_start_def demo_options_def worker_count_def numeral_2_eq_2)
  have "nonblocking demo_options" by (simp add: nonblocking_def demo_options_def)
  from map_returns [OF first_group_spec this _ run] run show ?thesis by simp
qed

text \<open>The number of work functions that run at the same time.\<close>

definition running :: "('t, 'r, 's) mstate \<Rightarrow> nat" where
  "running st = length [w \<leftarrow> wks st. case w of WWork i x \<Rightarrow> True | _ \<Rightarrow> False]"

lemma step_workers: "map_step eg mo f ev st = Some st' \<Longrightarrow> length (wks st') = length (wks st)"
  by (cases ev)
     (auto split: option.splits list.splits if_splits worker.splits prod.splits sum.splits
       simp: admit_move_def finish_move_def engine_simps)

lemma run_workers: "map_run eg mo f evs st = Some st' \<Longrightarrow> length (wks st') = length (wks st)"
  by (induction evs arbitrary: st) (auto split: option.splits dest: step_workers)

text \<open>C10. \<open>Map\<close> runs at most \<open>Workers\<close> work functions at the same time, one when
  \<open>Workers\<close> is below one, and never more than there are items.\<close>

theorem map_bounds_concurrency:
  assumes "map_run eg mo f evs (map_start mo c xs s) = Some st"
  shows "int (running st) \<le> max 1 (mo_workers mo) \<and> running st \<le> length xs"
proof -
  have "running st \<le> length (wks st)" by (simp add: running_def)
  also have "\<dots> = worker_count (mo_workers mo) (length xs)"
    using run_workers [OF assms] by (simp add: map_start_def)
  finally have "running st \<le> worker_count (mo_workers mo) (length xs)" .
  moreover have "int (worker_count k n) \<le> max 1 k \<and> worker_count k n \<le> n" for k n
    by (auto simp: worker_count_def Let_def)
  ultimately show ?thesis by (meson order_trans of_nat_le_iff)
qed

theorem map_bounds_concurrency_witness:
  "\<exists>st. map_run first_group demo_options demo_work [FeedTo 0, FeedTo 1, Admit 1, Admit 0]
      (map_start demo_options None [3, 4, 5] 0) = Some st \<and> running st = 2 \<and> int (running st) \<le> max 1 2"
proof -
  let ?evs = "[FeedTo 0, FeedTo 1, Admit 1, Admit 0]"
  have "map_run first_group demo_options demo_work ?evs (map_start demo_options None [3, 4, 5] 0) \<noteq> None"
    by code_simp
  then obtain st where run: "map_run first_group demo_options demo_work ?evs
      (map_start demo_options None [3, 4, 5] 0) = Some st" by blast
  moreover have "map_option running (map_run first_group demo_options demo_work ?evs
      (map_start demo_options None [3, 4, 5] 0)) = Some 2"
    by code_simp
  ultimately have "running st = 2" by simp
  moreover have "int (running st) \<le> max 1 (mo_workers demo_options)"
    using map_bounds_concurrency [OF run] by blast
  ultimately show ?thesis using run by (auto simp: demo_options_def)
qed

end
