(* ===== verification/Go_Float.thy ===== *)
theory Go_Float
  imports Flow_Prelude
begin

text \<open>
  Go's \<open>float64\<close>: IEEE 754 binary64, as far as the program observes it.

  Every finite value is a multiple of the smallest subnormal \<open>2 ^ -1074\<close>; \<open>Fin k\<close> is the
  value \<open>k * 2 ^ -1074\<close>, so comparison and equality of finite values are those of \<open>k\<close>.
  Sums and products are computed exactly on integers and rounded once, to the nearest
  value of 53 significant bits, ties to even, with overflow to an infinity. The sign of a
  zero is not kept: nothing in the program tells the two zeros apart. A Go compiler may
  fuse \<open>x + y * z\<close> on some platforms; the model rounds the product, as amd64 does.
\<close>

datatype float64 = Fin int | PInf | NInf | NaN

section \<open>Bits and rounding\<close>

text \<open>The length of a number in bits, for numbers below \<open>2 ^ 2 ^ k\<close>.\<close>

fun bits_upto :: "nat \<Rightarrow> nat \<Rightarrow> nat" where
  "bits_upto 0 n = (if n = 0 then 0 else 1)"
| "bits_upto (Suc k) n =
     (if n < 2 ^ 2 ^ k then bits_upto k n else 2 ^ k + bits_upto k (n div 2 ^ 2 ^ k))"

definition round_half_even :: "int \<Rightarrow> nat \<Rightarrow> int" where
  "round_half_even p s =
     (let q = p div 2 ^ s; r = p mod 2 ^ s in
      if 2 * r < 2 ^ s then q else if 2 ^ s < 2 * r then q + 1 else if even q then q else q + 1)"

text \<open>\<open>round_float p d\<close> is the float for the exact value \<open>p * 2 ^ - (1074 + d)\<close>: at least the
  last \<open>d\<close> bits go, and as many as leave 53.\<close>

definition round_float :: "int \<Rightarrow> nat \<Rightarrow> float64" where
  "round_float p d =
     (let s = max d (bits_upto 13 (nat \<bar>p\<bar>) - 53);
          k = round_half_even p s * 2 ^ (s - d)
      in if k \<ge> 2 ^ 2098 then PInf else if k \<le> - (2 ^ 2098) then NInf else Fin k)"

fun fadd :: "float64 \<Rightarrow> float64 \<Rightarrow> float64" where
  "fadd (Fin a) (Fin b) = round_float (a + b) 0"
| "fadd NaN _ = NaN"
| "fadd _ NaN = NaN"
| "fadd PInf NInf = NaN"
| "fadd NInf PInf = NaN"
| "fadd PInf _ = PInf"
| "fadd _ PInf = PInf"
| "fadd NInf _ = NInf"
| "fadd _ NInf = NInf"

definition inf_of_sign :: "int \<Rightarrow> float64" where
  "inf_of_sign s = (if 0 < s then PInf else if s < 0 then NInf else NaN)"

fun sign_of :: "float64 \<Rightarrow> int" where
  "sign_of (Fin a) = sgn a"
| "sign_of PInf = 1"
| "sign_of NInf = - 1"
| "sign_of NaN = 0"

fun fmul :: "float64 \<Rightarrow> float64 \<Rightarrow> float64" where
  "fmul (Fin a) (Fin b) = round_float (a * b) 1074"
| "fmul a b = (if a = NaN \<or> b = NaN then NaN else inf_of_sign (sign_of a * sign_of b))"

text \<open>\<open>float64(n)\<close> for an \<open>int\<close>, and the comparisons; every comparison with a NaN is false.\<close>

definition float_of_int :: "int \<Rightarrow> float64" where
  "float_of_int n = round_float (n * 2 ^ 1074) 0"

fun fless :: "float64 \<Rightarrow> float64 \<Rightarrow> bool" where
  "fless (Fin a) (Fin b) = (a < b)"
| "fless NInf (Fin _) = True"
| "fless NInf PInf = True"
| "fless (Fin _) PInf = True"
| "fless _ _ = False"

fun feq :: "float64 \<Rightarrow> float64 \<Rightarrow> bool" where
  "feq NaN _ = False"
| "feq _ NaN = False"
| "feq a b = (a = b)"

fun IsNaN :: "float64 \<Rightarrow> bool" where
  "IsNaN NaN = True"
| "IsNaN _ = False"

text \<open>\<open>math.IsInf(v, 0)\<close>: either infinity.\<close>

fun IsInf :: "float64 \<Rightarrow> bool" where
  "IsInf PInf = True"
| "IsInf NInf = True"
| "IsInf _ = False"

definition finite_float :: "float64 \<Rightarrow> bool" where
  "finite_float x \<longleftrightarrow> \<not> IsNaN x \<and> \<not> IsInf x"

section \<open>Facts on rounding\<close>

lemma finite_float_Fin: "finite_float x \<longleftrightarrow> (\<exists>k. x = Fin k)"
  by (cases x) (auto simp: finite_float_def)

lemma fadd_commute: "fadd x y = fadd y x"
  by (cases x; cases y) (simp_all add: add.commute)

lemma bits_upto_upper: "n < 2 ^ 2 ^ k \<Longrightarrow> n < 2 ^ bits_upto k n"
proof (induction k arbitrary: n)
  case (Suc k)
  show ?case
  proof (cases "n < 2 ^ 2 ^ k")
    case True
    then show ?thesis using Suc.IH by simp
  next
    case False
    let ?b = "2 ^ 2 ^ k :: nat"
    have "?b * ?b = 2 ^ 2 ^ Suc k" by (simp add: power_add [symmetric] mult_2)
    then have "n div ?b < ?b" using Suc.prems by (simp add: less_mult_imp_div_less)
    then have "n div ?b < 2 ^ bits_upto k (n div ?b)" by (rule Suc.IH)
    then have "n < ?b * 2 ^ bits_upto k (n div ?b)"
      by (simp add: div_less_iff_less_mult mult.commute)
    then show ?thesis using False by (simp add: power_add)
  qed
qed auto

lemma bits_upto_lower: "0 < n \<Longrightarrow> n < 2 ^ 2 ^ k \<Longrightarrow> 2 ^ (bits_upto k n - 1) \<le> n \<and> 0 < bits_upto k n"
proof (induction k arbitrary: n)
  case (Suc k)
  show ?case
  proof (cases "n < 2 ^ 2 ^ k")
    case True
    then show ?thesis using Suc by simp
  next
    case False
    let ?b = "2 ^ 2 ^ k :: nat"
    have "?b * ?b = 2 ^ 2 ^ Suc k" by (simp add: power_add [symmetric] mult_2)
    then have "n div ?b < ?b" using Suc.prems by (simp add: less_mult_imp_div_less)
    moreover have "0 < n div ?b" using False by (simp add: div_greater_zero_iff)
    ultimately have IH: "2 ^ (bits_upto k (n div ?b) - 1) \<le> n div ?b" "0 < bits_upto k (n div ?b)"
      using Suc.IH by blast+
    then have "?b * 2 ^ (bits_upto k (n div ?b) - 1) \<le> ?b * (n div ?b)" by simp
    also have "\<dots> \<le> n" by simp
    finally have "2 ^ (2 ^ k + (bits_upto k (n div ?b) - 1)) \<le> n" by (simp only: power_add)
    moreover have "2 ^ k + (bits_upto k (n div ?b) - 1) = 2 ^ k + bits_upto k (n div ?b) - 1"
      using IH(2) by simp
    ultimately show ?thesis using False IH(2) by simp
  qed
qed auto

lemma round_exact: "p mod 2 ^ s = 0 \<Longrightarrow> round_half_even p s * 2 ^ s = p"
  by (auto simp: round_half_even_def Let_def)

lemma round_nonneg: "0 \<le> p \<Longrightarrow> 0 \<le> round_half_even p s"
  by (auto simp: round_half_even_def Let_def pos_imp_zdiv_nonneg_iff)

text \<open>The last part of \<open>round_float\<close>: the check for overflow.\<close>

definition overflow_check :: "int \<Rightarrow> float64" where
  "overflow_check k = (if k \<ge> 2 ^ 2098 then PInf else if k \<le> - (2 ^ 2098) then NInf else Fin k)"

lemma overflow_check_nonneg: "0 \<le> k \<Longrightarrow> overflow_check k = (if k \<ge> 2 ^ 2098 then PInf else Fin k)"
proof -
  assume "0 \<le> k"
  moreover have "- (2 ^ 2098) < (0 :: int)" by (simp only: neg_less_0_iff_less zero_less_power zero_less_numeral)
  ultimately have "\<not> k \<le> - (2 ^ 2098)" by linarith
  then show ?thesis by (simp only: overflow_check_def if_False)
qed

lemma overflow_check_small:
  assumes "\<bar>k\<bar> < 2 ^ 2098"
  shows "overflow_check k = Fin k"
proof -
  have "\<not> M \<le> k \<and> \<not> k \<le> - M" if "\<bar>k\<bar> < M" for M :: int using that by linarith
  from this [OF assms] show ?thesis by (simp only: overflow_check_def if_False)
qed

lemma round_float_check:
  "round_float p d = (let s = max d (bits_upto 13 (nat \<bar>p\<bar>) - 53)
                      in overflow_check (round_half_even p s * 2 ^ (s - d)))"
  by (simp only: round_float_def overflow_check_def Let_def)

lemma round_float_nonneg:
  assumes "0 \<le> p"
  shows "round_float p d = PInf \<or> (\<exists>k \<ge> 0. round_float p d = Fin k)"
proof -
  have "0 \<le> round_half_even p s * 2 ^ t" for s t
    using round_nonneg [OF assms] by (rule mult_nonneg_nonneg) (rule zero_le_power, rule zero_le_numeral)
  then obtain k where "0 \<le> k" "round_float p d = overflow_check k"
    unfolding round_float_check Let_def by blast
  then show ?thesis unfolding overflow_check_nonneg [OF \<open>0 \<le> k\<close>] by (metis (full_types))
qed

text \<open>Whole numbers below \<open>2 ^ 53\<close> are exact.\<close>

lemma round_float_exact:
  assumes "\<bar>n\<bar> < 2 ^ 53"
  shows "round_float (n * 2 ^ 1074) 0 = Fin (n * 2 ^ 1074)"
proof -
  let ?p = "n * 2 ^ 1074 :: int"
  define s where "s = bits_upto 13 (nat \<bar>?p\<bar>) - 53"
  have abs: "nat \<bar>?p\<bar> = nat \<bar>n\<bar> * 2 ^ 1074"
    by (simp only: abs_mult power_abs abs_numeral nat_mult_distrib abs_ge_zero nat_power_eq
        zero_le_numeral nat_numeral)
  have n: "nat \<bar>n\<bar> < 2 ^ 53" using assms by (simp add: nat_less_iff)
  have lt: "nat \<bar>?p\<bar> < 2 ^ 1127"
  proof -
    have "nat \<bar>n\<bar> * 2 ^ 1074 < 2 ^ 53 * 2 ^ 1074"
      using n by (rule mult_strict_right_mono) (rule zero_less_power, rule zero_less_numeral)
    also have "\<dots> = 2 ^ (53 + 1074)" by (rule power_add [symmetric])
    finally show ?thesis unfolding abs by simp
  qed
  have "s \<le> 1074"
  proof (cases "nat \<bar>?p\<bar> = 0")
    case True
    have "bits_upto k 0 = 0" for k by (induction k) auto
    then show ?thesis unfolding s_def True by simp
  next
    case False
    have "(2 :: nat) ^ 1127 \<le> 2 ^ 2 ^ 13" by (rule power_increasing) simp_all
    with lt have "nat \<bar>?p\<bar> < 2 ^ 2 ^ 13" by (rule less_le_trans)
    with False have "2 ^ (bits_upto 13 (nat \<bar>?p\<bar>) - 1) \<le> nat \<bar>?p\<bar>"
      using bits_upto_lower by blast
    with lt have "(2 :: nat) ^ (bits_upto 13 (nat \<bar>?p\<bar>) - 1) < 2 ^ 1127" by (rule order_le_less_trans [rotated])
    then have "bits_upto 13 (nat \<bar>?p\<bar>) - 1 < 1127" by (rule power_less_imp_less_exp [rotated]) simp
    then show ?thesis unfolding s_def by simp
  qed
  have "?p mod 2 ^ s = 0"
    using le_imp_power_dvd [OF \<open>s \<le> 1074\<close>, of "2 :: int"] by (metis dvd_imp_mod_0 dvd_mult)
  then have "round_half_even ?p s * 2 ^ s = ?p" by (rule round_exact)
  then have "round_float ?p 0 = overflow_check ?p"
    unfolding round_float_check Let_def s_def by (simp only: max_0L diff_zero)
  moreover have "overflow_check ?p = Fin ?p"
  proof (rule overflow_check_small)
    have "\<bar>?p\<bar> < 2 ^ 1127" using lt unfolding nat_less_iff [OF abs_ge_zero] by (simp only: of_nat_power of_nat_numeral)
    also have "\<dots> \<le> (2 :: int) ^ 2098" by (rule power_increasing) simp_all
    finally show "\<bar>?p\<bar> < 2 ^ 2098" .
  qed
  ultimately show ?thesis by (rule trans)
qed

end
