(* ===== verification/Classify.thy ===== *)
theory Classify
  imports Flow_Prelude
begin

text \<open>
  Error classes and the default classifier of \<open>src/flow/classify.go\<close>.

  An \<open>ErrorClass\<close> is an \<open>int\<close> with three named values; a classifier of the caller may
  return any other, which is why \<open>valid\<close> exists. \<open>is_data_error\<close> and \<open>http_status\<close>
  are the two \<open>errors.As\<close> walks of the file over the tree of an error value, in the
  order of \<open>errors.As\<close>: the error itself, then what it wraps, from left to right.
  \<open>StatusErr\<close> stands for every error with an \<open>HTTPStatus\<close> method.
\<close>

type_synonym ErrorClass = int

definition Transient :: ErrorClass where "Transient = 0"
definition DataError :: ErrorClass where "DataError = 1"
definition Fatal :: ErrorClass where "Fatal = 2"

lemmas class_defs = Transient_def DataError_def Fatal_def

definition valid_class :: "ErrorClass \<Rightarrow> bool" where
  "valid_class c \<longleftrightarrow> Transient \<le> c \<and> c \<le> Fatal"

definition class_String :: "ErrorClass \<Rightarrow> string" where
  "class_String c =
     (if c = Transient then ''transient''
      else if c = DataError then ''data''
      else if c = Fatal then ''fatal''
      else ''unknown'')"

definition MarshalText :: "ErrorClass \<Rightarrow> string result" where
  "MarshalText c =
     (if c < Transient \<or> Fatal < c then Inl (Errorf ''unknown error class %d'' [FInt c] None)
      else Inr (class_String c))"

text \<open>The receiver is a pointer: \<open>None\<close> is a \<open>nil\<close> destination, otherwise the result is
  the value it points to afterwards.\<close>

definition UnmarshalText :: "ErrorClass option \<Rightarrow> string \<Rightarrow> ErrorClass result" where
  "UnmarshalText dest t =
     (case dest of
        None \<Rightarrow> Inl (ErrorsNew ''error class destination is nil'')
      | Some _ \<Rightarrow>
          if t = ''transient'' then Inr Transient
          else if t = ''data'' then Inr DataError
          else if t = ''fatal'' then Inr Fatal
          else Inl (Errorf ''unknown error class %q'' [FStr t] None))"

definition AsDataError :: "err option \<Rightarrow> err option" where
  "AsDataError e = map_option DataErr e"

fun is_data_error :: "err \<Rightarrow> bool" where
  "is_data_error (DataErr _) = True"
| "is_data_error (Errorf _ _ (Some e)) = is_data_error e"
| "is_data_error (StatusErr _ (Some e)) = is_data_error e"
| "is_data_error (ErrJoin es) = (\<exists>e \<in> set es. is_data_error e)"
| "is_data_error _ = False"

definition IsDataError :: "err option \<Rightarrow> bool" where
  "IsDataError e = (case e of None \<Rightarrow> False | Some d \<Rightarrow> is_data_error d)"

fun http_status :: "err \<Rightarrow> int option" and http_status_list :: "err list \<Rightarrow> int option" where
  "http_status (StatusErr s _) = Some s"
| "http_status (Errorf _ _ (Some e)) = http_status e"
| "http_status (DataErr e) = http_status e"
| "http_status (ErrJoin es) = http_status_list es"
| "http_status _ = None"
| "http_status_list [] = None"
| "http_status_list (e # es) = (case http_status e of Some s \<Rightarrow> Some s | None \<Rightarrow> http_status_list es)"

definition DefaultClassifier :: "err option \<Rightarrow> ErrorClass" where
  "DefaultClassifier err =
     (case err of
        None \<Rightarrow> Fatal
      | Some e \<Rightarrow>
          if is_data_error e then DataError
          else if errors_is Canceled e \<or> errors_is DeadlineExceeded e then Fatal
          else if errors_is ErrBudgetExceeded e then Fatal
          else (case http_status e of
              Some code \<Rightarrow>
                if code = 429 \<or> code = 408 \<or> 500 \<le> code \<and> code < 600 then Transient else Fatal
            | None \<Rightarrow> Fatal))"

section \<open>The tree of an error\<close>

text \<open>\<open>wraps e d\<close>: the error \<open>d\<close> is \<open>e\<close> or is wrapped in it, at any depth.\<close>

inductive wraps :: "err \<Rightarrow> err \<Rightarrow> bool" where
  itself [intro]: "wraps e e"
| errorf [intro]: "wraps e d \<Longrightarrow> wraps (Errorf f as (Some e)) d"
| data [intro]: "wraps e d \<Longrightarrow> wraps (DataErr e) d"
| status [intro]: "wraps e d \<Longrightarrow> wraps (StatusErr s (Some e)) d"
| join [intro]: "e \<in> set es \<Longrightarrow> wraps e d \<Longrightarrow> wraps (ErrJoin es) d"

inductive_cases wraps_joinE: "wraps (ErrJoin es) d"

inductive_simps wraps_simps:
  "wraps (ErrorsNew m) d" "wraps (Errorf f as None) d" "wraps (Errorf f as (Some e)) d"
  "wraps (Sentinel t) d" "wraps (DataErr e) d" "wraps (StatusErr s None) d"
  "wraps (StatusErr s (Some e)) d" "wraps (ErrJoin es) d" "wraps (Foreign m) d"

lemma errors_is_wraps: "errors_is t e \<longleftrightarrow> wraps e (Sentinel t)"
  by (induction t e rule: errors_is.induct) (auto simp: wraps_simps)

lemma is_data_error_wraps: "is_data_error e \<longleftrightarrow> (\<exists>d. wraps e (DataErr d))"
  by (induction e rule: is_data_error.induct) (auto simp: wraps_simps)

lemma http_status_wraps:
  "http_status e = Some s \<Longrightarrow> \<exists>d. wraps e (StatusErr s d)"
  "http_status_list es = Some s \<Longrightarrow> \<exists>e \<in> set es. \<exists>d. wraps e (StatusErr s d)"
  by (induction e and es rule: http_status_http_status_list.induct)
     (auto simp: wraps_simps split: option.splits)

lemma http_status_None:
  "http_status e = None \<Longrightarrow> \<not> wraps e (StatusErr s d)"
  "http_status_list es = None \<Longrightarrow> \<forall>e \<in> set es. \<not> wraps e (StatusErr s d)"
  by (induction e and es rule: http_status_http_status_list.induct)
     (auto simp: wraps_simps split: option.splits)

lemma classify_wrapped:
  "DefaultClassifier (Some (Errorf f as (Some e))) = DefaultClassifier (Some e)"
  by (simp add: DefaultClassifier_def)

section \<open>Properties\<close>

text \<open>The text form of an error class is unambiguous: a class marshals to a text
  exactly when that text unmarshals to the class, so every valid class survives the round
  trip and neither direction accepts anything else.\<close>

theorem error_class_roundtrip:
  "MarshalText c = Inr t \<longleftrightarrow> UnmarshalText (Some d) t = Inr c"
proof
  assume m: "MarshalText c = Inr t"
  then have "0 \<le> c \<and> c \<le> 2" by (auto simp: MarshalText_def class_defs split: if_splits)
  then have "c = 0 \<or> c = 1 \<or> c = 2" by arith
  then show "UnmarshalText (Some d) t = Inr c"
    using m by (auto simp: MarshalText_def UnmarshalText_def class_String_def class_defs)
next
  assume "UnmarshalText (Some d) t = Inr c"
  then show "MarshalText c = Inr t"
    by (auto simp: MarshalText_def UnmarshalText_def class_String_def class_defs split: if_splits)
qed

text \<open>C26. The default classifier retries only what is safe to retry: an error it calls
  transient wraps no data marker, no cancellation, no deadline and no budget refusal, at any
  depth and through any join, and wraps a typed status of 408, 429 or 5xx; and a caller that
  wraps it once more with \<open>%w\<close> does not change the verdict.\<close>

theorem default_classifier_safe:
  assumes "DefaultClassifier (Some e) = Transient"
  shows "\<not> (\<exists>d. wraps e (DataErr d)) \<and> \<not> wraps e (Sentinel Canceled) \<and>
    \<not> wraps e (Sentinel DeadlineExceeded) \<and> \<not> wraps e (Sentinel ErrBudgetExceeded) \<and>
    (\<exists>s d. wraps e (StatusErr s d) \<and> (s = 408 \<or> s = 429 \<or> 500 \<le> s \<and> s < 600)) \<and>
    DefaultClassifier (Some (Errorf f as (Some e))) = Transient"
proof -
  from assms obtain s where s: "http_status e = Some s" "s = 408 \<or> s = 429 \<or> 500 \<le> s \<and> s < 600"
    and no: "\<not> is_data_error e" "\<not> errors_is Canceled e" "\<not> errors_is DeadlineExceeded e"
      "\<not> errors_is ErrBudgetExceeded e"
    by (auto simp: DefaultClassifier_def class_defs split: if_splits option.splits)
  have "DefaultClassifier (Some (Errorf f as (Some e))) = Transient"
    using assms by (simp only: classify_wrapped)
  moreover obtain d where "wraps e (StatusErr s d)" using http_status_wraps(1) [OF s(1)] by blast
  ultimately show ?thesis
    using s(2) no unfolding is_data_error_wraps errors_is_wraps by auto
qed

theorem default_classifier_safe_witness:
  "DefaultClassifier (Some (StatusErr 503 None)) = Transient \<and>
   \<not> wraps (StatusErr 503 None) (Sentinel ErrBudgetExceeded)"
proof -
  have "DefaultClassifier (Some (StatusErr 503 None)) = Transient"
    by (simp add: DefaultClassifier_def)
  from default_classifier_safe [OF this] this show ?thesis by blast
qed

text \<open>A parser's verdict wins: an error is classified as a data error exactly when it
  wraps a data marker at any depth, even one that also wraps a retryable status or a
  cancellation; in particular \<open>AsDataError\<close> makes any error one, and \<open>IsDataError\<close> agrees.\<close>

theorem data_marker_wins:
  "(DefaultClassifier (Some e) = DataError \<longleftrightarrow> (\<exists>d. wraps e (DataErr d))) \<and>
   (IsDataError (Some e) \<longleftrightarrow> (\<exists>d. wraps e (DataErr d))) \<and>
   DefaultClassifier (AsDataError (Some e)) = DataError"
proof -
  have "DefaultClassifier (Some e) = DataError \<longleftrightarrow> is_data_error e" for e
    by (auto simp: DefaultClassifier_def class_defs split: if_splits option.splits)
  then show ?thesis
    by (auto simp: is_data_error_wraps [symmetric] IsDataError_def AsDataError_def)
qed

end
