(* ===== verification/Policy.thy ===== *)
theory Policy
  imports Classify
begin

text \<open>
  How a step executes: \<open>src/flow/policy.go\<close>, the validation of a policy and the two
  functions of the retry loop's delays (\<open>validatePolicy\<close>, \<open>retryDelay\<close> and
  \<open>nextRetryDelay\<close> of \<open>src/flow/run.go\<close>).

  A \<open>time.Duration\<close> is an \<open>int\<close> of nanoseconds in the range of \<open>int64\<close>, and every sum
  or difference of the code is written with \<open>wrap64\<close>. The jitter is the argument
  \<open>int63n\<close> of \<open>retryDelay\<close>: \<open>rand.Int63n\<close> documents a value from 0 up to, and not
  including, its argument. The price of a unit is parametric here: only its absence
  matters to a policy.
\<close>

type_synonym duration = int
type_synonym FailureMode = int

definition second :: duration where "second = 1000000000"
definition minute :: duration where "minute = 60 * second"

definition FailFast :: FailureMode where "FailFast = 0"
definition Quarantine :: FailureMode where "Quarantine = 1"
definition Skip_item :: FailureMode where "Skip_item = 2"

lemmas mode_defs = FailFast_def Quarantine_def Skip_item_def

definition mode_String :: "FailureMode \<Rightarrow> string" where
  "mode_String m =
     (if m = FailFast then ''fail-fast''
      else if m = Quarantine then ''quarantine''
      else if m = Skip_item then ''skip''
      else ''unknown'')"

record backoff_spec =
  Base :: duration
  Cap :: duration

record retry_spec =
  Attempts :: int
  Backoff :: backoff_spec
  Class :: "(err \<Rightarrow> ErrorClass) option"

record 'p resource =
  rs_Name :: string
  rs_Ceiling :: int
  rs_Budget :: int
  rs_UnitUSD :: "'p option"

record 'p policy =
  po_Workers :: int
  Admission :: "'p resource list"
  Retry :: retry_spec
  OnError :: FailureMode

record item_error =
  ie_Step :: string
  ie_Index :: int
  ie_Class :: ErrorClass
  ie_Attempts :: int
  ie_Message :: err

definition withDefaults :: "backoff_spec \<Rightarrow> backoff_spec" where
  "withDefaults b =
     \<lparr>Base = (if Base b \<le> 0 then 2 * second else Base b),
      Cap = (if Cap b \<le> 0 then minute else Cap b)\<rparr>"

section \<open>Validation\<close>

text \<open>The loop over the admission list, with the set of trimmed names seen so far.\<close>

fun duplicate_admission :: "string \<Rightarrow> string set \<Rightarrow> 'p resource list \<Rightarrow> err option" where
  "duplicate_admission step seen [] = None"
| "duplicate_admission step seen (r # rs) =
     (let name = TrimSpace (rs_Name r) in
      if name \<in> seen
      then Some (Errorf ''step %q declares admission resource %q more than once''
                   [FStr step, FStr name] None)
      else duplicate_admission step (insert name seen) rs)"

definition validatePolicy :: "string \<Rightarrow> 'p policy \<Rightarrow> err option" where
  "validatePolicy step p =
     (if Attempts (Retry p) < 0
      then Some (Errorf ''step %q retry attempts must not be negative'' [FStr step] None)
      else if Base (Backoff (Retry p)) < 0 \<or> Cap (Backoff (Retry p)) < 0
      then Some (Errorf ''step %q retry backoff durations must not be negative'' [FStr step] None)
      else if OnError p = FailFast \<or> OnError p = Quarantine \<or> OnError p = Skip_item
      then duplicate_admission step {} (Admission p)
      else Some (Errorf ''step %q has unknown failure mode %d'' [FStr step, FInt (OnError p)] None))"

lemma duplicate_admission_None:
  "duplicate_admission step seen rs = None \<longleftrightarrow>
     distinct (map (\<lambda>r. TrimSpace (rs_Name r)) rs) \<and> seen \<inter> set (map (\<lambda>r. TrimSpace (rs_Name r)) rs) = {}"
  by (induction rs arbitrary: seen) (auto simp: Let_def)

section \<open>The delays of the retry loop\<close>

definition retryDelay :: "(int \<Rightarrow> int) \<Rightarrow> duration \<Rightarrow> duration \<Rightarrow> duration" where
  "retryDelay int63n delay maximum =
     (if maximum \<le> 0 then 0
      else let d0 = (if delay < 0 then 0 else delay);
               d = (if maximum < d0 then maximum else d0);
               jitter = int63n (wrap64 (d div 2 + 1))
           in if wrap64 (maximum - jitter) \<le> d then maximum else wrap64 (d + jitter))"

definition nextRetryDelay :: "duration \<Rightarrow> duration \<Rightarrow> duration" where
  "nextRetryDelay delay maximum =
     (if maximum \<le> 0 then 0
      else if maximum \<le> delay then maximum
      else if delay \<le> 0 then 0
      else if wrap64 (maximum - delay) < delay then maximum
      else wrap64 (delay * 2))"

text \<open>What \<open>rand.Int63n\<close> documents; it panics when its argument is not positive.\<close>

definition int63n_spec :: "(int \<Rightarrow> int) \<Rightarrow> bool" where
  "int63n_spec r \<longleftrightarrow> (\<forall>n. 0 < n \<longrightarrow> 0 \<le> r n \<and> r n < n)"

lemma nextRetryDelay_min:
  assumes "int64_range maximum" and "0 < delay" and "0 < maximum"
  shows "nextRetryDelay delay maximum = min (2 * delay) maximum"
proof -
  have "int64_range (maximum - delay)" if "delay < maximum"
    using assms that by (simp add: int64_range_def)
  moreover have "int64_range (delay * 2)" if "delay \<le> maximum - delay"
    using assms that by (simp add: int64_range_def)
  ultimately show ?thesis using assms by (auto simp: nextRetryDelay_def min_def)
qed

lemma retryDelay_bounds:
  assumes "int63n_spec r" and "int64_range maximum" and "0 < maximum" and "0 < delay"
  shows "min delay maximum \<le> retryDelay r delay maximum \<and> retryDelay r delay maximum \<le> maximum
    \<and> 2 * retryDelay r delay maximum \<le> 3 * delay"
proof -
  let ?d = "min delay maximum"
  define j where "j = r (?d div 2 + 1)"
  have max: "maximum < 2 ^ 63" using assms(2) by (simp add: int64_range_def)
  have "0 < ?d div 2 + 1" using assms(3,4) by (auto simp: min_def)
  then have j: "0 \<le> j" "j \<le> ?d div 2" using assms(1) unfolding int63n_spec_def j_def by fastforce+
  from j(2) have j2: "2 * j \<le> ?d" by linarith
  have d: "0 < ?d" "?d \<le> maximum" "?d \<le> delay" using assms(3,4) by auto
  have "int64_range (?d div 2 + 1)" "int64_range (maximum - j)"
    using d j(1) j2 max unfolding int64_range_def by linarith+
  moreover have "?d < maximum - j \<longrightarrow> int64_range (?d + j)"
    using d j(1) max unfolding int64_range_def by linarith
  ultimately
  have "retryDelay r delay maximum = (if maximum - j \<le> ?d then maximum else ?d + j)"
    using assms(3,4) by (auto simp: retryDelay_def Let_def min_def j_def)
  then show ?thesis using j(1) j2 d by auto
qed

lemma nextRetryDelay_power:
  assumes "int64_range maximum" and "0 < base" and "0 < maximum"
  shows "0 < ((\<lambda>d. nextRetryDelay d maximum) ^^ k) base
    \<and> min (((\<lambda>d. nextRetryDelay d maximum) ^^ k) base) maximum = min (base * 2 ^ k) maximum
    \<and> ((\<lambda>d. nextRetryDelay d maximum) ^^ k) base \<le> base * 2 ^ k"
proof (induction k)
  case 0
  then show ?case using assms(2) by simp
next
  case (Suc k)
  let ?d = "((\<lambda>d. nextRetryDelay d maximum) ^^ k) base"
  have "nextRetryDelay ?d maximum = min (2 * ?d) maximum"
    using nextRetryDelay_min [OF assms(1) _ assms(3)] Suc by blast
  moreover have "min (2 * ?d) maximum = min (2 * (base * 2 ^ k)) maximum"
    using Suc assms(3) by (auto simp: min_def split: if_splits)
  ultimately show ?case using Suc assms(3) by (simp add: mult.left_commute)
qed

lemma withDefaults_positive: "0 < Base (withDefaults b)" "0 < Cap (withDefaults b)"
  by (auto simp: withDefaults_def second_def minute_def)

section \<open>Properties\<close>

text \<open>C25. The backoff of a step is exponential, capped and never overflows: with the
  defaults filled in, the pause before retry \<open>k + 1\<close> is at least the base doubled \<open>k\<close> times
  (or the cap, when that is smaller), at most half as much again, and never more than the
  cap, for every jitter \<open>rand.Int63n\<close> can give and every cap of 64 bits.\<close>

theorem backoff_schedule:
  assumes "int63n_spec r" and "int64_range (Cap b)" and "b' = withDefaults b"
    and "d = ((\<lambda>d. nextRetryDelay d (Cap b')) ^^ k) (Base b')"
  shows "min (Base b' * 2 ^ k) (Cap b') \<le> retryDelay r d (Cap b')
    \<and> retryDelay r d (Cap b') \<le> Cap b'
    \<and> 2 * retryDelay r d (Cap b') \<le> 3 * (Base b' * 2 ^ k)"
proof -
  have cap: "int64_range (Cap b')" "0 < Cap b'" and base: "0 < Base b'"
    using assms(2,3) withDefaults_positive [of b]
    by (auto simp: withDefaults_def int64_range_def minute_def second_def)
  from nextRetryDelay_power [OF cap(1) base cap(2), of k]
  have d: "0 < d" "min d (Cap b') = min (Base b' * 2 ^ k) (Cap b')" "d \<le> Base b' * 2 ^ k"
    by (simp_all add: assms(4))
  from retryDelay_bounds [OF assms(1) cap d(1)] d(2,3) show ?thesis by linarith
qed

theorem backoff_schedule_witness:
  "retryDelay (\<lambda>n. n - 1) (((\<lambda>d. nextRetryDelay d minute) ^^ 2) (2 * second)) minute = 12 * second
    \<and> 12 * second \<le> minute"
proof -
  have spec: "int63n_spec (\<lambda>n. n - 1)" by (simp add: int63n_spec_def)
  have cap: "int64_range (Cap \<lparr>Base = 0, Cap = 0\<rparr>)" by (simp add: int64_range_def)
  let ?b = "withDefaults \<lparr>Base = 0, Cap = 0\<rparr>"
  have b: "Base ?b = 2 * second" "Cap ?b = minute" by (simp_all add: withDefaults_def)
  have run: "retryDelay (\<lambda>n. n - 1) (((\<lambda>d. nextRetryDelay d minute) ^^ 2) (2 * second)) minute = 12 * second"
    by code_simp
  from backoff_schedule [OF spec cap refl refl, of 2] run show ?thesis
    unfolding b by simp
qed

end
