(* ===== verification/Reservation.thy ===== *)
theory Reservation
  imports Flow_Prelude
begin

text \<open>
  Reservations and the state they charge, \<open>src/execution/reservation.go\<close> and the
  struct types of \<open>budget.go\<close> and \<open>rate.go\<close>.

  Budgets and token buckets are shared Go objects behind pointers: they live in the
  store \<open>lworld\<close> under an address, and an address that is not allocated is a nil
  pointer. A reservation holds closures; the model keeps what each closure does, a
  refund of units to one address, or the group of reservations a chain made. The
  mutable \<open>finished\<close> flag is a field that \<open>Commit\<close> and \<open>Rollback\<close> set.
\<close>

type_synonym addr = nat

record budget =
  b_limit :: int
  b_remaining :: int

record token_bucket =
  tokens :: nat
  burst :: nat
  closed :: bool
  done_closed :: bool

text \<open>
  \<open>custom\<close> is the state of limiters supplied by the caller, \<open>lctx\<close> the context the
  admission call runs under.
\<close>

record 'c lworld =
  budgets :: "addr \<rightharpoonup> budget"
  buckets :: "addr \<rightharpoonup> token_bucket"
  lctx :: ctx
  custom :: 'c

datatype charge = BudgetCharge addr int | BucketCharge addr nat

datatype reservation = Reservation (finished: bool) (body: rbody)
  and rbody = Refund charge | Group "reservation list"

section \<open>Refunds\<close>

text \<open>The refund loop of a token bucket: one non-blocking send per unit, and the first
  send that finds the channel full ends the loop.\<close>

fun refund :: "nat \<Rightarrow> token_bucket \<Rightarrow> token_bucket" where
  "refund 0 b = b"
| "refund (Suc n) b =
     (if tokens b < burst b then refund n (b\<lparr>tokens := Suc (tokens b)\<rparr>) else b)"

fun apply_refund :: "charge \<Rightarrow> 'c lworld \<Rightarrow> 'c lworld" where
  "apply_refund (BudgetCharge a u) w =
     (case budgets w a of
        None \<Rightarrow> w
      | Some b \<Rightarrow> w\<lparr>budgets := (budgets w)(a \<mapsto> b\<lparr>b_remaining := b_remaining b + u\<rparr>)\<rparr>)"
| "apply_refund (BucketCharge a u) w =
     (case buckets w a of
        None \<Rightarrow> w
      | Some b \<Rightarrow> w\<lparr>buckets := (buckets w)(a \<mapsto> refund u b)\<rparr>)"

section \<open>Commit and Rollback\<close>

fun Commit :: "reservation \<Rightarrow> reservation" where
  "Commit (Reservation fin b) =
     (if fin then Reservation fin b
      else case b of
        Refund c \<Rightarrow> Reservation True (Refund c)
      | Group rs \<Rightarrow> Reservation True (Group (map Commit rs)))"

text \<open>\<open>rollback_all\<close> is the \<open>rollback\<close> closure of a chain and of an admission: it
  rolls the reservations back from the last to the first.\<close>

fun Rollback :: "reservation \<Rightarrow> 'c lworld \<Rightarrow> reservation \<times> 'c lworld"
  and rollback_all :: "reservation list \<Rightarrow> 'c lworld \<Rightarrow> reservation list \<times> 'c lworld" where
  "Rollback (Reservation True b) w = (Reservation True b, w)"
| "Rollback (Reservation False (Refund c)) w = (Reservation True (Refund c), apply_refund c w)"
| "Rollback (Reservation False (Group rs)) w =
     (case rollback_all rs w of (rs', w') \<Rightarrow> (Reservation True (Group rs'), w'))"
| "rollback_all [] w = ([], w)"
| "rollback_all (r # rs) w =
     (case rollback_all rs w of (rs', w1) \<Rightarrow>
        case Rollback r w1 of (r', w2) \<Rightarrow> (r' # rs', w2))"

definition newReservation :: "charge \<Rightarrow> reservation" where
  "newReservation c = Reservation False (Refund c)"

definition newReservationWithCommit :: "reservation list \<Rightarrow> reservation" where
  "newReservationWithCommit rs = Reservation False (Group rs)"

section \<open>Facts\<close>

lemma refund_eq: "refund n b = b\<lparr>tokens := max (tokens b) (min (burst b) (tokens b + n))\<rparr>"
  by (induction n b rule: refund.induct) (auto simp: max_def min_def)

lemma refund_burst [simp]: "burst (refund n b) = burst b"
  by (simp add: refund_eq)

lemma finished_Commit [simp]: "finished (Commit r)"
  by (cases r) (auto split: rbody.splits)

lemma finished_Rollback [simp]: "finished (fst (Rollback r w))"
  by (cases "(r, w)" rule: Rollback.cases) (auto split: prod.splits)

lemma Rollback_finished [simp]: "finished r \<Longrightarrow> Rollback r w = (r, w)"
  by (cases r) auto

lemma Commit_finished [simp]: "finished r \<Longrightarrow> Commit r = r"
  by (cases r) auto

lemma snd_Rollback_simps:
  "snd (Rollback (Reservation True b) w) = w"
  "snd (Rollback (Reservation False (Refund c)) w) = apply_refund c w"
  "snd (Rollback (Reservation False (Group rs)) w) = snd (rollback_all rs w)"
  "snd (rollback_all [] w) = w"
  "snd (rollback_all (r # rs) w) = snd (Rollback r (snd (rollback_all rs w)))"
  by (simp_all split: prod.splits)

lemma apply_refund_frame [limiter_simps]:
  "lctx (apply_refund c w) = lctx w" "custom (apply_refund c w) = custom w"
  by (cases c; auto split: option.splits)+

lemma rollback_frame [limiter_simps]:
  "lctx (snd (Rollback r w)) = lctx w \<and> custom (snd (Rollback r w)) = custom w"
  "lctx (snd (rollback_all rs w)) = lctx w \<and> custom (snd (rollback_all rs w)) = custom w"
  by (induction r w and rs w rule: Rollback_rollback_all.induct)
     (auto simp: limiter_simps split: prod.splits)

text \<open>What a rollback does to the budgets depends on the budgets alone.\<close>

lemma apply_refund_budgets_cong:
  "budgets w = budgets v \<Longrightarrow> budgets (apply_refund c w) = budgets (apply_refund c v)"
  by (cases c) (auto split: option.splits)

lemma rollback_budgets_cong:
  "budgets w = budgets v \<Longrightarrow> budgets (snd (Rollback r w)) = budgets (snd (Rollback r v))"
  "budgets w = budgets v \<Longrightarrow> budgets (snd (rollback_all rs w)) = budgets (snd (rollback_all rs v))"
proof (induction r w and rs w arbitrary: v and v rule: Rollback_rollback_all.induct)
  case (2 c w)
  then show ?case unfolding snd_Rollback_simps by (rule apply_refund_budgets_cong)
next
  case (3 rs w)
  then show ?case unfolding snd_Rollback_simps by blast
next
  case (5 r rs w)
  from "5.IH"(1) [OF "5.prems"] show ?case
    unfolding snd_Rollback_simps
    by (rule "5.IH"(2) [OF surjective_pairing [symmetric]])
qed simp_all

lemma rollback_all_append:
  "snd (rollback_all (xs @ ys) w) = snd (rollback_all xs (snd (rollback_all ys w)))"
  by (induction xs arbitrary: w) (simp_all only: append_Nil append_Cons snd_Rollback_simps)

lemma rollback_all_single [simp]: "snd (rollback_all [r] w) = snd (Rollback r w)"
  by (simp split: prod.splits)

end
