(* ===== verification/Budget.thy ===== *)
theory Budget
  imports Reservation
begin

text \<open>
  The finite budget of \<open>src/execution/budget.go\<close>.

  Every method of \<open>Budget\<close> holds the mutex while it reads or writes, so one call is
  one step. The first part has the methods; the second runs any number of callers
  against one budget as a step relation \<open>bsys_step\<close> and shows that no interleaving
  of reservations, commits and rollbacks spends more than the limit.
\<close>

section \<open>Operations\<close>

definition NewBudget :: "int \<Rightarrow> budget result" where
  "NewBudget units =
     (if units < 0 then Inl (Errorf ''budget total must not be negative'' [] None)
      else Inr \<lparr>b_limit = units, b_remaining = units\<rparr>)"

definition budget_exceeded :: "int \<Rightarrow> budget \<Rightarrow> err" where
  "budget_exceeded u b =
     Errorf ''%w: requested %d, remaining %d, limit %d''
       [FInt u, FInt (b_remaining b), FInt (b_limit b)] (Some (Sentinel ErrBudgetExceeded))"

definition budget_Reserve :: "addr \<Rightarrow> int \<Rightarrow> 'c lworld \<Rightarrow> reservation result \<times> 'c lworld" where
  "budget_Reserve a units w =
     (case budgets w a of
        None \<Rightarrow> (Inl (Errorf ''budget is nil'' [] None), w)
      | Some b \<Rightarrow>
          (case lctx w of
             Some e \<Rightarrow> (Inl e, w)
           | None \<Rightarrow>
               if units < 1 then (Inl (Errorf ''resource units must be positive'' [] None), w)
               else if units > b_remaining b then (Inl (budget_exceeded units b), w)
               else (Inr (newReservation (BudgetCharge a units)),
                     w\<lparr>budgets := (budgets w)(a \<mapsto> b\<lparr>b_remaining := b_remaining b - units\<rparr>)\<rparr>)))"

definition budget_Wait :: "addr \<Rightarrow> int \<Rightarrow> 'c lworld \<Rightarrow> err option \<times> 'c lworld" where
  "budget_Wait a units w =
     (case budget_Reserve a units w of
        (Inl e, w') \<Rightarrow> (Some e, w')
      | (Inr r, w') \<Rightarrow> (let _ = Commit r in (None, w')))"

text \<open>The readers take the pointer, \<open>None\<close> for nil.\<close>

record budget_snapshot =
  bs_limit :: int
  bs_spent :: int
  bs_remaining :: int

definition Limit :: "budget option \<Rightarrow> int" where
  "Limit b = (case b of None \<Rightarrow> 0 | Some b \<Rightarrow> b_limit b)"

definition Remaining :: "budget option \<Rightarrow> int" where
  "Remaining b = (case b of None \<Rightarrow> 0 | Some b \<Rightarrow> b_remaining b)"

definition Spent :: "budget option \<Rightarrow> int" where
  "Spent b = (case b of None \<Rightarrow> 0 | Some b \<Rightarrow> b_limit b - b_remaining b)"

definition budget_Snapshot :: "budget option \<Rightarrow> budget_snapshot" where
  "budget_Snapshot b =
     (case b of
        None \<Rightarrow> \<lparr>bs_limit = 0, bs_spent = 0, bs_remaining = 0\<rparr>
      | Some b \<Rightarrow> \<lparr>bs_limit = b_limit b, bs_spent = b_limit b - b_remaining b,
                   bs_remaining = b_remaining b\<rparr>)"

section \<open>One call\<close>

definition budget_ok :: "budget \<Rightarrow> bool" where
  "budget_ok b \<longleftrightarrow> 0 \<le> b_remaining b \<and> b_remaining b \<le> b_limit b"

lemma NewBudget_ok: "NewBudget n = Inr b \<Longrightarrow> budget_ok b \<and> b_limit b = n \<and> b_remaining b = n"
  by (auto simp: NewBudget_def budget_ok_def split: if_splits)

lemma errors_is_budget_exceeded [simp]: "errors_is ErrBudgetExceeded (budget_exceeded u b)"
  by (simp add: budget_exceeded_def)

lemma budget_Reserve_Inl: "budget_Reserve a u w = (Inl e, w') \<Longrightarrow> w' = w"
  by (auto simp: budget_Reserve_def split: option.splits if_splits)

lemma budget_Reserve_Inr:
  assumes "budget_Reserve a u w = (Inr r, w')"
  obtains b where "budgets w a = Some b" and "lctx w = None" and "1 \<le> u" and "u \<le> b_remaining b"
    and "r = newReservation (BudgetCharge a u)"
    and "w' = w\<lparr>budgets := (budgets w)(a \<mapsto> b\<lparr>b_remaining := b_remaining b - u\<rparr>)\<rparr>"
  using assms by (auto simp: budget_Reserve_def split: option.splits if_splits)

text \<open>A rollback right after the reservation restores the whole store.\<close>

lemma budget_Reserve_Rollback:
  assumes "budget_Reserve a u w = (Inr r, w')"
  shows "snd (Rollback r w') = w"
  using assms
  by (elim budget_Reserve_Inr) (simp add: newReservation_def map_upd_triv)

section \<open>Any number of callers\<close>

text \<open>
  \<open>resvs\<close> are the reservations handed out so far and \<open>held\<close> the units each of them
  still holds: a rollback that runs (the reservation was not finished) gives them back.
\<close>

record 'c bsys =
  bworld :: "'c lworld"
  resvs :: "reservation list"
  held :: "int list"

inductive bsys_step :: "addr \<Rightarrow> 'c bsys \<Rightarrow> 'c bsys \<Rightarrow> bool" for a where
  reserve_ok: "budget_Reserve a u (bworld s) = (Inr r, w) \<Longrightarrow>
     bsys_step a s (s\<lparr>bworld := w, resvs := resvs s @ [r], held := held s @ [u]\<rparr>)"
| reserve_refused: "budget_Reserve a u (bworld s) = (Inl e, w) \<Longrightarrow>
     bsys_step a s (s\<lparr>bworld := w\<rparr>)"
| commit: "i < length (resvs s) \<Longrightarrow>
     bsys_step a s (s\<lparr>resvs := (resvs s)[i := Commit (resvs s ! i)]\<rparr>)"
| rollback: "i < length (resvs s) \<Longrightarrow> Rollback (resvs s ! i) (bworld s) = (r, w) \<Longrightarrow>
     bsys_step a s (s\<lparr>bworld := w, resvs := (resvs s)[i := r],
       held := (if finished (resvs s ! i) then held s else (held s)[i := 0])\<rparr>)"
| recontext: "bsys_step a s (s\<lparr>bworld := (bworld s)\<lparr>lctx := c\<rparr>\<rparr>)"

definition bsys_init :: "addr \<Rightarrow> budget \<Rightarrow> 'c lworld \<Rightarrow> 'c bsys" where
  "bsys_init a b w = \<lparr>bworld = w\<lparr>budgets := (budgets w)(a \<mapsto> b)\<rparr>, resvs = [], held = []\<rparr>"

definition bsys_inv :: "addr \<Rightarrow> int \<Rightarrow> 'c bsys \<Rightarrow> bool" where
  "bsys_inv a l s \<longleftrightarrow>
     (\<exists>b. budgets (bworld s) a = Some b \<and> b_limit b = l \<and> 0 \<le> b_remaining b
          \<and> b_remaining b = l - sum_list (held s))
     \<and> length (held s) = length (resvs s)
     \<and> (\<forall>u \<in> set (held s). 0 \<le> u)
     \<and> (\<forall>i < length (resvs s). \<not> finished (resvs s ! i) \<longrightarrow>
            resvs s ! i = newReservation (BudgetCharge a (held s ! i)))"

lemma bsys_inv_init:
  "NewBudget l = Inr b \<Longrightarrow> bsys_inv a l (bsys_init a b w)"
  by (auto simp: bsys_inv_def bsys_init_def dest: NewBudget_ok) (auto simp: NewBudget_def split: if_splits)

lemma bsys_rollback_inv:
  assumes inv: "bsys_inv a l s" and i: "i < length (resvs s)"
    and open_i: "\<not> finished (resvs s ! i)" and rb: "Rollback (resvs s ! i) (bworld s) = (r, w)"
  shows "bsys_inv a l (s\<lparr>bworld := w, resvs := (resvs s)[i := r], held := (held s)[i := 0]\<rparr>)"
proof -
  from inv obtain b where b: "budgets (bworld s) a = Some b" "b_limit b = l"
      "b_remaining b = l - sum_list (held s)" "0 \<le> b_remaining b"
    and len: "length (held s) = length (resvs s)" and pos: "\<forall>u \<in> set (held s). 0 \<le> u"
    and shape: "\<forall>j < length (resvs s). \<not> finished (resvs s ! j) \<longrightarrow>
            resvs s ! j = newReservation (BudgetCharge a (held s ! j))"
    by (auto simp: bsys_inv_def)
  from shape i open_i have ri: "resvs s ! i = Reservation False (Refund (BudgetCharge a (held s ! i)))"
    by (simp add: newReservation_def)
  have w: "budgets w a = Some (b\<lparr>b_remaining := b_remaining b + held s ! i\<rparr>)" "finished r"
    using rb b(1) unfolding ri by auto
  have "0 \<le> held s ! i" using pos i len by simp
  moreover have "sum_list ((held s)[i := 0]) = sum_list (held s) - held s ! i"
    using i len by (simp add: sum_list_update_int)
  moreover have "\<forall>u \<in> set ((held s)[i := 0]). 0 \<le> u"
    using pos set_update_subset_insert [of "held s" i 0] by auto
  ultimately show ?thesis
    using b w len shape i by (auto simp: bsys_inv_def nth_list_update)
qed

lemma bsys_step_inv: "bsys_step a s t \<Longrightarrow> bsys_inv a l s \<Longrightarrow> bsys_inv a l t"
proof (induction rule: bsys_step.induct)
  case (reserve_ok u s r w)
  then show ?case
    by (elim budget_Reserve_Inr) (auto simp: bsys_inv_def nth_append newReservation_def less_Suc_eq)
next
  case (reserve_refused u s e w)
  then show ?case by (auto dest: budget_Reserve_Inl)
next
  case (commit i s)
  then show ?case by (auto simp: bsys_inv_def nth_list_update)
next
  case (rollback i s r w)
  then show ?case
    by (cases "finished (resvs s ! i)") (auto intro: bsys_rollback_inv)
next
  case (recontext s c)
  then show ?case by (simp add: bsys_inv_def)
qed

lemma bsys_reach_inv:
  "(bsys_step a)\<^sup>*\<^sup>* s t \<Longrightarrow> bsys_inv a l s \<Longrightarrow> bsys_inv a l t"
  by (induction rule: rtranclp_induct) (auto intro: bsys_step_inv)

lemma bsys_inv_spent:
  assumes "bsys_inv a l s"
  shows "Spent (budgets (bworld s) a) = sum_list (held s)" "Limit (budgets (bworld s) a) = l"
    "0 \<le> Spent (budgets (bworld s) a)" "Spent (budgets (bworld s) a) \<le> l"
proof -
  from assms obtain b where b: "budgets (bworld s) a = Some b" "b_limit b = l"
      "b_remaining b = l - sum_list (held s)" "0 \<le> b_remaining b"
    and pos: "\<forall>u \<in> set (held s). 0 \<le> u"
    by (auto simp: bsys_inv_def)
  show "Spent (budgets (bworld s) a) = sum_list (held s)" "Limit (budgets (bworld s) a) = l"
    "Spent (budgets (bworld s) a) \<le> l"
    using b by (simp_all add: Spent_def Limit_def)
  with pos show "0 \<le> Spent (budgets (bworld s) a)" by (simp add: sum_list_nonneg)
qed

section \<open>Properties\<close>

text \<open>C1. However many callers interleave \<open>Reserve\<close>, \<open>Commit\<close> and \<open>Rollback\<close> on one
  budget, the spent units are exactly the units the reservations that were not rolled
  back hold, never negative and never above the limit the budget was made with.\<close>

theorem budget_never_overspent:
  assumes "NewBudget l = Inr b" and "(bsys_step a)\<^sup>*\<^sup>* (bsys_init a b w) s"
  shows "Limit (budgets (bworld s) a) = l
    \<and> Spent (budgets (bworld s) a) = sum_list (held s)
    \<and> 0 \<le> Spent (budgets (bworld s) a) \<and> Spent (budgets (bworld s) a) \<le> l
    \<and> Remaining (budgets (bworld s) a) = l - Spent (budgets (bworld s) a)"
proof -
  have inv: "bsys_inv a l s"
    using bsys_reach_inv [OF assms(2)] bsys_inv_init [OF assms(1)] by blast
  then have "Remaining (budgets (bworld s) a) = l - Spent (budgets (bworld s) a)"
    by (auto simp: bsys_inv_def Remaining_def Spent_def)
  with bsys_inv_spent [OF inv] show ?thesis by simp
qed

definition sample_world :: "unit lworld" where
  "sample_world = \<lparr>budgets = Map.empty, buckets = Map.empty, lctx = None, custom = ()\<rparr>"

definition sample_budget :: budget where
  "sample_budget = \<lparr>b_limit = 3, b_remaining = 3\<rparr>"

lemma sample_bsys_step:
  "bsys_step 0 (bsys_init 0 sample_budget sample_world)
     \<lparr>bworld = snd (budget_Reserve 0 2 (bworld (bsys_init 0 sample_budget sample_world))),
      resvs = [newReservation (BudgetCharge 0 2)], held = [2]\<rparr>"
  using reserve_ok [of 0 2 "bsys_init 0 sample_budget sample_world"]
  by (simp add: bsys_init_def sample_budget_def sample_world_def budget_Reserve_def)

theorem budget_never_overspent_witness:
  "NewBudget 3 = Inr sample_budget \<and>
   Spent (budgets (snd (budget_Reserve 0 2 (bworld (bsys_init 0 sample_budget sample_world)))) 0) = 2"
proof -
  have new: "NewBudget 3 = Inr sample_budget" by (simp add: NewBudget_def sample_budget_def)
  from budget_never_overspent [OF new r_into_rtranclp [of "bsys_step 0", OF sample_bsys_step]] new
  show ?thesis by simp
qed

end
