(* ===== verification/Report.thy ===== *)
theory Report
  imports Go_Float Policy Budget "HOL-Library.AList"
begin

text \<open>
  Usage meters and execution reports of \<open>src/flow/report.go\<close>.

  A Go map is the association list of its entries in the order a range over it visits
  them, which is any order; \<open>lookup0\<close> is the indexing that yields the zero value for a
  missing key. A \<open>nil\<close> map is the empty list: reading one is reading an empty map, and the
  code makes a map before it writes to a \<open>nil\<close> one. The counters are Go \<open>int\<close>s that count
  items and calls of one process and stay far from overflow, so they are unbounded here.
\<close>

type_synonym 'v gomap = "(string \<times> 'v) list"
type_synonym meters = "float64 gomap"

definition lookup0 :: "'v \<Rightarrow> 'v gomap \<Rightarrow> string \<Rightarrow> 'v" where
  "lookup0 z m k = (case map_of m k of None \<Rightarrow> z | Some v \<Rightarrow> v)"

definition go_map :: "'v gomap \<Rightarrow> bool" where
  "go_map m \<longleftrightarrow> distinct (map fst m)"

section \<open>Meters\<close>

fun Meters_Add :: "meters \<Rightarrow> meters \<Rightarrow> meters" where
  "Meters_Add ms [] = ms"
| "Meters_Add ms ((name, v) # other) =
     Meters_Add (AList.update name (fadd (lookup0 (Fin 0) ms name) v) ms) other"

fun check_meters :: "meters \<Rightarrow> meters \<Rightarrow> err option" where
  "check_meters ms [] = None"
| "check_meters ms ((name, v) # other) =
     (if IsNaN v \<or> IsInf v then Some (Errorf ''meter %q is not finite'' [FStr name] None)
      else let combined = fadd (lookup0 (Fin 0) ms name) v in
        if IsNaN combined \<or> IsInf combined
        then Some (Errorf ''meter %q total is not finite'' [FStr name] None)
        else check_meters ms other)"

definition AddChecked :: "meters \<Rightarrow> meters \<Rightarrow> err option \<times> meters" where
  "AddChecked ms other =
     (case check_meters ms other of
        Some e \<Rightarrow> (Some e, ms)
      | None \<Rightarrow> (None, Meters_Add ms other))"

section \<open>Step reports\<close>

record StepReport =
  Items :: int
  Hits :: int
  Misses :: int
  Stored :: int
  WorkCalls :: int
  StartedSequences :: int
  Retries :: int
  Quarantined :: int
  Skipped :: int
  RetriesByClass :: "int gomap"
  Spend :: "budget_snapshot gomap"
  Meters :: meters

definition zero_report :: StepReport where
  "zero_report = \<lparr>Items = 0, Hits = 0, Misses = 0, Stored = 0, WorkCalls = 0, StartedSequences = 0,
     Retries = 0, Quarantined = 0, Skipped = 0, RetriesByClass = [], Spend = [], Meters = []\<rparr>"

fun add_counts :: "int gomap \<Rightarrow> int gomap \<Rightarrow> int gomap" where
  "add_counts m [] = m"
| "add_counts m ((k, n) # other) = add_counts (AList.update k (lookup0 0 m k + n) m) other"

fun overwrite :: "'v gomap \<Rightarrow> 'v gomap \<Rightarrow> 'v gomap" where
  "overwrite m [] = m"
| "overwrite m ((k, v) # other) = overwrite (AList.update k v m) other"

definition step_merge :: "StepReport \<Rightarrow> StepReport \<Rightarrow> StepReport" where
  "step_merge r other =
     \<lparr>Items = Items r + Items other, Hits = Hits r + Hits other, Misses = Misses r + Misses other,
      Stored = Stored r + Stored other, WorkCalls = WorkCalls r + WorkCalls other,
      StartedSequences = StartedSequences r + StartedSequences other,
      Retries = Retries r + Retries other, Quarantined = Quarantined r + Quarantined other,
      Skipped = Skipped r + Skipped other,
      RetriesByClass = add_counts (RetriesByClass r) (RetriesByClass other),
      Spend = overwrite (Spend r) (Spend other),
      Meters = (if Meters other \<noteq> [] then Meters_Add (Meters r) (Meters other) else Meters r)\<rparr>"

text \<open>A report is one step report per step name.\<close>

type_synonym report = "StepReport gomap"

definition Step_of :: "report \<Rightarrow> string \<Rightarrow> StepReport" where
  "Step_of r name = lookup0 zero_report r name"

fun report_merge :: "report \<Rightarrow> report \<Rightarrow> report" where
  "report_merge r [] = r"
| "report_merge r ((name, st) # other) =
     report_merge (AList.update name (step_merge (Step_of r name) st) r) other"

definition step_Clone :: "StepReport \<Rightarrow> StepReport" where
  "step_Clone r =
     r\<lparr>RetriesByClass := overwrite [] (RetriesByClass r), Spend := overwrite [] (Spend r),
       Meters := Meters_Add [] (Meters r)\<rparr>"

fun clone_steps :: "report \<Rightarrow> report \<Rightarrow> report" where
  "clone_steps cloned [] = cloned"
| "clone_steps cloned ((name, st) # r) = clone_steps (AList.update name (step_Clone st) cloned) r"

definition report_Clone :: "report \<Rightarrow> report" where
  "report_Clone r = clone_steps [] r"

section \<open>Reading a map after a loop over another\<close>

lemma lookup0_Nil [report_simps]: "lookup0 z [] k = z"
  by (simp add: lookup0_def)

lemma lookup0_update [report_simps]:
  "lookup0 z (AList.update k v m) k' = (if k' = k then v else lookup0 z m k')"
  by (simp add: lookup0_def update_conv')

lemma lookup0_Cons [report_simps]:
  "lookup0 z ((a, v) # m) k = (if k = a then v else lookup0 z m k)"
  by (simp add: lookup0_def)

lemma lookup0_fresh: "k \<notin> set (map fst m) \<Longrightarrow> lookup0 z m k = z"
  by (simp add: lookup0_def map_of_eq_None_iff [THEN iffD2])

lemma map_of_fresh: "k \<notin> set (map fst m) \<Longrightarrow> map_of m k = None"
  by (simp add: map_of_eq_None_iff)

lemma Meters_Add_lookup:
  "go_map other \<Longrightarrow> map_of (Meters_Add ms other) k =
     (case map_of other k of None \<Rightarrow> map_of ms k | Some v \<Rightarrow> Some (fadd (lookup0 (Fin 0) ms k) v))"
  by (induction ms other rule: Meters_Add.induct)
     (auto simp: go_map_def update_conv' report_simps map_of_fresh split: option.splits)

lemma overwrite_lookup:
  "go_map other \<Longrightarrow> map_of (overwrite m other) k =
     (case map_of other k of None \<Rightarrow> map_of m k | Some v \<Rightarrow> Some v)"
  by (induction m other rule: overwrite.induct)
     (auto simp: go_map_def update_conv' map_of_fresh split: option.splits)

lemma add_counts_lookup:
  "go_map other \<Longrightarrow> lookup0 0 (add_counts m other) k = lookup0 0 m k + lookup0 0 other k"
  by (induction m other rule: add_counts.induct)
     (auto simp: go_map_def report_simps lookup0_fresh)

lemma report_merge_lookup:
  "go_map other \<Longrightarrow> map_of (report_merge r other) k =
     (case map_of other k of None \<Rightarrow> map_of r k | Some v \<Rightarrow> Some (step_merge (Step_of r k) v))"
  by (induction r other rule: report_merge.induct)
     (auto simp: go_map_def update_conv' Step_of_def report_simps map_of_fresh split: option.splits)

lemma clone_steps_lookup:
  "go_map r \<Longrightarrow> map_of (clone_steps cl r) k =
     (case map_of r k of None \<Rightarrow> map_of cl k | Some v \<Rightarrow> Some (step_Clone v))"
  by (induction cl r rule: clone_steps.induct)
     (auto simp: go_map_def update_conv' map_of_fresh split: option.splits)

text \<open>The loops keep the keys of a map distinct.\<close>

lemma go_map_update: "go_map m \<Longrightarrow> go_map (AList.update k v m)"
  by (simp add: go_map_def distinct_update)

lemma go_map_loops:
  "go_map ms \<Longrightarrow> go_map (Meters_Add ms other)"
  "go_map m \<Longrightarrow> go_map (overwrite m vs)"
  "go_map c \<Longrightarrow> go_map (add_counts c cs)"
  "go_map r \<Longrightarrow> go_map (report_merge r rs)"
  "go_map r \<Longrightarrow> go_map (clone_steps r rs)"
proof -
  show "go_map ms \<Longrightarrow> go_map (Meters_Add ms other)"
    by (induction ms other rule: Meters_Add.induct) (simp_all add: go_map_update)
  show "go_map m \<Longrightarrow> go_map (overwrite m vs)"
    by (induction m vs rule: overwrite.induct) (simp_all add: go_map_update)
  show "go_map c \<Longrightarrow> go_map (add_counts c cs)"
    by (induction c cs rule: add_counts.induct) (simp_all add: go_map_update)
  show "go_map r \<Longrightarrow> go_map (report_merge r rs)"
    by (induction r rs rule: report_merge.induct) (simp_all add: go_map_update)
  show "go_map r \<Longrightarrow> go_map (clone_steps r rs)"
    by (induction r rs rule: clone_steps.induct) (simp_all add: go_map_update)
qed

lemma check_meters_None:
  "check_meters ms other = None \<longleftrightarrow>
     (\<forall>(k, v) \<in> set other. finite_float v \<and> finite_float (fadd (lookup0 (Fin 0) ms k) v))"
  by (induction ms other rule: check_meters.induct) (auto simp: finite_float_def Let_def split: if_splits)

section \<open>Properties\<close>

text \<open>C27. \<open>AddChecked\<close> is all or nothing: when it refuses, the meters are unchanged and
  some new value or some new total is not finite; when it accepts, every meter that had a
  finite value or gets a new one is finite, and each one is the old value plus the new.\<close>

theorem meters_stay_finite:
  assumes "go_map other" and "\<forall>k v. map_of ms k = Some v \<longrightarrow> finite_float v"
    and "AddChecked ms other = (e, ms')"
  shows "(\<forall>k v. map_of ms' k = Some v \<longrightarrow> finite_float v) \<and>
    (if e = None
     then (\<forall>k. map_of ms' k = (case map_of other k of None \<Rightarrow> map_of ms k
                                | Some v \<Rightarrow> Some (fadd (lookup0 (Fin 0) ms k) v)))
     else ms' = ms \<and> (\<exists>(k, v) \<in> set other.
            \<not> finite_float v \<or> \<not> finite_float (fadd (lookup0 (Fin 0) ms k) v)))"
proof (cases "check_meters ms other")
  case None
  then have ms': "ms' = Meters_Add ms other" "e = None" using assms(3) by (auto simp: AddChecked_def)
  note look = Meters_Add_lookup [OF assms(1), of ms]
  have "finite_float v" if "map_of ms' k = Some v" for k v
    using that assms(2) None unfolding ms' look check_meters_None
    by (fastforce split: option.splits dest: map_of_SomeD)
  then show ?thesis using look by (simp add: ms')
next
  case (Some d)
  then have "ms' = ms" "e = Some d" using assms(3) by (auto simp: AddChecked_def)
  moreover have "check_meters ms other \<noteq> None" using Some by simp
  ultimately show ?thesis using assms(2) unfolding check_meters_None by auto
qed

theorem meters_stay_finite_witness:
  "fst (AddChecked [(''cost'', Fin 0)] [(''tokens'', Fin 0), (''cost'', PInf)]) \<noteq> None \<and>
   snd (AddChecked [(''cost'', Fin 0)] [(''tokens'', Fin 0), (''cost'', PInf)]) = [(''cost'', Fin 0)]"
proof -
  let ?ms = "[(''cost'', Fin 0)]" and ?o = "[(''tokens'', Fin 0), (''cost'', PInf)]"
  have "check_meters ?ms ?o \<noteq> None" unfolding check_meters_None by (simp add: finite_float_def)
  then obtain d where run: "AddChecked ?ms ?o = (Some d, ?ms)"
    by (auto simp: AddChecked_def simp del: check_meters.simps split: option.splits)
  have "go_map ?o" by (simp add: go_map_def)
  from meters_stay_finite [OF this _ run] show ?thesis
    unfolding run by (simp add: finite_float_def)
qed

text \<open>Merging reports loses and invents nothing: under every step name, each of the
  nine counters and each retry count of the merged report is the sum of those of the two
  reports, and each meter that the second report has is the float sum.\<close>

theorem report_merge_adds:
  assumes "go_map other" and "go_map (RetriesByClass (Step_of other k))" and "go_map (Meters (Step_of other k))"
    and "m = Step_of (report_merge r other) k" and "a = Step_of r k" and "b = Step_of other k"
  shows "Items m = Items a + Items b \<and> Hits m = Hits a + Hits b \<and> Misses m = Misses a + Misses b \<and>
    Stored m = Stored a + Stored b \<and> WorkCalls m = WorkCalls a + WorkCalls b \<and>
    StartedSequences m = StartedSequences a + StartedSequences b \<and> Retries m = Retries a + Retries b \<and>
    Quarantined m = Quarantined a + Quarantined b \<and> Skipped m = Skipped a + Skipped b \<and>
    (\<forall>c. lookup0 0 (RetriesByClass m) c = lookup0 0 (RetriesByClass a) c + lookup0 0 (RetriesByClass b) c) \<and>
    (\<forall>n v. map_of (Meters b) n = Some v \<longrightarrow>
       map_of (Meters m) n = Some (fadd (lookup0 (Fin 0) (Meters a) n) v))"
proof (cases "map_of other k")
  case None
  then have "m = a" "b = zero_report"
    using report_merge_lookup [OF assms(1), of r k] by (simp_all add: assms(4-6) Step_of_def lookup0_def)
  then show ?thesis by (simp add: zero_report_def report_simps)
next
  case (Some st)
  then have "b = st" and m: "m = step_merge a b"
    using report_merge_lookup [OF assms(1), of r k] by (simp_all add: assms(4-6) Step_of_def lookup0_def)
  have "go_map (RetriesByClass b)" "go_map (Meters b)" using assms(2,3,6) by simp_all
  then show ?thesis unfolding m
    by (auto simp: step_merge_def add_counts_lookup Meters_Add_lookup)
qed

theorem report_merge_adds_witness:
  "Items (Step_of (report_merge [(''s'', zero_report\<lparr>Items := 2\<rparr>)]
     [(''t'', zero_report), (''s'', zero_report\<lparr>Items := 3\<rparr>)]) ''s'') = 5"
proof -
  let ?r = "[(''s'', zero_report\<lparr>Items := 2\<rparr>)]"
  let ?o = "[(''t'', zero_report), (''s'', zero_report\<lparr>Items := 3\<rparr>)]"
  have o: "go_map ?o" by (simp add: go_map_def)
  have "Step_of ?o ''s'' = zero_report\<lparr>Items := 3\<rparr>" "Step_of ?r ''s'' = zero_report\<lparr>Items := 2\<rparr>"
    by (simp_all add: Step_of_def lookup0_def)
  moreover from this have "go_map (RetriesByClass (Step_of ?o ''s''))" "go_map (StepReport.Meters (Step_of ?o ''s''))"
    by (simp_all add: zero_report_def go_map_def)
  ultimately show ?thesis using report_merge_adds [OF o _ _ refl refl refl, of "''s''" ?r] by simp
qed

end
