(* ===== verification/Token_Bucket.thy ===== *)
theory Token_Bucket
  imports Reservation
begin

text \<open>
  The token bucket of \<open>src/execution/rate.go\<close>.

  The channel \<open>tokens\<close> of capacity \<open>burst\<close> is its fill level. \<open>Reserve\<close> blocks in a
  \<open>select\<close>, so it runs against a schedule: a list of \<open>wait_event\<close>s, the moves of the
  other goroutines (a replenisher tick, the two writes of \<open>Close\<close>, the cancellation of
  the caller's context) and the case the \<open>select\<close> takes. \<open>None\<close> is a call that has not
  returned at the end of the schedule, or a schedule that takes a case that is not ready.
\<close>

section \<open>Construction and the replenisher\<close>

record rate =
  r_units :: int
  r_per :: int
  r_burst :: int

definition rate_interval :: "rate \<Rightarrow> int" where
  "rate_interval r = r_per r div r_units r"

definition NewTokenBucket :: "rate \<Rightarrow> token_bucket result" where
  "NewTokenBucket r =
     (if r_units r < 1 then Inl (Errorf ''rate units must be positive'' [] None)
      else if r_per r \<le> 0 then Inl (Errorf ''rate period must be positive'' [] None)
      else if r_burst r < 1 then Inl (Errorf ''rate burst must be positive'' [] None)
      else if rate_interval r \<le> 0 then Inl (Errorf ''rate interval is below timer resolution'' [] None)
      else Inr \<lparr>tokens = nat (r_burst r), burst = nat (r_burst r),
                closed = False, done_closed = False\<rparr>)"

definition replenish :: "token_bucket \<Rightarrow> token_bucket" where
  "replenish b = (if tokens b < burst b then b\<lparr>tokens := Suc (tokens b)\<rparr> else b)"

definition take_token :: "token_bucket \<Rightarrow> token_bucket option" where
  "take_token b = (if tokens b = 0 then None else Some (b\<lparr>tokens := tokens b - 1\<rparr>))"

text \<open>\<open>Close\<close> stores the flag and then closes the channel \<open>done\<close>, once.\<close>

definition Close_bucket :: "token_bucket \<Rightarrow> token_bucket" where
  "Close_bucket b = b\<lparr>closed := True, done_closed := True\<rparr>"

section \<open>Reserve\<close>

datatype wait_event =
    Tick addr | CloseFlag addr | CloseDone addr | CancelCtx err
  | PickCtx | PickDone | PickToken

definition upd_bucket :: "addr \<Rightarrow> (token_bucket \<Rightarrow> token_bucket) \<Rightarrow> 'c lworld \<Rightarrow> 'c lworld" where
  "upd_bucket a f w =
     (case buckets w a of None \<Rightarrow> w | Some b \<Rightarrow> w\<lparr>buckets := (buckets w)(a \<mapsto> f b)\<rparr>)"

fun env_event :: "wait_event \<Rightarrow> 'c lworld \<Rightarrow> 'c lworld" where
  "env_event (Tick a) w = upd_bucket a replenish w"
| "env_event (CloseFlag a) w = upd_bucket a (\<lambda>b. b\<lparr>closed := True\<rparr>) w"
| "env_event (CloseDone a) w = upd_bucket a Close_bucket w"
| "env_event (CancelCtx e) w = (if lctx w = None then w\<lparr>lctx := Some e\<rparr> else w)"
| "env_event _ w = w"

definition bucket_closed_err :: err where
  "bucket_closed_err = Errorf ''token bucket is closed'' [] None"

fun acquire :: "addr \<Rightarrow> nat \<Rightarrow> nat \<Rightarrow> 'c lworld \<Rightarrow> wait_event list \<Rightarrow>
      (reservation result \<times> 'c lworld \<times> wait_event list) option"
  and select_token :: "addr \<Rightarrow> nat \<Rightarrow> nat \<Rightarrow> 'c lworld \<Rightarrow> wait_event list \<Rightarrow>
      (reservation result \<times> 'c lworld \<times> wait_event list) option" where
  "acquire a units got w evs =
     (if units \<le> got then Some (Inr (newReservation (BucketCharge a units)), w, evs)
      else case buckets w a of
        None \<Rightarrow> None
      | Some b \<Rightarrow>
          if closed b then Some (Inl bucket_closed_err, upd_bucket a (refund got) w, evs)
          else select_token a units got w evs)"
| "select_token a units got w [] = None"
| "select_token a units got w (ev # evs) =
     (case buckets w a of
        None \<Rightarrow> None
      | Some b \<Rightarrow>
         (case ev of
            PickCtx \<Rightarrow>
              (case lctx w of
                 None \<Rightarrow> None
               | Some e \<Rightarrow> Some (Inl e, upd_bucket a (refund got) w, evs))
          | PickDone \<Rightarrow>
              (if done_closed b
               then Some (Inl bucket_closed_err, upd_bucket a (refund got) w, evs) else None)
          | PickToken \<Rightarrow>
              (case take_token b of
                 None \<Rightarrow> None
               | Some b' \<Rightarrow>
                   let w' = w\<lparr>buckets := (buckets w)(a \<mapsto> b')\<rparr> in
                   if closed b
                   then Some (Inl bucket_closed_err, upd_bucket a (refund (Suc got)) w', evs)
                   else acquire a units (Suc got) w' evs)
          | _ \<Rightarrow> select_token a units got (env_event ev w) evs))"

declare acquire.simps [simp del]

definition bucket_Reserve :: "addr \<Rightarrow> int \<Rightarrow> 'c lworld \<Rightarrow> wait_event list \<Rightarrow>
      (reservation result \<times> 'c lworld \<times> wait_event list) option" where
  "bucket_Reserve a units w evs =
     (case buckets w a of
        None \<Rightarrow> Some (Inl (Errorf ''token bucket is nil'' [] None), w, evs)
      | Some b \<Rightarrow>
          if units < 1 then Some (Inl (Errorf ''resource units must be positive'' [] None), w, evs)
          else if units > int (burst b)
          then Some (Inl (Errorf ''resource units %d exceed burst %d''
                      [FInt units, FInt (int (burst b))] None), w, evs)
          else if closed b then Some (Inl bucket_closed_err, w, evs)
          else acquire a (nat units) 0 w evs)"

definition bucket_Wait :: "addr \<Rightarrow> int \<Rightarrow> 'c lworld \<Rightarrow> wait_event list \<Rightarrow>
      (err option \<times> 'c lworld \<times> wait_event list) option" where
  "bucket_Wait a units w evs =
     (case bucket_Reserve a units w evs of
        None \<Rightarrow> None
      | Some (Inl e, w', evs') \<Rightarrow> Some (Some e, w', evs')
      | Some (Inr r, w', evs') \<Rightarrow> (let _ = Commit r in Some (None, w', evs')))"

section \<open>The rate bound\<close>

text \<open>
  Any number of waiters, each taking and refunding tokens, beside the replenisher.
  \<open>taken\<close> counts the tokens the waiters hold or have spent, \<open>ticks\<close> the ticks.
\<close>

record tbsys =
  tb :: token_bucket
  taken :: nat
  ticks :: nat

inductive tb_step :: "tbsys \<Rightarrow> tbsys \<Rightarrow> bool" where
  tick: "tb_step s (s\<lparr>tb := replenish (tb s), ticks := Suc (ticks s)\<rparr>)"
| take_one: "take_token (tb s) = Some b \<Longrightarrow> tb_step s (s\<lparr>tb := b, taken := Suc (taken s)\<rparr>)"
| give_back: "n \<le> taken s \<Longrightarrow> tb_step s (s\<lparr>tb := refund n (tb s), taken := taken s - n\<rparr>)"
| close_flag: "tb_step s (s\<lparr>tb := (tb s)\<lparr>closed := True\<rparr>\<rparr>)"
| close_done: "tb_step s (s\<lparr>tb := Close_bucket (tb s)\<rparr>)"

definition tb_inv :: "nat \<Rightarrow> tbsys \<Rightarrow> bool" where
  "tb_inv n s \<longleftrightarrow> burst (tb s) = n \<and> tokens (tb s) \<le> n \<and> tokens (tb s) + taken s \<le> n + ticks s"

lemma tb_step_inv: "tb_step s t \<Longrightarrow> tb_inv n s \<Longrightarrow> tb_inv n t"
  by (induction rule: tb_step.induct)
     (auto simp: tb_inv_def replenish_def take_token_def refund_eq Close_bucket_def split: if_splits)

lemma tb_reach_inv: "tb_step\<^sup>*\<^sup>* s t \<Longrightarrow> tb_inv n s \<Longrightarrow> tb_inv n t"
  by (induction rule: rtranclp_induct) (auto intro: tb_step_inv)

section \<open>Facts on one call\<close>

lemma upd_bucket_frame [limiter_simps]:
  "budgets (upd_bucket a f w) = budgets w" "lctx (upd_bucket a f w) = lctx w"
  "custom (upd_bucket a f w) = custom w"
  by (simp_all add: upd_bucket_def split: option.splits)

lemma env_event_budgets [limiter_simps]: "budgets (env_event ev w) = budgets w"
  by (cases ev) (simp_all add: limiter_simps)

lemma env_event_custom [limiter_simps]: "custom (env_event ev w) = custom w"
  by (cases ev) (simp_all add: limiter_simps)

lemma acquire_frame:
  "acquire a u g w evs = Some (res, w', evs') \<Longrightarrow>
     budgets w' = budgets w \<and> custom w' = custom w \<and>
     (\<forall>r. res = Inr r \<longrightarrow> r = newReservation (BucketCharge a u))"
  "select_token a u g w evs = Some (res, w', evs') \<Longrightarrow>
     budgets w' = budgets w \<and> custom w' = custom w \<and>
     (\<forall>r. res = Inr r \<longrightarrow> r = newReservation (BucketCharge a u))"
proof (induction a u g w evs and a u g w evs rule: acquire_select_token.induct)
  case (1 a units got w evs)
  then show ?case
    by (auto simp: acquire.simps [of a units got w evs] limiter_simps split: if_splits option.splits)
next
  case (3 a units got w ev evs)
  then show ?case
    by (cases ev) (auto simp: limiter_simps Let_def split: if_splits option.splits)
qed auto

lemma bucket_Reserve_frame:
  assumes "bucket_Reserve a u w evs = Some (res, w', evs')"
  shows "budgets w' = budgets w" and "custom w' = custom w"
    and "\<And>r. res = Inr r \<Longrightarrow> r = newReservation (BucketCharge a (nat u))"
  using assms acquire_frame(1)
  by (fastforce simp: bucket_Reserve_def split: option.splits if_splits)+

text \<open>
  A call that is refused after it took some tokens gives them back: the level is at least
  what it was, up to the capacity, and exactly what it was when no tick came in between.
\<close>

definition refused_level :: "addr \<Rightarrow> nat \<Rightarrow> token_bucket \<Rightarrow> 'c lworld \<Rightarrow> wait_event list \<Rightarrow> bool" where
  "refused_level a g b w' evs \<longleftrightarrow>
     (\<exists>b'. buckets w' a = Some b' \<and> burst b' = burst b \<and> tokens b' \<le> burst b
        \<and> min (burst b) (tokens b + g) \<le> tokens b'
        \<and> (Tick a \<notin> set evs \<and> tokens b + g \<le> burst b \<longrightarrow> tokens b' = tokens b + g))"

lemma refused_level_refund:
  "buckets w a = Some b \<Longrightarrow> tokens b \<le> burst b \<Longrightarrow> refused_level a g b (upd_bucket a (refund g) w) evs"
  by (auto simp: refused_level_def upd_bucket_def refund_eq)

lemma env_event_bucket:
  assumes "buckets w a = Some b" and "tokens b \<le> burst b"
  shows "\<exists>b1. buckets (env_event ev w) a = Some b1 \<and> burst b1 = burst b
    \<and> tokens b1 \<le> burst b1 \<and> tokens b \<le> tokens b1 \<and> (ev \<noteq> Tick a \<longrightarrow> tokens b1 = tokens b)"
  using assms
  by (cases ev) (auto simp: upd_bucket_def replenish_def Close_bucket_def split: option.splits)

lemma refused_level_env:
  assumes "refused_level a g b1 w' evs" and "burst b1 = burst b" and "tokens b \<le> tokens b1"
    and "ev \<noteq> Tick a \<longrightarrow> tokens b1 = tokens b"
  shows "refused_level a g b w' (ev # evs)"
proof -
  from assms(1) obtain b' where b': "buckets w' a = Some b'" "burst b' = burst b1"
      "tokens b' \<le> burst b1" "min (burst b1) (tokens b1 + g) \<le> tokens b'"
      "Tick a \<notin> set evs \<and> tokens b1 + g \<le> burst b1 \<longrightarrow> tokens b' = tokens b1 + g"
    by (auto simp: refused_level_def)
  have "min (burst b) (tokens b + g) \<le> tokens b'"
    using b'(4) assms(2,3) by simp
  moreover have "tokens b' = tokens b + g"
    if "Tick a \<notin> set (ev # evs)" "tokens b + g \<le> burst b"
    using that b'(5) assms(2,4) by auto
  ultimately show ?thesis using b' assms(2) by (auto simp: refused_level_def)
qed

lemma refused_level_take:
  assumes "refused_level a (Suc g) b' w' evs" and "take_token b = Some b'"
  shows "refused_level a g b w' (ev # evs)"
  using assms by (auto simp: refused_level_def take_token_def split: if_splits)

lemma take_token_bound: "take_token b = Some b' \<Longrightarrow> tokens b \<le> burst b \<Longrightarrow> tokens b' \<le> burst b'"
  by (auto simp: take_token_def split: if_splits)

lemma acquire_refused:
  "acquire a u g w evs = Some (Inl e, w', evs') \<Longrightarrow> buckets w a = Some b \<Longrightarrow>
     tokens b \<le> burst b \<Longrightarrow> refused_level a g b w' evs"
  "select_token a u g w evs = Some (Inl e, w', evs') \<Longrightarrow> buckets w a = Some b \<Longrightarrow>
     tokens b \<le> burst b \<Longrightarrow> refused_level a g b w' evs"
proof (induction a u g w evs and a u g w evs arbitrary: b and b rule: acquire_select_token.induct)
  case (1 a units got w evs)
  then show ?case
    by (auto simp: acquire.simps [of a units got w evs] intro: refused_level_refund split: if_splits)
next
  case (2 a units got w)
  then show ?case by simp
next
  case (3 a units got w ev evs)
  show ?case
  proof (cases "ev = PickCtx \<or> ev = PickDone \<or> ev = PickToken")
    case False
    with 3 have rec: "select_token a units got (env_event ev w) evs = Some (Inl e, w', evs')"
      by (cases ev) auto
    from "3.prems"(2,3) obtain b1 where b1: "buckets (env_event ev w) a = Some b1"
        "burst b1 = burst b" "tokens b1 \<le> burst b1" "tokens b \<le> tokens b1"
        "ev \<noteq> Tick a \<longrightarrow> tokens b1 = tokens b"
      using env_event_bucket by blast
    have "refused_level a got b1 w' evs"
      using "3.IH"(1-4) [OF "3.prems"(2)] False rec b1(1,3) by (cases ev) simp_all
    then show ?thesis using b1(2,4,5) by (rule refused_level_env)
  next
    case True
    then consider (stop) "w' = upd_bucket a (refund got) w"
      | (tok) b' where "take_token b = Some b'" "ev = PickToken"
      using "3.prems" by (auto split: option.splits if_splits)
    then show ?thesis
    proof cases
      case stop
      with "3.prems" show ?thesis by (simp add: refused_level_refund)
    next
      case tok
      let ?w = "w\<lparr>buckets := (buckets w)(a \<mapsto> b')\<rparr>"
      have bound: "tokens b' \<le> burst b'"
        using tok(1) "3.prems"(3) by (rule take_token_bound)
      have "refused_level a (Suc got) b' w' evs"
      proof (cases "closed b")
        case True
        with tok "3.prems" have "w' = upd_bucket a (refund (Suc got)) ?w" by (simp add: Let_def)
        then show ?thesis using bound by (simp add: refused_level_refund)
      next
        case False
        with tok "3.prems" have "acquire a units (Suc got) ?w evs = Some (Inl e, w', evs')"
          by (simp add: Let_def)
        then show ?thesis
          using "3.IH"(5) [OF "3.prems"(2) tok(2,1) refl False] bound by simp
      qed
      then show ?thesis using tok(1) by (rule refused_level_take)
    qed
  qed
qed

text \<open>Enough replenishment admits every request that fits the burst.\<close>

lemma acquire_live:
  assumes "buckets w a = Some b" and "\<not> closed b" and "0 < burst b" and "g \<le> u"
  shows "\<exists>w'. acquire a u g w (concat (replicate (u - g) [Tick a, PickToken]) @ evs)
           = Some (Inr (newReservation (BucketCharge a u)), w', evs)"
  using assms
proof (induction "u - g" arbitrary: g w b)
  case 0
  then show ?case by (simp add: acquire.simps)
next
  case (Suc n)
  let ?b = "replenish b" and ?w = "env_event (Tick a) w"
  from Suc.prems have b: "buckets ?w a = Some ?b" "\<not> closed ?b" "tokens ?b \<noteq> 0"
    by (auto simp: upd_bucket_def replenish_def)
  let ?b' = "?b\<lparr>tokens := tokens ?b - 1\<rparr>" and ?w' = "?w\<lparr>buckets := (buckets ?w)(a \<mapsto> ?b\<lparr>tokens := tokens ?b - 1\<rparr>)\<rparr>"
  have "\<exists>w'. acquire a u (Suc g) ?w' (concat (replicate (u - Suc g) [Tick a, PickToken]) @ evs)
           = Some (Inr (newReservation (BucketCharge a u)), w', evs)"
    using Suc.prems Suc.hyps(2) b by (intro Suc.hyps(1) [where b = ?b']) (auto simp: replenish_def)
  moreover have "u - g = Suc (u - Suc g)" using Suc.hyps(2) by simp
  ultimately show ?case
    using Suc.prems Suc.hyps(2) b
    by (simp add: acquire.simps [of a u g w] take_token_def Let_def)
qed

section \<open>Properties\<close>

definition bucket_start :: "token_bucket \<Rightarrow> tbsys" where
  "bucket_start b = \<lparr>tb = b, taken = 0, ticks = 0\<rparr>"

text \<open>C2. From a new bucket on, whatever the waiters, the replenisher and \<open>Close\<close> do, the
  tokens taken and not given back are at most the burst plus one per replenisher tick,
  and the channel never holds more than the burst.\<close>

theorem token_bucket_rate_bound:
  assumes "NewTokenBucket r = Inr b" and "tb_step\<^sup>*\<^sup>* (bucket_start b) s"
  shows "int (taken s) \<le> r_burst r + int (ticks s) \<and> int (tokens (tb s)) \<le> r_burst r"
proof -
  from assms(1) have b: "int (burst b) = r_burst r" "tokens b = burst b"
    by (auto simp: NewTokenBucket_def split: if_splits)
  then have "tb_inv (burst b) (bucket_start b)" by (simp add: tb_inv_def bucket_start_def)
  then have "tb_inv (burst b) s" by (rule tb_reach_inv [OF assms(2)])
  with b show ?thesis by (auto simp: tb_inv_def)
qed

definition sample_bucket :: token_bucket where
  "sample_bucket = \<lparr>tokens = 2, burst = 2, closed = False, done_closed = False\<rparr>"

theorem token_bucket_rate_bound_witness:
  "NewTokenBucket \<lparr>r_units = 20, r_per = 1000000000, r_burst = 2\<rparr> = Inr sample_bucket \<and>
   tb_step (bucket_start sample_bucket)
     (bucket_start sample_bucket\<lparr>tb := sample_bucket\<lparr>tokens := 1\<rparr>, taken := 1\<rparr>) \<and>
   (1 :: int) \<le> 2"
proof -
  have new: "NewTokenBucket \<lparr>r_units = 20, r_per = 1000000000, r_burst = 2\<rparr> = Inr sample_bucket"
    by (simp add: NewTokenBucket_def rate_interval_def sample_bucket_def)
  have "tb_step (bucket_start sample_bucket)
     (bucket_start sample_bucket\<lparr>tb := sample_bucket\<lparr>tokens := 1\<rparr>, taken := 1\<rparr>)"
    using take_one [of "bucket_start sample_bucket" "sample_bucket\<lparr>tokens := 1\<rparr>"]
    by (simp add: bucket_start_def sample_bucket_def take_token_def)
  with new token_bucket_rate_bound [OF new r_into_rtranclp [of tb_step, OF this]] show ?thesis
    by (simp add: bucket_start_def)
qed

text \<open>C3. A \<open>Wait\<close> on a token bucket that is refused (its context is cancelled, or the bucket
  is closed under it) after it took any number of tokens leaves the bucket with at least
  the tokens it had, and with exactly those when no tick came in between.\<close>

theorem token_bucket_refusal_refunds:
  assumes "bucket_Wait a units w evs = Some (Some e, w', evs')"
    and "buckets w a = Some b" and "tokens b \<le> burst b"
  shows "\<exists>b'. buckets w' a = Some b' \<and> burst b' = burst b \<and> tokens b \<le> tokens b'
     \<and> tokens b' \<le> burst b \<and> (Tick a \<notin> set evs \<longrightarrow> tokens b' = tokens b)"
proof -
  from assms(1) have res: "bucket_Reserve a units w evs = Some (Inl e, w', evs')"
    by (auto simp: bucket_Wait_def split: option.splits sum.splits prod.splits)
  then consider "w' = w" | "acquire a (nat units) 0 w evs = Some (Inl e, w', evs')"
    using assms(2) by (auto simp: bucket_Reserve_def split: if_splits)
  then show ?thesis
  proof cases
    case 1
    with assms(2,3) show ?thesis by simp
  next
    case 2
    from acquire_refused(1) [OF this assms(2,3)] assms(3) show ?thesis
      by (auto simp: refused_level_def)
  qed
qed

definition bucket_world :: "unit lworld" where
  "bucket_world = \<lparr>budgets = Map.empty, buckets = [0 \<mapsto> sample_bucket], lctx = None, custom = ()\<rparr>"

theorem token_bucket_refusal_refunds_witness:
  "\<exists>w'. bucket_Wait 0 2 bucket_world [PickToken, CancelCtx (Sentinel Canceled), PickCtx]
      = Some (Some (Sentinel Canceled), w', []) \<and> map_option tokens (buckets w' 0) = Some 2"
proof -
  let ?evs = "[PickToken, CancelCtx (Sentinel Canceled), PickCtx]"
  obtain w' where w': "bucket_Wait 0 2 bucket_world ?evs = Some (Some (Sentinel Canceled), w', [])"
    by (simp add: bucket_Wait_def bucket_Reserve_def bucket_world_def sample_bucket_def
        acquire.simps take_token_def upd_bucket_def)
  have b: "buckets bucket_world 0 = Some sample_bucket" "tokens sample_bucket \<le> burst sample_bucket"
    by (simp_all add: bucket_world_def sample_bucket_def)
  from token_bucket_refusal_refunds [OF w' b] w' show ?thesis
    by (auto simp: sample_bucket_def)
qed



end
