(* ===== verification/Limiter_Chain.thy ===== *)
theory Limiter_Chain
  imports Budget Token_Bucket
begin

text \<open>
  Composed admission, \<open>src/execution/chain.go\<close>, and the limiter interfaces of
  \<open>src/execution/map.go\<close>.

  A limiter value is a pointer to a budget or a bucket, a chain, or a caller's own
  limiter that has \<open>Wait\<close> only (\<open>Custom\<close>; its \<open>Wait\<close> is the parameter
  \<open>custom_wait\<close>). \<open>Custom\<close> is the one that fails the type assertion to
  \<open>ReservableLimiter\<close>.

  The locale \<open>reservable\<close> is the contract of \<open>ReservableLimiter\<close> as its clients use
  it: a refusal charges no budget, and a rollback right after a grant uncharges it.
  Budgets, buckets and chains satisfy it, and the transaction lemmas that the clients
  (\<open>limiterChain.Reserve\<close>, \<open>runEnv.admit\<close>) need are proved once inside it.
\<close>

datatype limiter = LBudget addr | LBucket addr | LChain "limiter list" | Custom nat

type_synonym 'c custom_wait = "nat \<Rightarrow> ctx \<Rightarrow> int \<Rightarrow> 'c \<Rightarrow> err option \<times> 'c"

type_synonym 'c reserve_outcome = "(reservation result \<times> 'c lworld \<times> wait_event list) option"

section \<open>Operations\<close>

definition Chain :: "limiter option list \<Rightarrow> limiter" where
  "Chain ls = LChain (List.map_filter id ls)"

fun is_reservable :: "limiter \<Rightarrow> bool" where
  "is_reservable (Custom n) = False"
| "is_reservable _ = True"

definition custom_Wait :: "'c custom_wait \<Rightarrow> nat \<Rightarrow> int \<Rightarrow> 'c lworld \<Rightarrow> err option \<times> 'c lworld" where
  "custom_Wait cw n units w =
     (case cw n (lctx w) units (custom w) of (r, c) \<Rightarrow> (r, w\<lparr>custom := c\<rparr>))"

definition limiter_error :: "nat \<Rightarrow> err \<Rightarrow> err" where
  "limiter_error i e = Errorf ''limiter %d: %w'' [FInt (int i)] (Some e)"

fun limiter_Reserve :: "'c custom_wait \<Rightarrow> limiter \<Rightarrow> int \<Rightarrow> 'c lworld \<Rightarrow> wait_event list \<Rightarrow> 'c reserve_outcome"
  and chain_loop :: "'c custom_wait \<Rightarrow> nat \<Rightarrow> limiter list \<Rightarrow> reservation list \<Rightarrow> int \<Rightarrow> 'c lworld \<Rightarrow>
        wait_event list \<Rightarrow> 'c reserve_outcome" where
  "limiter_Reserve cw (LBudget a) u w evs = (case budget_Reserve a u w of (r, w') \<Rightarrow> Some (r, w', evs))"
| "limiter_Reserve cw (LBucket a) u w evs = bucket_Reserve a u w evs"
| "limiter_Reserve cw (LChain ls) u w evs = chain_loop cw 0 ls [] u w evs"
| "limiter_Reserve cw (Custom n) u w evs = None"
| "chain_loop cw i [] rs u w evs = Some (Inr (newReservationWithCommit rs), w, evs)"
| "chain_loop cw i (l # ls) rs u w evs =
     (if is_reservable l then
        (case limiter_Reserve cw l u w evs of
           None \<Rightarrow> None
         | Some (Inl e, w', evs') \<Rightarrow> Some (Inl (limiter_error i e), snd (rollback_all rs w'), evs')
         | Some (Inr r, w', evs') \<Rightarrow> chain_loop cw (Suc i) ls (rs @ [r]) u w' evs')
      else
        (case l of
           Custom n \<Rightarrow>
             (case custom_Wait cw n u w of
                (Some e, w') \<Rightarrow> Some (Inl (limiter_error i e), snd (rollback_all rs w'), evs)
              | (None, w') \<Rightarrow> chain_loop cw (Suc i) ls rs u w' evs)
         | _ \<Rightarrow> None))"

text \<open>\<open>Wait\<close> of a built-in limiter commits the reservation it makes; a custom limiter has
  its own.\<close>

definition limiter_Wait :: "'c custom_wait \<Rightarrow> limiter \<Rightarrow> int \<Rightarrow> 'c lworld \<Rightarrow> wait_event list \<Rightarrow>
      (err option \<times> 'c lworld \<times> wait_event list) option" where
  "limiter_Wait cw l u w evs =
     (case l of
        Custom n \<Rightarrow> (case custom_Wait cw n u w of (r, w') \<Rightarrow> Some (r, w', evs))
      | _ \<Rightarrow>
        (case limiter_Reserve cw l u w evs of
           None \<Rightarrow> None
         | Some (Inl e, w', evs') \<Rightarrow> Some (Some e, w', evs')
         | Some (Inr r, w', evs') \<Rightarrow> (let _ = Commit r in Some (None, w', evs'))))"

section \<open>The contract\<close>

locale reservable =
  fixes reserve :: "'l \<Rightarrow> int \<Rightarrow> 'c lworld \<Rightarrow> wait_event list \<Rightarrow> 'c reserve_outcome"
  assumes refusal_keeps:
    "reserve l u w evs = Some (Inl e, w', evs') \<Longrightarrow> budgets w' = budgets w"
    and rollback_restores:
    "reserve l u w evs = Some (Inr r, w', evs') \<Longrightarrow> budgets (snd (Rollback r w')) = budgets w"
begin

text \<open>\<open>undoes rs w w0\<close>: rolling the open reservations back takes the budgets of \<open>w\<close> to
  those of \<open>w0\<close>. A transaction keeps it from its first reservation to its last.\<close>

definition undoes :: "reservation list \<Rightarrow> 'c lworld \<Rightarrow> 'c lworld \<Rightarrow> bool" where
  "undoes rs w w0 \<longleftrightarrow> budgets (snd (rollback_all rs w)) = budgets w0"

lemma undoes_start: "undoes [] w w"
  by (simp add: undoes_def)

lemma undoes_grant:
  assumes "undoes rs w w0" and "reserve l u w evs = Some (Inr r, w', evs')"
  shows "undoes (rs @ [r]) w' w0"
proof -
  have "budgets (snd (Rollback r w')) = budgets w" using assms(2) by (rule rollback_restores)
  then show ?thesis
    using assms(1) by (simp only: undoes_def rollback_all_append rollback_all_single
        rollback_budgets_cong(2) [of "snd (Rollback r w')" w])
qed

lemma undoes_refusal:
  assumes "undoes rs w w0" and "reserve l u w evs = Some (Inl e, w', evs')"
  shows "budgets (snd (rollback_all rs w')) = budgets w0"
  using assms by (metis refusal_keeps rollback_budgets_cong(2) undoes_def)

lemma undoes_same_budgets:
  assumes "undoes rs w w0" and "budgets w' = budgets w"
  shows "undoes rs w' w0"
  using assms by (metis rollback_budgets_cong(2) undoes_def)

end

interpretation budget_lim: reservable
  "\<lambda>a u (w :: 'c lworld) evs. case budget_Reserve a u w of (r, w') \<Rightarrow> Some (r, w', evs)"
  by unfold_locales
     (auto dest: budget_Reserve_Inl budget_Reserve_Rollback split: prod.splits)

lemma bucket_Reserve_rollback_budgets:
  "bucket_Reserve a u w evs = Some (Inr r, w', evs') \<Longrightarrow> budgets (snd (Rollback r w')) = budgets w"
  using bucket_Reserve_frame(1,3) [of a u w evs "Inr r" w' evs']
  by (auto simp: newReservation_def split: option.splits)

interpretation bucket_lim: reservable "bucket_Reserve :: addr \<Rightarrow> int \<Rightarrow> 'c lworld \<Rightarrow> _"
  by unfold_locales (auto dest: bucket_Reserve_frame bucket_Reserve_rollback_budgets)

section \<open>A chain keeps the contract\<close>

lemma rollback_all_snoc_restores:
  assumes "budgets (snd (Rollback r w')) = budgets w"
  shows "budgets (snd (rollback_all (rs @ [r]) w')) = budgets (snd (rollback_all rs w))"
  unfolding rollback_all_append rollback_all_single using assms by (rule rollback_budgets_cong(2))

lemma custom_Wait_budgets:
  "custom_Wait cw n u w = (r, w') \<Longrightarrow> budgets w' = budgets w"
  by (auto simp: custom_Wait_def split: prod.splits)

lemma limiter_Reserve_contract:
  "limiter_Reserve cw l u w evs = Some (res, w', evs') \<Longrightarrow>
     (\<forall>e. res = Inl e \<longrightarrow> budgets w' = budgets w) \<and>
     (\<forall>r. res = Inr r \<longrightarrow> budgets (snd (Rollback r w')) = budgets w)"
  "chain_loop cw i ls rs u w evs = Some (res, w', evs') \<Longrightarrow>
     (\<forall>e. res = Inl e \<longrightarrow> budgets w' = budgets (snd (rollback_all rs w))) \<and>
     (\<forall>r. res = Inr r \<longrightarrow> budgets (snd (Rollback r w')) = budgets (snd (rollback_all rs w)))"
proof (induction cw l u w evs and cw i ls rs u w evs arbitrary: res w' evs' and res w' evs'
    rule: limiter_Reserve_chain_loop.induct)
  case (1 cw a u w evs)
  then show ?case
    by (auto dest: budget_Reserve_Inl budget_Reserve_Rollback split: prod.splits)
next
  case (2 cw a u w evs)
  then show ?case using bucket_lim.refusal_keeps bucket_lim.rollback_restores by auto
next
  case (3 cw ls u w evs)
  then show ?case by simp
next
  case (4 cw n u w evs)
  then show ?case by simp
next
  case (5 cw i rs u w evs)
  then show ?case by (auto simp: newReservationWithCommit_def split: prod.splits)
next
  case (6 cw i l ls rs u w evs)
  show ?case
  proof (cases "is_reservable l")
    case True
    with "6.prems" obtain res1 w1 evs1
      where one: "limiter_Reserve cw l u w evs = Some (res1, w1, evs1)"
      by (auto split: option.splits)
    note first = "6.IH"(1) [OF True one]
    show ?thesis
    proof (cases res1)
      case (Inl e)
      with "6.prems" True one first show ?thesis
        by (auto intro: rollback_budgets_cong(2))
    next
      case (Inr r)
      with "6.prems" True one have rest: "chain_loop cw (Suc i) ls (rs @ [r]) u w1 evs1 = Some (res, w', evs')"
        by simp
      from first Inr have "budgets (snd (rollback_all (rs @ [r]) w1)) = budgets (snd (rollback_all rs w))"
        by (intro rollback_all_snoc_restores) simp
      with "6.IH"(2) [OF True one refl Inr refl rest] show ?thesis by metis
    qed
  next
    case False
    then obtain n where l: "l = Custom n" by (cases l) auto
    obtain r1 w1 where one: "custom_Wait cw n u w = (r1, w1)" by fastforce
    then have "budgets (snd (rollback_all rs w1)) = budgets (snd (rollback_all rs w))"
      by (intro rollback_budgets_cong(2) custom_Wait_budgets)
    with "6.prems" "6.IH"(3) [OF False l one [symmetric]] False l one show ?thesis
      by (auto split: option.splits)
  qed
qed

interpretation limiter_lim: reservable "limiter_Reserve cw :: limiter \<Rightarrow> int \<Rightarrow> 'c lworld \<Rightarrow> _"
  for cw :: "'c custom_wait"
  by unfold_locales (auto dest: limiter_Reserve_contract(1))

section \<open>What an admission charges\<close>

text \<open>How often a budget is consulted by a limiter: once for every place it stands at.\<close>

fun occurrences :: "addr \<Rightarrow> limiter \<Rightarrow> nat" where
  "occurrences a (LBudget b) = (if a = b then 1 else 0)"
| "occurrences a (LBucket b) = 0"
| "occurrences a (Custom n) = 0"
| "occurrences a (LChain ls) = sum_list (map (occurrences a) ls)"

definition charge_budgets :: "int \<Rightarrow> (addr \<Rightarrow> nat) \<Rightarrow> (addr \<rightharpoonup> budget) \<Rightarrow> (addr \<rightharpoonup> budget)" where
  "charge_budgets u f m =
     (\<lambda>a. map_option (\<lambda>b. b\<lparr>b_remaining := b_remaining b - u * int (f a)\<rparr>) (m a))"

definition budgets_ok :: "(addr \<rightharpoonup> budget) \<Rightarrow> bool" where
  "budgets_ok m \<longleftrightarrow> (\<forall>a b. m a = Some b \<longrightarrow> budget_ok b)"

lemma charge_budgets_zero [simp]: "charge_budgets u (\<lambda>a. 0) m = m"
  by (auto simp: charge_budgets_def option.map_ident fun_eq_iff)

lemma charge_budgets_add:
  "charge_budgets u g (charge_budgets u f m) = charge_budgets u (\<lambda>a. f a + g a) m"
  by (auto simp: charge_budgets_def fun_eq_iff option.map_comp o_def algebra_simps)

lemma budget_Reserve_charge:
  assumes "budget_Reserve a u w = (Inr r, w')"
  shows "budgets w' = charge_budgets u (\<lambda>x. occurrences x (LBudget a)) (budgets w)
    \<and> (budgets_ok (budgets w) \<longrightarrow> budgets_ok (budgets w'))"
proof -
  from assms obtain b where b: "budgets w a = Some b" "1 \<le> u" "u \<le> b_remaining b"
    "budgets w' = (budgets w)(a \<mapsto> b\<lparr>b_remaining := b_remaining b - u\<rparr>)"
    by (auto elim: budget_Reserve_Inr)
  have "budgets w' = charge_budgets u (\<lambda>x. occurrences x (LBudget a)) (budgets w)"
    using b by (auto simp: charge_budgets_def fun_eq_iff option.map_ident)
  moreover have "budgets_ok (budgets w) \<longrightarrow> budgets_ok (budgets w')"
    using b by (auto simp: budgets_ok_def budget_ok_def split: if_splits) force
  ultimately show ?thesis by blast
qed

lemma limiter_Reserve_charge:
  "limiter_Reserve cw l u w evs = Some (Inr r, w', evs') \<Longrightarrow>
     budgets w' = charge_budgets u (\<lambda>a. occurrences a l) (budgets w)
     \<and> (budgets_ok (budgets w) \<longrightarrow> budgets_ok (budgets w'))"
  "chain_loop cw i ls rs u w evs = Some (Inr r, w', evs') \<Longrightarrow>
     budgets w' = charge_budgets u (\<lambda>a. occurrences a (LChain ls)) (budgets w)
     \<and> (budgets_ok (budgets w) \<longrightarrow> budgets_ok (budgets w'))"
proof (induction cw l u w evs and cw i ls rs u w evs arbitrary: r w' evs' and r w' evs'
    rule: limiter_Reserve_chain_loop.induct)
  case (1 cw a u w evs)
  then show ?case by (auto dest: budget_Reserve_charge split: prod.splits)
next
  case (2 cw a u w evs)
  then have "budgets w' = budgets w" by (simp add: bucket_Reserve_frame(1))
  then show ?case by simp
next
  case (6 cw i l ls rs u w evs)
  show ?case
  proof (cases "is_reservable l")
    case True
    with "6.prems" obtain r1 w1 evs1
      where one: "limiter_Reserve cw l u w evs = Some (Inr r1, w1, evs1)"
        and rest: "chain_loop cw (Suc i) ls (rs @ [r1]) u w1 evs1 = Some (Inr r, w', evs')"
      by (auto split: option.splits sum.splits)
    from "6.IH"(1) [OF True one] "6.IH"(2) [OF True one refl refl refl rest]
    show ?thesis by (auto simp: charge_budgets_add)
  next
    case False
    then obtain n where l: "l = Custom n" by (cases l) auto
    with "6.prems" False obtain w1 where one: "custom_Wait cw n u w = (None, w1)"
        and rest: "chain_loop cw (Suc i) ls rs u w1 evs = Some (Inr r, w', evs')"
      by (auto split: option.splits prod.splits)
    from "6.IH"(3) [OF False l one [symmetric] refl rest] custom_Wait_budgets [OF one] l
    show ?thesis by auto
  qed
qed auto

section \<open>Properties\<close>

text \<open>C5. Admission through any limiter (a budget, a bucket, or nested chains of them with
  callers' own limiters in between) is all or nothing for the budgets: when it is refused,
  every budget is as it was; when it is admitted, every budget is charged the units once
  for each place it stands in the limiter, and none goes below zero.\<close>

theorem admission_all_or_nothing:
  assumes "limiter_Wait cw l u w evs = Some (r, w', evs')"
  shows "(r \<noteq> None \<longrightarrow> budgets w' = budgets w)
    \<and> (r = None \<longrightarrow> budgets w' = charge_budgets u (\<lambda>a. occurrences a l) (budgets w))
    \<and> (budgets_ok (budgets w) \<longrightarrow> budgets_ok (budgets w'))"
proof (cases "is_reservable l")
  case False
  with assms obtain n where "custom_Wait cw n u w = (r, w')" and "l = Custom n"
    by (cases l) (auto simp: limiter_Wait_def split: prod.splits)
  with custom_Wait_budgets [OF this(1)] show ?thesis by simp
next
  case True
  with assms obtain res where res: "limiter_Reserve cw l u w evs = Some (res, w', evs')"
    and r: "r = (case res of Inl e \<Rightarrow> Some e | Inr _ \<Rightarrow> None)"
    by (cases l) (auto simp: limiter_Wait_def split: option.splits sum.splits)
  show ?thesis
  proof (cases res)
    case (Inl e)
    with res have "budgets w' = budgets w" by (auto dest: limiter_lim.refusal_keeps)
    with Inl r show ?thesis by simp
  next
    case (Inr g)
    with res have granted: "limiter_Reserve cw l u w evs = Some (Inr g, w', evs')" by simp
    from limiter_Reserve_charge(1) [OF granted] Inr r show ?thesis by auto
  qed
qed

text \<open>The witness is \<open>Chain(budget, rejectingLimiter)\<close> of the package's tests.\<close>

definition rejecting :: "unit custom_wait" where
  "rejecting n c u s = (Some (Foreign ''refused''), s)"

definition chain_world :: "unit lworld" where
  "chain_world = \<lparr>budgets = [0 \<mapsto> sample_budget], buckets = Map.empty, lctx = None, custom = ()\<rparr>"

theorem admission_all_or_nothing_witness:
  "\<exists>w' e. limiter_Wait rejecting (Chain [Some (LBudget 0), None, Some (Custom 7)]) 1 chain_world []
      = Some (Some e, w', []) \<and> budgets w' = budgets chain_world"
proof -
  let ?l = "Chain [Some (LBudget 0), None, Some (Custom 7)]"
  obtain w' e where "limiter_Wait rejecting ?l 1 chain_world [] = Some (Some e, w', [])"
    by (simp add: limiter_Wait_def Chain_def map_filter_simps chain_world_def sample_budget_def
        budget_Reserve_def custom_Wait_def rejecting_def)
  with admission_all_or_nothing [OF this] show ?thesis by blast
qed

end
