(* ===== verification/Resource_Plan.thy ===== *)
theory Resource_Plan
  imports Go_Float Limiter_Chain "HOL-Library.AList"
begin

text \<open>
  Resource plans and their monetary preflight, \<open>src/execution/resource_plan.go\<close>.

  A map of limiters or budgets is an association list. A budget is a pointer to a fresh
  object: \<open>NewResourceBudgets\<close> takes the address the first new budget gets, and the others
  follow it; nothing else is at these addresses (\<open>fresh_from\<close>). The budgets exist in the
  store only when the call succeeds, since no one can reach them otherwise. The two
  amounts that a refusal over cost prints are not kept in its error value.
\<close>

record resource_plan =
  rp_Name :: string
  rp_Ceiling :: int
  rp_Budget :: int
  rp_UnitUSD :: "float64 option"

record cost_preflight =
  EstimatedUSD :: float64
  MissingPrices :: "string list"

definition invalid_usd :: "float64 \<Rightarrow> bool" where
  "invalid_usd v \<longleftrightarrow> IsNaN v \<or> IsInf v \<or> fless v (Fin 0)"

definition invalid_price :: "float64 option \<Rightarrow> bool" where
  "invalid_price p \<longleftrightarrow> (case p of None \<Rightarrow> False | Some v \<Rightarrow> invalid_usd v)"

definition plan_cost :: "int \<Rightarrow> float64 \<Rightarrow> float64" where
  "plan_cost ceiling unit = fmul (float_of_int ceiling) unit"

text \<open>The loop of \<open>ValidateResourcePlans\<close>: the index, the names seen, the preflight so far.
  An error comes with the preflight that was computed up to it, as the code returns it.\<close>

fun validate_loop :: "bool \<Rightarrow> nat \<Rightarrow> resource_plan list \<Rightarrow> string set \<Rightarrow> cost_preflight \<Rightarrow>
    cost_preflight \<times> err option" where
  "validate_loop partial i [] seen pre = (pre, None)"
| "validate_loop partial i (p # ps) seen pre =
     (if TrimSpace (rp_Name p) = []
      then (pre, Some (Errorf ''resource plan %d: name is required'' [FInt (int i)] None))
      else if rp_Name p \<in> seen
      then (pre, Some (Errorf ''resource plan %q is duplicated'' [FStr (rp_Name p)] None))
      else if rp_Ceiling p < 0
      then (pre, Some (Errorf ''resource %q ceiling must be non-negative'' [FStr (rp_Name p)] None))
      else if rp_Budget p < 0
      then (pre, Some (Errorf ''resource %q budget must be non-negative'' [FStr (rp_Name p)] None))
      else if \<not> partial \<and> rp_Budget p < rp_Ceiling p
      then (pre, Some (Errorf ''resource %q budget %d cannot cover ceiling %d''
                         [FStr (rp_Name p), FInt (rp_Budget p), FInt (rp_Ceiling p)] None))
      else if invalid_price (rp_UnitUSD p)
      then (pre, Some (Errorf ''resource %q unit price must be finite and non-negative'' [FStr (rp_Name p)] None))
      else let seen' = insert (rp_Name p) seen in
        if rp_Ceiling p = 0 then validate_loop partial (Suc i) ps seen' pre
        else case rp_UnitUSD p of
            None \<Rightarrow> validate_loop partial (Suc i) ps seen'
                      (pre\<lparr>MissingPrices := MissingPrices pre @ [rp_Name p]\<rparr>)
          | Some v \<Rightarrow> validate_loop partial (Suc i) ps seen'
                        (pre\<lparr>EstimatedUSD := fadd (EstimatedUSD pre) (plan_cost (rp_Ceiling p) v)\<rparr>))"

definition ValidateResourcePlans :: "resource_plan list \<Rightarrow> float64 \<Rightarrow> bool \<Rightarrow> bool \<Rightarrow>
    cost_preflight \<times> err option" where
  "ValidateResourcePlans plans maximumUSD allowUnpriced allowPartial =
     (let pre = \<lparr>EstimatedUSD = Fin 0, MissingPrices = []\<rparr> in
      if invalid_usd maximumUSD
      then (pre, Some (Errorf ''maximum USD must be finite and non-negative'' [] None))
      else case validate_loop allowPartial 0 plans {} pre of
          (pre', Some e) \<Rightarrow> (pre', Some e)
        | (pre', None) \<Rightarrow>
            if MissingPrices pre' \<noteq> [] \<and> \<not> allowUnpriced
            then (pre', Some (Errorf ''pricing unavailable for %s'' (map FStr (MissingPrices pre')) None))
            else if fless maximumUSD (EstimatedUSD pre')
            then (pre', Some (Errorf ''estimated provider cost %.6f exceeds maximum USD %.6f'' [] None))
            else (pre', None))"

section \<open>Budgets and limiters of a list of plans\<close>

definition fresh_from :: "addr \<Rightarrow> 'c lworld \<Rightarrow> bool" where
  "fresh_from a w \<longleftrightarrow> (\<forall>b \<ge> a. budgets w b = None)"

fun budgets_loop :: "(string \<times> limiter) list \<Rightarrow> addr \<Rightarrow> nat \<Rightarrow> resource_plan list \<Rightarrow>
    (string \<times> addr) list \<times> (string \<times> limiter) list \<times> 'c lworld \<Rightarrow>
    ((string \<times> addr) list \<times> (string \<times> limiter) list \<times> 'c lworld) result" where
  "budgets_loop rates a i [] acc = Inr acc"
| "budgets_loop rates a i (p # ps) (bs, ls, w) =
     (if TrimSpace (rp_Name p) = []
      then Inl (Errorf ''resource plan %d: name is required'' [FInt (int i)] None)
      else if map_of bs (rp_Name p) \<noteq> None
      then Inl (Errorf ''resource plan %q is duplicated'' [FStr (rp_Name p)] None)
      else case NewBudget (rp_Budget p) of
          Inl e \<Rightarrow> Inl (Errorf ''create resource %q budget: %w'' [FStr (rp_Name p)] (Some e))
        | Inr b \<Rightarrow>
            budgets_loop rates (Suc a) (Suc i) ps
              (AList.update (rp_Name p) a bs,
               AList.update (rp_Name p) (Chain [Some (LBudget a), map_of rates (rp_Name p)]) ls,
               w\<lparr>budgets := (budgets w)(a \<mapsto> b)\<rparr>))"

definition NewResourceBudgets :: "resource_plan list \<Rightarrow> (string \<times> limiter) list \<Rightarrow> addr \<Rightarrow> 'c lworld \<Rightarrow>
    ((string \<times> addr) list \<times> (string \<times> limiter) list) result \<times> 'c lworld" where
  "NewResourceBudgets plans rates a w =
     (case budgets_loop rates a 0 plans ([], [], w) of
        Inl e \<Rightarrow> (Inl e, w)
      | Inr (bs, ls, w') \<Rightarrow>
          (case filter (\<lambda>(name, _). map_of bs name = None) rates of
             [] \<Rightarrow> (Inr (bs, ls), w')
           | (name, _) # _ \<Rightarrow>
               (Inl (Errorf ''rate limiter has no resource plan %q'' [FStr name] None), w)))"

end
