(* ===== verification/Run_Env.thy ===== *)
theory Run_Env
  imports Resource_Plan Policy
begin

text \<open>
  The admission environment of a run: \<open>runEnv\<close> and the methods of \<open>Options\<close> over it
  (\<open>src/flow/run.go\<close>), and \<open>Resource.plan\<close> of \<open>src/flow/policy.go\<close>.

  \<open>run_env\<close> has the fields of the struct; \<open>e_next\<close> is the first address that is free
  for a new budget. \<open>ensure\<close> registers plans as a transaction: its loop works on the
  \<open>prospective\<close> copies and a list of pending plans, and the environment changes only at
  the end. \<open>admit\<close> reserves one unit of every named resource as a transaction; its
  proofs are those of the locale \<open>reservable\<close>, instantiated at the limiters.
\<close>

type_synonym flow_resource = "float64 resource"

record preflight =
  MaxEstimatedUSD :: float64
  AllowUnpriced :: bool
  AllowPartial :: bool

record stage_plan =
  sp_step :: string
  sp_resource :: flow_resource

definition plan_of :: "flow_resource \<Rightarrow> resource_plan" where
  "plan_of r = \<lparr>rp_Name = rs_Name r, rp_Ceiling = rs_Ceiling r, rp_Budget = rs_Budget r,
                rp_UnitUSD = rs_UnitUSD r\<rparr>"

record run_env =
  e_gate :: "preflight option"
  e_plans :: "(string \<times> resource_plan) list"
  e_owners :: "(string \<times> string) list"
  e_budgets :: "(string \<times> addr) list"
  e_limiters :: "(string \<times> limiter) list"
  e_rates :: "(string \<times> limiter) list"
  e_usd :: float64
  e_unpriced :: "string list"
  e_next :: addr

definition newRunEnv :: "(string \<times> limiter) list \<Rightarrow> preflight option \<Rightarrow> addr \<Rightarrow> run_env" where
  "newRunEnv rates gate a =
     \<lparr>e_gate = gate, e_plans = [], e_owners = [], e_budgets = [], e_limiters = [], e_rates = rates,
      e_usd = Fin 0, e_unpriced = [], e_next = a\<rparr>"

definition resourcePlansEqual :: "resource_plan \<Rightarrow> resource_plan \<Rightarrow> bool" where
  "resourcePlansEqual l r \<longleftrightarrow>
     rp_Name l = rp_Name r \<and> rp_Ceiling l = rp_Ceiling r \<and> rp_Budget l = rp_Budget r \<and>
     (case (rp_UnitUSD l, rp_UnitUSD r) of
        (Some a, Some b) \<Rightarrow> feq a b
      | (None, None) \<Rightarrow> True
      | _ \<Rightarrow> False)"

section \<open>ensure\<close>

text \<open>The local variables of \<open>ensure\<close>: the prospective maps and sums, and the pending plans,
  each with its stage and its new budget.\<close>

record ensure_state =
  pr_plans :: "(string \<times> resource_plan) list"
  pr_owners :: "(string \<times> string) list"
  pr_usd :: float64
  pr_unpriced :: "string list"
  pr_pending :: "(stage_plan \<times> budget) list"

definition is_reference :: "flow_resource \<Rightarrow> bool" where
  "is_reference r \<longleftrightarrow> rs_Ceiling r = 0 \<and> rs_Budget r = 0 \<and> rs_UnitUSD r = None"

text \<open>The checks of one plan that is not registered yet, in their order.\<close>

definition check_plan :: "preflight option \<Rightarrow> string \<Rightarrow> flow_resource \<Rightarrow> err option" where
  "check_plan gate step r =
     (let name = rs_Name r in
      if rs_Ceiling r < 0
      then Some (Errorf ''step %q: resource %q ceiling must be non-negative'' [FStr step, FStr name] None)
      else if rs_Budget r < 0
      then Some (Errorf ''step %q: resource %q budget must be non-negative'' [FStr step, FStr name] None)
      else if invalid_price (rs_UnitUSD r)
      then Some (Errorf ''step %q: resource %q unit price must be finite and non-negative''
                   [FStr step, FStr name] None)
      else case gate of
          None \<Rightarrow> None
        | Some g \<Rightarrow>
            if \<not> AllowPartial g \<and> rs_Budget r < rs_Ceiling r
            then Some (Errorf ''step %q: resource %q budget %d cannot cover the stated ceiling of %d calls; raise the budget to at least %d (cache hits are free)''
                         [FStr step, FStr name, FInt (rs_Budget r), FInt (rs_Ceiling r), FInt (rs_Ceiling r)] None)
            else None)"

definition price_plan :: "flow_resource \<Rightarrow> ensure_state \<Rightarrow> ensure_state" where
  "price_plan r s =
     (if 0 < rs_Ceiling r
      then (case rs_UnitUSD r of
              None \<Rightarrow> s\<lparr>pr_unpriced := pr_unpriced s @ [rs_Name r]\<rparr>
            | Some v \<Rightarrow> s\<lparr>pr_usd := fadd (pr_usd s) (plan_cost (rs_Ceiling r) v)\<rparr>)
      else s)"

fun ensure_loop :: "preflight option \<Rightarrow> stage_plan list \<Rightarrow> ensure_state \<Rightarrow> ensure_state result" where
  "ensure_loop gate [] s = Inr s"
| "ensure_loop gate (p # ps) s =
     (let r = sp_resource p; name = rs_Name r; step = sp_step p in
      if TrimSpace name = []
      then Inl (Errorf ''step %q declares an admission resource without a name'' [FStr step] None)
      else case map_of (pr_plans s) name of
          Some existing \<Rightarrow>
            if is_reference r \<or> resourcePlansEqual existing (plan_of r) then ensure_loop gate ps s
            else Inl (Errorf ''resource %q is declared differently by steps %q and %q''
                   [FStr name, FStr (case map_of (pr_owners s) name of None \<Rightarrow> [] | Some t \<Rightarrow> t), FStr step] None)
        | None \<Rightarrow>
            (case check_plan gate step r of
               Some e \<Rightarrow> Inl e
             | None \<Rightarrow>
                 let s1 = price_plan r s in
                 case NewBudget (rs_Budget r) of
                   Inl e \<Rightarrow> Inl (Errorf ''step %q: create resource %q budget: %w'' [FStr step, FStr name] (Some e))
                 | Inr b \<Rightarrow>
                     ensure_loop gate ps
                       (s1\<lparr>pr_plans := AList.update name (plan_of r) (pr_plans s1),
                           pr_owners := AList.update name step (pr_owners s1),
                           pr_pending := pr_pending s1 @ [(p, b)]\<rparr>)))"

text \<open>The last loop: every pending plan is entered, with its budget at the next free address.\<close>

fun register :: "(stage_plan \<times> budget) list \<Rightarrow> run_env \<times> 'c lworld \<Rightarrow> run_env \<times> 'c lworld" where
  "register [] ew = ew"
| "register ((p, b) # ps) (env, w) =
     (let name = rs_Name (sp_resource p); a = e_next env in
      register ps
        (env\<lparr>e_plans := AList.update name (plan_of (sp_resource p)) (e_plans env),
             e_owners := AList.update name (sp_step p) (e_owners env),
             e_budgets := AList.update name a (e_budgets env),
             e_limiters := AList.update name (Chain [Some (LBudget a), map_of (e_rates env) name]) (e_limiters env),
             e_next := Suc a\<rparr>,
         w\<lparr>budgets := (budgets w)(a \<mapsto> b)\<rparr>))"

definition gate_check :: "preflight option \<Rightarrow> ensure_state \<Rightarrow> err option" where
  "gate_check gate s =
     (case gate of
        None \<Rightarrow> None
      | Some g \<Rightarrow>
          if pr_unpriced s \<noteq> [] \<and> \<not> AllowUnpriced g
          then Some (Errorf ''preflight refused the plans: pricing unavailable for %s'' (map FStr (pr_unpriced s)) None)
          else if fless (MaxEstimatedUSD g) (pr_usd s)
          then Some (Errorf ''preflight refused the plans: estimated provider cost %.6f exceeds maximum USD %.6f'' [] None)
          else None)"

definition ensure_start :: "run_env \<Rightarrow> ensure_state" where
  "ensure_start env =
     \<lparr>pr_plans = e_plans env, pr_owners = e_owners env, pr_usd = e_usd env,
      pr_unpriced = e_unpriced env, pr_pending = []\<rparr>"

definition ensure :: "stage_plan list \<Rightarrow> run_env \<Rightarrow> 'c lworld \<Rightarrow> err option \<times> run_env \<times> 'c lworld" where
  "ensure plans env w =
     (if (case e_gate env of None \<Rightarrow> False | Some g \<Rightarrow> invalid_usd (MaxEstimatedUSD g))
      then (Some (Errorf ''preflight maximum USD must be finite and non-negative'' [] None), env, w)
      else case ensure_loop (e_gate env) plans (ensure_start env) of
          Inl e \<Rightarrow> (Some e, env, w)
        | Inr s \<Rightarrow>
            (case gate_check (e_gate env) s of
               Some e \<Rightarrow> (Some e, env, w)
             | None \<Rightarrow>
                 (case register (pr_pending s) (env, w) of
                    (env', w') \<Rightarrow> (None, env'\<lparr>e_usd := pr_usd s, e_unpriced := pr_unpriced s\<rparr>, w'))))"

section \<open>Reading and admitting\<close>

definition env_limiter :: "run_env \<Rightarrow> string \<Rightarrow> limiter option" where
  "env_limiter env name = map_of (e_limiters env) name"

definition zero_plan :: resource_plan where
  "zero_plan = \<lparr>rp_Name = [], rp_Ceiling = 0, rp_Budget = 0, rp_UnitUSD = None\<rparr>"

definition env_plan :: "run_env \<Rightarrow> string \<Rightarrow> resource_plan" where
  "env_plan env name = (case map_of (e_plans env) name of None \<Rightarrow> zero_plan | Some p \<Rightarrow> p)"

definition budget_at :: "run_env \<Rightarrow> 'c lworld \<Rightarrow> string \<Rightarrow> budget option" where
  "budget_at env w name = (case map_of (e_budgets env) name of None \<Rightarrow> None | Some a \<Rightarrow> budgets w a)"

definition allSnapshots :: "run_env \<Rightarrow> 'c lworld \<Rightarrow> (string \<times> budget_snapshot) list" where
  "allSnapshots env w = map (\<lambda>(name, a). (name, budget_Snapshot (budgets w a))) (e_budgets env)"

fun env_snapshot :: "run_env \<Rightarrow> 'c lworld \<Rightarrow> string list \<Rightarrow> (string \<times> budget_snapshot) list" where
  "env_snapshot env w [] = []"
| "env_snapshot env w (name # names) =
     AList.update name (budget_Snapshot (budget_at env w name)) (env_snapshot env w names)"

definition env_cost :: "run_env \<Rightarrow> cost_preflight" where
  "env_cost env = \<lparr>EstimatedUSD = e_usd env, MissingPrices = e_unpriced env\<rparr>"

text \<open>The loop of \<open>admit\<close> with the reservations so far; \<open>None\<close> when a wait does not end
  within the schedule. On an error it returns the name of the resource.\<close>

fun admit_loop :: "'c custom_wait \<Rightarrow> run_env \<Rightarrow> string list \<Rightarrow> reservation list \<Rightarrow> int \<Rightarrow> 'c lworld \<Rightarrow>
    wait_event list \<Rightarrow> ((string \<times> err option) \<times> 'c lworld \<times> wait_event list) option" where
  "admit_loop cw env [] rs u w evs = (let _ = map Commit rs in Some (([], None), w, evs))"
| "admit_loop cw env (name # names) rs u w evs =
     (case env_limiter env name of
        None \<Rightarrow> Some ((name, Some (Errorf ''resource has no admitted limiter'' [] None)),
                      snd (rollback_all rs w), evs)
      | Some l \<Rightarrow>
          if is_reservable l then
            (case limiter_Reserve cw l u w evs of
               None \<Rightarrow> None
             | Some (Inl e, w', evs') \<Rightarrow> Some ((name, Some e), snd (rollback_all rs w'), evs')
             | Some (Inr r, w', evs') \<Rightarrow> admit_loop cw env names (rs @ [r]) u w' evs')
          else
            (case limiter_Wait cw l u w evs of
               None \<Rightarrow> None
             | Some (Some e, w', evs') \<Rightarrow> Some ((name, Some e), snd (rollback_all rs w'), evs')
             | Some (None, w', evs') \<Rightarrow> admit_loop cw env names rs u w' evs'))"

definition admit :: "'c custom_wait \<Rightarrow> run_env \<Rightarrow> string list \<Rightarrow> int \<Rightarrow> 'c lworld \<Rightarrow> wait_event list \<Rightarrow>
    ((string \<times> err option) \<times> 'c lworld \<times> wait_event list) option" where
  "admit cw env names u w evs = admit_loop cw env names [] u w evs"

section \<open>The methods of Options\<close>

text \<open>The part of \<open>Options\<close> these methods touch: the shared environment, the rates and the
  gate. \<open>Share\<close> makes an environment whose budgets start at the given free address.\<close>

record env_options =
  oe_env :: "run_env option"
  oe_rates :: "(string \<times> limiter) list"
  oe_gate :: "preflight option"

definition Share :: "addr \<Rightarrow> env_options \<Rightarrow> env_options" where
  "Share a opts =
     (case oe_env opts of
        None \<Rightarrow> opts\<lparr>oe_env := Some (newRunEnv (oe_rates opts) (oe_gate opts) a)\<rparr>
      | Some _ \<Rightarrow> opts)"

definition Declare :: "string \<Rightarrow> flow_resource list \<Rightarrow> env_options \<Rightarrow> 'c lworld \<Rightarrow>
    err option \<times> env_options \<times> 'c lworld" where
  "Declare step rs opts w =
     (case oe_env opts of
        None \<Rightarrow> (Some (Errorf ''Declare needs shared Options: call Share() first'' [] None), opts, w)
      | Some env \<Rightarrow>
          (case ensure (map (\<lambda>r. \<lparr>sp_step = step, sp_resource = r\<rparr>) rs) env w of
             (e, env', w') \<Rightarrow> (e, opts\<lparr>oe_env := Some env'\<rparr>, w')))"

definition Options_Limiter :: "env_options \<Rightarrow> string \<Rightarrow> limiter option" where
  "Options_Limiter opts name = (case oe_env opts of None \<Rightarrow> None | Some env \<Rightarrow> env_limiter env name)"

definition Snapshots :: "env_options \<Rightarrow> 'c lworld \<Rightarrow> (string \<times> budget_snapshot) list" where
  "Snapshots opts w = (case oe_env opts of None \<Rightarrow> [] | Some env \<Rightarrow> allSnapshots env w)"

definition Options_Cost :: "env_options \<Rightarrow> cost_preflight" where
  "Options_Cost opts =
     (case oe_env opts of
        None \<Rightarrow> \<lparr>EstimatedUSD = Fin 0, MissingPrices = []\<rparr>
      | Some env \<Rightarrow> env_cost env)"

section \<open>Admission is a transaction\<close>

definition named_occurrences :: "run_env \<Rightarrow> addr \<Rightarrow> string \<Rightarrow> nat" where
  "named_occurrences env a name =
     (case env_limiter env name of None \<Rightarrow> 0 | Some l \<Rightarrow> occurrences a l)"

lemma limiter_Wait_Custom:
  assumes "\<not> is_reservable l" and "limiter_Wait cw l u w evs = Some (r, w', evs')"
  shows "budgets w' = budgets w" and "occurrences a l = 0"
proof -
  from assms(1) obtain n where l: "l = Custom n" by (cases l) auto
  with assms(2) have "custom_Wait cw n u w = (r, w')"
    by (auto simp: limiter_Wait_def split: prod.splits)
  then show "budgets w' = budgets w" by (rule custom_Wait_budgets)
  show "occurrences a l = 0" by (simp add: l)
qed

lemma admit_loop_refusal:
  "admit_loop cw env names rs u w evs = Some ((n, Some e), w', evs') \<Longrightarrow>
     limiter_lim.undoes rs w w0 \<Longrightarrow> budgets w' = budgets w0"
proof (induction cw env names rs u w evs rule: admit_loop.induct)
  case (2 cw env name names rs u w evs)
  show ?case
  proof (cases "env_limiter env name")
    case None
    with "2.prems" show ?thesis by (auto simp: limiter_lim.undoes_def)
  next
    case (Some l)
    show ?thesis
    proof (cases "is_reservable l")
      case True
      with "2.prems"(1) Some obtain res w1 evs1
        where one: "limiter_Reserve cw l u w evs = Some (res, w1, evs1)"
        by (auto split: option.splits)
      show ?thesis
      proof (cases res)
        case (Inl d)
        then have "budgets (snd (rollback_all rs w1)) = budgets w0"
          using one "2.prems"(2) by (auto intro: limiter_lim.undoes_refusal)
        then show ?thesis using "2.prems"(1) Some True one Inl by auto
      next
        case (Inr r)
        then have "limiter_lim.undoes (rs @ [r]) w1 w0"
          using one "2.prems"(2) by (auto intro: limiter_lim.undoes_grant)
        then show ?thesis
          using "2.IH"(1) [OF Some True one refl Inr refl] "2.prems"(1) Some True one Inr by simp
      qed
    next
      case False
      with "2.prems"(1) Some obtain r w1 evs1
        where one: "limiter_Wait cw l u w evs = Some (r, w1, evs1)"
        by (auto split: option.splits)
      have keep: "limiter_lim.undoes rs w1 w0"
        using "2.prems"(2) limiter_Wait_Custom(1) [OF False one] by (rule limiter_lim.undoes_same_budgets)
      show ?thesis
      proof (cases r)
        case None
        then show ?thesis
          using "2.IH"(2) [OF Some False one refl None] keep "2.prems"(1) Some False one by simp
      next
        case (Some d)
        then show ?thesis using keep "2.prems"(1) \<open>env_limiter env name = Some l\<close> False one
          by (auto simp: limiter_lim.undoes_def)
      qed
    qed
  qed
qed simp

lemma admit_loop_grant:
  "admit_loop cw env names rs u w evs = Some ((n, None), w', evs') \<Longrightarrow>
     budgets w' = charge_budgets u (\<lambda>a. sum_list (map (named_occurrences env a) names)) (budgets w)
     \<and> (budgets_ok (budgets w) \<longrightarrow> budgets_ok (budgets w'))
     \<and> (\<forall>name \<in> set names. env_limiter env name \<noteq> None)"
proof (induction cw env names rs u w evs rule: admit_loop.induct)
  case (2 cw env name names rs u w evs)
  then obtain l where l: "env_limiter env name = Some l" by (auto split: option.splits)
  show ?case
  proof (cases "is_reservable l")
    case True
    with "2.prems" l obtain r w1 evs1
      where one: "limiter_Reserve cw l u w evs = Some (Inr r, w1, evs1)"
        and rest: "admit_loop cw env names (rs @ [r]) u w1 evs1 = Some ((n, None), w', evs')"
      by (auto split: option.splits sum.splits)
    from "2.IH"(1) [OF l True one refl refl refl rest] limiter_Reserve_charge(1) [OF one] l
    show ?thesis by (auto simp: charge_budgets_add named_occurrences_def)
  next
    case False
    with "2.prems" l obtain w1 evs1 where one: "limiter_Wait cw l u w evs = Some (None, w1, evs1)"
        and rest: "admit_loop cw env names rs u w1 evs1 = Some ((n, None), w', evs')"
      by (auto split: option.splits)
    from "2.IH"(2) [OF l False one refl refl refl rest] limiter_Wait_Custom [OF False one] l
    show ?thesis by (auto simp: named_occurrences_def)
  qed
qed simp

text \<open>C12. Admission of a work call is a transaction over all its resources: when any of
  them refuses (or is not registered), no budget is charged; when all admit, every budget
  is charged the units once for each place it stands in the limiters of the named resources,
  all of which are registered, and no budget goes below zero or above its limit.\<close>

theorem work_admission_transaction:
  assumes "admit cw env names u w evs = Some ((name, r), w', evs')"
  shows "(r \<noteq> None \<longrightarrow> budgets w' = budgets w)
    \<and> (r = None \<longrightarrow> (\<forall>n \<in> set names. env_limiter env n \<noteq> None) \<and>
         budgets w' = charge_budgets u (\<lambda>a. sum_list (map (named_occurrences env a) names)) (budgets w))
    \<and> (budgets_ok (budgets w) \<longrightarrow> budgets_ok (budgets w'))"
proof (cases r)
  case None
  then show ?thesis using admit_loop_grant assms unfolding admit_def by blast
next
  case (Some e)
  then have "budgets w' = budgets w"
    using admit_loop_refusal [OF _ limiter_lim.undoes_start] assms unfolding admit_def by blast
  then show ?thesis using Some by simp
qed

theorem work_admission_transaction_witness:
  "\<exists>env w r w'. ensure [\<lparr>sp_step = ''s'', sp_resource =
        \<lparr>rs_Name = ''calls'', rs_Ceiling = 2, rs_Budget = 1, rs_UnitUSD = None\<rparr>\<rparr>]
        (newRunEnv [] None 0) \<lparr>budgets = Map.empty, buckets = Map.empty, lctx = None, custom = ()\<rparr>
        = (None, env, w)
     \<and> admit rejecting env [''calls'', ''other''] 1 w [] = Some ((''other'', Some r), w', [])
     \<and> budgets w' = budgets w"
proof -
  let ?p = "\<lparr>sp_step = ''s'', sp_resource =
        \<lparr>rs_Name = ''calls'', rs_Ceiling = 2, rs_Budget = 1, rs_UnitUSD = None\<rparr>\<rparr>"
  let ?w = "\<lparr>budgets = Map.empty, buckets = Map.empty, lctx = None, custom = ()\<rparr> :: unit lworld"
  have trim: "TrimSpace ''calls'' \<noteq> []" by code_simp
  obtain env w where ens: "ensure [?p] (newRunEnv [] None 0) ?w = (None, env, w)"
    and lim: "env_limiter env ''calls'' = Some (Chain [Some (LBudget 0), None])"
      "env_limiter env ''other'' = None"
    and b: "budgets w 0 = Some \<lparr>b_limit = 1, b_remaining = 1\<rparr>" and c: "lctx w = None"
    using trim by (simp add: ensure_def newRunEnv_def ensure_start_def check_plan_def
        invalid_price_def price_plan_def NewBudget_def gate_check_def env_limiter_def Let_def)
  obtain r w' where adm: "admit rejecting env [''calls'', ''other''] 1 w [] = Some ((''other'', Some r), w', [])"
    using lim b c by (simp add: admit_def Chain_def map_filter_simps budget_Reserve_def)
  from work_admission_transaction [OF this] ens adm show ?thesis by blast
qed

section \<open>The environment stays sound\<close>

text \<open>What every registered plan satisfies, and what the gate has approved.\<close>

definition plan_ok :: "preflight option \<Rightarrow> string list \<Rightarrow> resource_plan \<Rightarrow> bool" where
  "plan_ok gate unpriced p \<longleftrightarrow>
     TrimSpace (rp_Name p) \<noteq> [] \<and> 0 \<le> rp_Ceiling p \<and> 0 \<le> rp_Budget p \<and> \<not> invalid_price (rp_UnitUSD p) \<and>
     (\<forall>g. gate = Some g \<and> \<not> AllowPartial g \<longrightarrow> rp_Ceiling p \<le> rp_Budget p) \<and>
     (0 < rp_Ceiling p \<and> rp_UnitUSD p = None \<longrightarrow> rp_Name p \<in> set unpriced)"

definition gate_ok :: "preflight option \<Rightarrow> float64 \<Rightarrow> string list \<Rightarrow> bool" where
  "gate_ok gate usd unpriced \<longleftrightarrow>
     (\<forall>g. gate = Some g \<longrightarrow> \<not> fless (MaxEstimatedUSD g) usd \<and> (unpriced = [] \<or> AllowUnpriced g))"

text \<open>Every plan has a budget of its own, whose limit is the plan's, behind its limiter; no
  two names share one; and nothing is allocated from \<open>e_next\<close> on.\<close>

definition holds_budget :: "run_env \<Rightarrow> 'c lworld \<Rightarrow> string \<Rightarrow> resource_plan \<Rightarrow> addr \<Rightarrow> bool" where
  "holds_budget env w n p a \<longleftrightarrow>
     rp_Name p = n \<and> a < e_next env \<and>
     env_limiter env n = Some (Chain [Some (LBudget a), map_of (e_rates env) n]) \<and>
     (\<exists>b. budgets w a = Some b \<and> b_limit b = rp_Budget p \<and> budget_ok b)"

definition sound_with :: "string list \<Rightarrow> run_env \<Rightarrow> 'c lworld \<Rightarrow> bool" where
  "sound_with us env w \<longleftrightarrow>
     (\<forall>n p. map_of (e_plans env) n = Some p \<longrightarrow>
        plan_ok (e_gate env) us p \<and>
        (\<exists>a. map_of (e_budgets env) n = Some a \<and> holds_budget env w n p a)) \<and>
     (\<forall>n a. map_of (e_budgets env) n = Some a \<longrightarrow> map_of (e_plans env) n \<noteq> None) \<and>
     (\<forall>n m a. map_of (e_budgets env) n = Some a \<longrightarrow> map_of (e_budgets env) m = Some a \<longrightarrow> n = m) \<and>
     fresh_from (e_next env) w"

definition env_sound :: "run_env \<Rightarrow> 'c lworld \<Rightarrow> bool" where
  "env_sound env w \<longleftrightarrow> sound_with (e_unpriced env) env w"

text \<open>What the loop of \<open>ensure\<close> keeps: the prospective plans are the registered ones and the
  pending ones, and a pending plan has passed the checks under a name of its own.\<close>

abbreviation pending_name :: "stage_plan \<times> budget \<Rightarrow> string" where
  "pending_name pb \<equiv> rs_Name (sp_resource (fst pb))"

definition pending_ok :: "preflight option \<Rightarrow> string list \<Rightarrow> stage_plan \<times> budget \<Rightarrow> bool" where
  "pending_ok gate unpriced pb \<longleftrightarrow>
     plan_ok gate unpriced (plan_of (sp_resource (fst pb))) \<and>
     NewBudget (rs_Budget (sp_resource (fst pb))) = Inr (snd pb)"

definition loop_ok :: "run_env \<Rightarrow> ensure_state \<Rightarrow> bool" where
  "loop_ok env s \<longleftrightarrow>
     (\<forall>n. map_of (pr_plans s) n = None \<longleftrightarrow>
        map_of (e_plans env) n = None \<and> n \<notin> set (map pending_name (pr_pending s))) \<and>
     distinct (map pending_name (pr_pending s)) \<and>
     (\<forall>pb \<in> set (pr_pending s). map_of (e_plans env) (pending_name pb) = None \<and>
        pending_ok (e_gate env) (pr_unpriced s) pb) \<and>
     set (e_unpriced env) \<subseteq> set (pr_unpriced s)"

lemma plan_ok_mono: "plan_ok gate us p \<Longrightarrow> set us \<subseteq> set vs \<Longrightarrow> plan_ok gate vs p"
  by (auto simp: plan_ok_def)

lemma price_plan_frame:
  "pr_plans (price_plan r s) = pr_plans s" "pr_owners (price_plan r s) = pr_owners s"
  "pr_pending (price_plan r s) = pr_pending s" "set (pr_unpriced s) \<subseteq> set (pr_unpriced (price_plan r s))"
  by (auto simp: price_plan_def split: option.splits)

lemma checked_plan_ok:
  assumes "check_plan gate step r = None" and "TrimSpace (rs_Name r) \<noteq> []"
  shows "plan_ok gate (pr_unpriced (price_plan r s)) (plan_of r)"
  using assms
  by (auto simp: check_plan_def plan_ok_def plan_of_def price_plan_def Let_def
      split: if_splits option.splits)

lemma loop_ok_add:
  assumes ok: "loop_ok env s" and new: "map_of (pr_plans s) (rs_Name (sp_resource p)) = None"
    and check: "check_plan (e_gate env) (sp_step p) (sp_resource p) = None"
    and name: "TrimSpace (rs_Name (sp_resource p)) \<noteq> []"
    and b: "NewBudget (rs_Budget (sp_resource p)) = Inr b"
    and s': "s' = (price_plan (sp_resource p) s)
        \<lparr>pr_plans := AList.update (rs_Name (sp_resource p)) (plan_of (sp_resource p)) (pr_plans (price_plan (sp_resource p) s)),
         pr_owners := AList.update (rs_Name (sp_resource p)) (sp_step p) (pr_owners (price_plan (sp_resource p) s)),
         pr_pending := pr_pending (price_plan (sp_resource p) s) @ [(p, b)]\<rparr>"
  shows "loop_ok env s'"
proof -
  let ?n = "rs_Name (sp_resource p)"
  have fields: "pr_plans s' = AList.update ?n (plan_of (sp_resource p)) (pr_plans s)"
    "pr_pending s' = pr_pending s @ [(p, b)]"
    "pr_unpriced s' = pr_unpriced (price_plan (sp_resource p) s)"
    by (simp_all add: s' price_plan_frame)
  have more: "set (pr_unpriced s) \<subseteq> set (pr_unpriced s')"
    by (simp add: fields price_plan_frame)
  have fresh: "map_of (e_plans env) ?n = None" "?n \<notin> set (map pending_name (pr_pending s))"
    using ok new by (auto simp: loop_ok_def)
  have "pending_ok (e_gate env) (pr_unpriced s') (p, b)"
    using checked_plan_ok [OF check name] b by (simp add: pending_ok_def fields)
  moreover have "pending_ok (e_gate env) (pr_unpriced s') pb" if "pb \<in> set (pr_pending s)" for pb
    using ok that more unfolding loop_ok_def pending_ok_def by (blast intro: plan_ok_mono)
  ultimately show ?thesis
    using ok fresh more unfolding loop_ok_def fields by (auto simp: update_conv')
qed

lemma ensure_loop_ok:
  "ensure_loop (e_gate env) ps s = Inr s' \<Longrightarrow> loop_ok env s \<Longrightarrow>
     loop_ok env s' \<and> (\<forall>n. map_of (pr_plans s) n \<noteq> None \<longrightarrow> map_of (pr_plans s') n \<noteq> None) \<and>
     (\<forall>p \<in> set ps. map_of (pr_plans s') (rs_Name (sp_resource p)) \<noteq> None)"
proof (induction "e_gate env" ps s rule: ensure_loop.induct)
  case (2 p ps s)
  let ?r = "sp_resource p" and ?n = "rs_Name (sp_resource p)"
  from "2.prems"(1) have name: "TrimSpace ?n \<noteq> []" by (auto simp: Let_def split: if_splits)
  show ?case
  proof (cases "map_of (pr_plans s) ?n")
    case (Some existing)
    with "2.prems"(1) name have same: "is_reference ?r \<or> resourcePlansEqual existing (plan_of ?r)"
      and rest: "ensure_loop (e_gate env) ps s = Inr s'"
      by (auto simp: Let_def split: if_splits)
    from "2.hyps"(2) [OF refl refl refl name Some same rest "2.prems"(2)] Some show ?thesis by auto
  next
    case None
    with "2.prems"(1) name have check: "check_plan (e_gate env) (sp_step p) ?r = None"
      by (auto simp: Let_def split: if_splits option.splits)
    with None "2.prems"(1) name obtain b where b: "NewBudget (rs_Budget ?r) = Inr b"
      by (auto simp: Let_def split: if_splits option.splits sum.splits)
    let ?s1 = "price_plan ?r s"
    let ?s = "?s1\<lparr>pr_plans := AList.update ?n (plan_of ?r) (pr_plans ?s1),
                  pr_owners := AList.update ?n (sp_step p) (pr_owners ?s1),
                  pr_pending := pr_pending ?s1 @ [(p, b)]\<rparr>"
    have rest: "ensure_loop (e_gate env) ps ?s = Inr s'"
      using "2.prems"(1) name None check b by (simp add: Let_def)
    have "loop_ok env ?s" using "2.prems"(2) None check name b by (rule loop_ok_add) simp
    from "2.hyps"(1) [OF refl refl refl name None check refl b rest this]
    show ?thesis by (auto simp: update_conv' price_plan_frame)
  qed
qed simp

text \<open>Entering one pending plan.\<close>

definition enter :: "stage_plan \<Rightarrow> run_env \<Rightarrow> run_env" where
  "enter p env =
     (let name = rs_Name (sp_resource p); a = e_next env in
      env\<lparr>e_plans := AList.update name (plan_of (sp_resource p)) (e_plans env),
          e_owners := AList.update name (sp_step p) (e_owners env),
          e_budgets := AList.update name a (e_budgets env),
          e_limiters := AList.update name (Chain [Some (LBudget a), map_of (e_rates env) name]) (e_limiters env),
          e_next := Suc a\<rparr>)"

lemma register_Cons:
  "register ((p, b) # ps) (env, w) =
     register ps (enter p env, w\<lparr>budgets := (budgets w)(e_next env \<mapsto> b)\<rparr>)"
  by (simp add: enter_def Let_def)

lemma enter_fields:
  "e_gate (enter p env) = e_gate env" "e_rates (enter p env) = e_rates env"
  "e_next (enter p env) = Suc (e_next env)"
  "map_of (e_plans (enter p env)) = (map_of (e_plans env))(rs_Name (sp_resource p) \<mapsto> plan_of (sp_resource p))"
  "map_of (e_budgets (enter p env)) = (map_of (e_budgets env))(rs_Name (sp_resource p) \<mapsto> e_next env)"
  "env_limiter (enter p env) n =
     (if n = rs_Name (sp_resource p) then Some (Chain [Some (LBudget (e_next env)), map_of (e_rates env) n])
      else env_limiter env n)"
  by (simp_all add: enter_def Let_def update_conv' env_limiter_def)

lemma enter_sound:
  assumes sound: "sound_with us env w" and new: "map_of (e_plans env) (rs_Name (sp_resource p)) = None"
    and ok: "pending_ok (e_gate env) us (p, b)"
  shows "sound_with us (enter p env) (w\<lparr>budgets := (budgets w)(e_next env \<mapsto> b)\<rparr>)"
proof -
  let ?n = "rs_Name (sp_resource p)"
  have b: "budget_ok b" "b_limit b = rs_Budget (sp_resource p)"
    using ok NewBudget_ok by (auto simp: pending_ok_def)
  have old: "holds_budget (enter p env) (w\<lparr>budgets := (budgets w)(e_next env \<mapsto> b)\<rparr>) n q a"
    if "holds_budget env w n q a" and "n \<noteq> ?n" for n q a
    using that by (auto simp: holds_budget_def enter_fields)
  have this_one: "holds_budget (enter p env) (w\<lparr>budgets := (budgets w)(e_next env \<mapsto> b)\<rparr>) ?n
      (plan_of (sp_resource p)) (e_next env)"
    using b by (simp add: holds_budget_def enter_fields plan_of_def)
  have below: "a < e_next env" if "map_of (e_budgets env) n = Some a" for n a
    using sound that unfolding sound_with_def holds_budget_def by (metis not_None_eq option.inject)
  have "map_of (e_budgets env) ?n = None"
    using sound new unfolding sound_with_def by (meson not_None_eq)
  then show ?thesis
    using sound ok old this_one below unfolding sound_with_def enter_fields
    by (auto simp: pending_ok_def fresh_from_def split: if_splits) blast+
qed

definition extends_env :: "run_env \<Rightarrow> 'c lworld \<Rightarrow> run_env \<Rightarrow> 'c lworld \<Rightarrow> bool" where
  "extends_env env w env' w' \<longleftrightarrow>
     e_gate env' = e_gate env \<and> e_rates env' = e_rates env \<and> e_next env \<le> e_next env' \<and>
     (\<forall>n p. map_of (e_plans env) n = Some p \<longrightarrow>
        map_of (e_plans env') n = Some p \<and> map_of (e_budgets env') n = map_of (e_budgets env) n) \<and>
     (\<forall>a < e_next env. budgets w' a = budgets w a)"

lemma extends_refl: "extends_env env w env w"
  by (simp add: extends_env_def)

lemma extends_trans:
  "extends_env e1 w1 e2 w2 \<Longrightarrow> extends_env e2 w2 e3 w3 \<Longrightarrow> extends_env e1 w1 e3 w3"
  unfolding extends_env_def by (auto intro: order_trans)

lemma enter_extends:
  "map_of (e_plans env) (rs_Name (sp_resource p)) = None \<Longrightarrow>
     extends_env env w (enter p env) (w\<lparr>budgets := (budgets w)(e_next env \<mapsto> b)\<rparr>)"
  by (auto simp: extends_env_def enter_fields)

lemma register_sound:
  "register ps (env, w) = (env', w') \<Longrightarrow> sound_with us env w \<Longrightarrow> distinct (map pending_name ps) \<Longrightarrow>
     (\<forall>pb \<in> set ps. map_of (e_plans env) (pending_name pb) = None \<and> pending_ok (e_gate env) us pb) \<Longrightarrow>
     sound_with us env' w' \<and> extends_env env w env' w' \<and>
     (\<forall>pb \<in> set ps. map_of (e_plans env') (pending_name pb) = Some (plan_of (sp_resource (fst pb))) \<and>
        budget_at env' w' (pending_name pb) = Some (snd pb)) \<and>
     (\<forall>n. map_of (e_plans env') n = None \<longleftrightarrow>
        map_of (e_plans env) n = None \<and> n \<notin> set (map pending_name ps))"
proof (induction ps arbitrary: env w)
  case Nil
  then show ?case by (simp add: extends_refl)
next
  case (Cons pb ps)
  obtain p b where pb: "pb = (p, b)" by (cases pb)
  let ?n = "rs_Name (sp_resource p)"
  let ?env = "enter p env" and ?w = "w\<lparr>budgets := (budgets w)(e_next env \<mapsto> b)\<rparr>"
  from Cons.prems(4) have new: "map_of (e_plans env) ?n = None" and ok: "pending_ok (e_gate env) us (p, b)"
    by (auto simp: pb)
  have sound: "sound_with us ?env ?w" using Cons.prems(2) new ok by (rule enter_sound)
  have reg: "register ps (?env, ?w) = (env', w')" using Cons.prems(1) by (simp only: pb register_Cons)
  have rest: "\<forall>q \<in> set ps. map_of (e_plans ?env) (pending_name q) = None \<and> pending_ok (e_gate ?env) us q"
  proof
    fix q
    assume q: "q \<in> set ps"
    then have "pending_name q \<in> pending_name ` set ps" by (rule imageI)
    moreover have "?n \<notin> pending_name ` set ps" using Cons.prems(3) by (simp add: pb)
    ultimately have "pending_name q \<noteq> ?n" by metis
    then show "map_of (e_plans ?env) (pending_name q) = None \<and> pending_ok (e_gate ?env) us q"
      using Cons.prems(4) q by (simp add: enter_fields)
  qed
  have "distinct (map pending_name ps)" using Cons.prems(3) by simp
  from Cons.IH [OF reg sound this rest] have IH: "sound_with us env' w'" "extends_env ?env ?w env' w'"
    and all: "\<forall>q \<in> set ps. map_of (e_plans env') (pending_name q) = Some (plan_of (sp_resource (fst q))) \<and>
        budget_at env' w' (pending_name q) = Some (snd q)"
    and dom: "\<forall>n. map_of (e_plans env') n = None \<longleftrightarrow>
        map_of (e_plans ?env) n = None \<and> n \<notin> set (map pending_name ps)"
    by blast+
  have "map_of (e_plans ?env) ?n = Some (plan_of (sp_resource p))" by (simp add: enter_fields)
  then have "map_of (e_plans env') ?n = Some (plan_of (sp_resource p))
      \<and> map_of (e_budgets env') ?n = Some (e_next env) \<and> budgets w' (e_next env) = Some b"
    using IH(2) unfolding extends_env_def by (auto simp: enter_fields)
  then show ?case
    using IH all dom extends_trans [OF enter_extends [OF new] IH(2)]
    by (auto simp: pb budget_at_def enter_fields)
qed

text \<open>C11. Declaring admission plans is a transaction that keeps the run's accounting
  sound. A refusal changes neither the environment nor any budget. A success keeps every
  plan that was registered, with its budget and what it has spent; gives each new plan its
  own full budget, at the stated limit, behind its limiter; leaves every declared resource
  registered; and has passed the gate: no plan's ceiling exceeds its budget (unless partial
  plans are allowed), no plan is unpriced (unless allowed) and the estimate is at most the
  maximum.\<close>

theorem ensure_transaction:
  assumes "env_sound env w" and "ensure plans env w = (r, env', w')"
  shows "(if r \<noteq> None then env' = env \<and> w' = w
          else extends_env env w env' w' \<and> gate_ok (e_gate env) (e_usd env') (e_unpriced env') \<and>
            (\<forall>p \<in> set plans. map_of (e_plans env') (rs_Name (sp_resource p)) \<noteq> None) \<and>
            (\<forall>n q. map_of (e_plans env') n = Some q \<longrightarrow> map_of (e_plans env) n = None \<longrightarrow>
               budget_at env' w' n = Some \<lparr>b_limit = rp_Budget q, b_remaining = rp_Budget q\<rparr>))
    \<and> env_sound env' w'"
proof (cases r)
  case (Some e)
  then have "env' = env \<and> w' = w"
    using assms(2) by (auto simp: ensure_def split: if_splits sum.splits option.splits prod.splits)
  then show ?thesis using Some assms(1) by simp
next
  case None
  with assms(2) obtain s env1 where loop: "ensure_loop (e_gate env) plans (ensure_start env) = Inr s"
    and gate: "gate_check (e_gate env) s = None"
    and reg: "register (pr_pending s) (env, w) = (env1, w')"
    and env': "env' = env1\<lparr>e_usd := pr_usd s, e_unpriced := pr_unpriced s\<rparr>"
    by (auto simp: ensure_def split: if_splits sum.splits option.splits prod.splits)
  have "loop_ok env (ensure_start env)" by (simp add: loop_ok_def ensure_start_def)
  from ensure_loop_ok [OF loop this] have ok: "loop_ok env s"
    and all: "\<forall>p \<in> set plans. map_of (pr_plans s) (rs_Name (sp_resource p)) \<noteq> None"
    by blast+
  have sound: "sound_with (pr_unpriced s) env w"
    using assms(1) ok unfolding env_sound_def sound_with_def loop_ok_def by (meson plan_ok_mono)
  from ok have "distinct (map pending_name (pr_pending s))"
    and "\<forall>pb \<in> set (pr_pending s). map_of (e_plans env) (pending_name pb) = None \<and>
        pending_ok (e_gate env) (pr_unpriced s) pb"
    unfolding loop_ok_def by blast+
  from register_sound [OF reg sound this]
  have r: "sound_with (pr_unpriced s) env1 w'" "extends_env env w env1 w'"
    and new: "\<forall>pb \<in> set (pr_pending s). map_of (e_plans env1) (pending_name pb) = Some (plan_of (sp_resource (fst pb)))
        \<and> budget_at env1 w' (pending_name pb) = Some (snd pb)"
    and dom: "\<forall>n. map_of (e_plans env1) n = None \<longleftrightarrow>
        map_of (e_plans env) n = None \<and> n \<notin> set (map pending_name (pr_pending s))"
    by blast+
  have "env_sound env' w'" using r(1) by (simp add: env_sound_def sound_with_def env' holds_budget_def env_limiter_def)
  moreover have "extends_env env w env' w'" using r(2) by (simp add: extends_env_def env')
  moreover have "gate_ok (e_gate env) (e_usd env') (e_unpriced env')"
    using gate by (auto simp: gate_ok_def gate_check_def env' split: option.splits if_splits)
  moreover have "\<forall>p \<in> set plans. map_of (e_plans env') (rs_Name (sp_resource p)) \<noteq> None"
  proof -
    have "map_of (pr_plans s) n = None \<longleftrightarrow> map_of (e_plans env1) n = None" for n
      using ok dom unfolding loop_ok_def by (simp only: simp_thms)
    then show ?thesis using all by (simp add: env')
  qed
  moreover have "budget_at env' w' n = Some \<lparr>b_limit = rp_Budget q, b_remaining = rp_Budget q\<rparr>"
    if q: "map_of (e_plans env') n = Some q" and old: "map_of (e_plans env) n = None" for n q
  proof -
    have "map_of (e_plans env1) n \<noteq> None" using q by (simp add: env')
    then have "n \<in> set (map pending_name (pr_pending s))" using old dom by (simp only: simp_thms)
    then obtain pb where pb: "pb \<in> set (pr_pending s)" "n = pending_name pb"
      unfolding set_map by blast
    then have "NewBudget (rs_Budget (sp_resource (fst pb))) = Inr (snd pb)"
      using ok by (auto simp: loop_ok_def pending_ok_def)
    moreover have "q = plan_of (sp_resource (fst pb))" using new pb q by (simp add: env')
    ultimately have "snd pb = \<lparr>b_limit = rp_Budget q, b_remaining = rp_Budget q\<rparr>"
      by (auto simp: NewBudget_def plan_of_def split: if_splits)
    then show ?thesis using new pb by (simp add: budget_at_def env')
  qed
  ultimately show ?thesis using None by simp
qed

lemma newRunEnv_sound: "fresh_from a w \<Longrightarrow> env_sound (newRunEnv rates gate a) w"
  by (simp add: env_sound_def sound_with_def newRunEnv_def)

definition empty_world :: "unit lworld" where
  "empty_world = \<lparr>budgets = Map.empty, buckets = Map.empty, lctx = None, custom = ()\<rparr>"

theorem ensure_transaction_witness:
  "\<exists>env w. ensure [\<lparr>sp_step = ''s'', sp_resource =
        \<lparr>rs_Name = ''calls'', rs_Ceiling = 2, rs_Budget = 3, rs_UnitUSD = Some (Fin 0)\<rparr>\<rparr>]
        (newRunEnv [] None 0) empty_world = (None, env, w)
     \<and> env_sound env w \<and> budget_at env w ''calls'' = Some \<lparr>b_limit = 3, b_remaining = 3\<rparr>"
proof -
  let ?p = "\<lparr>sp_step = ''s'', sp_resource =
        \<lparr>rs_Name = ''calls'', rs_Ceiling = 2, rs_Budget = 3, rs_UnitUSD = Some (Fin 0)\<rparr>\<rparr>"
  have trim: "TrimSpace ''calls'' \<noteq> []" by code_simp
  have sound: "env_sound (newRunEnv [] None 0) empty_world"
    by (rule newRunEnv_sound) (simp add: fresh_from_def empty_world_def)
  obtain env w where ens: "ensure [?p] (newRunEnv [] None 0) empty_world = (None, env, w)"
    and plan: "map_of (e_plans env) ''calls'' = Some (plan_of (sp_resource ?p))"
    using trim by (simp add: ensure_def newRunEnv_def ensure_start_def check_plan_def
        invalid_price_def invalid_usd_def price_plan_def NewBudget_def gate_check_def Let_def)
  from ensure_transaction [OF sound ens] plan
  have "env_sound env w" "budget_at env w ''calls'' = Some \<lparr>b_limit = 3, b_remaining = 3\<rparr>"
    by (auto simp: newRunEnv_def plan_of_def)
  with ens show ?thesis by blast
qed

section \<open>The two preflights agree\<close>

lemma price_plan_validate:
  assumes "0 < rs_Ceiling r"
  shows "\<lparr>EstimatedUSD = pr_usd (price_plan r s), MissingPrices = pr_unpriced (price_plan r s)\<rparr> =
    (case rs_UnitUSD r of
       None \<Rightarrow> \<lparr>EstimatedUSD = pr_usd s, MissingPrices = pr_unpriced s @ [rs_Name r]\<rparr>
     | Some v \<Rightarrow> \<lparr>EstimatedUSD = fadd (pr_usd s) (plan_cost (rs_Ceiling r) v), MissingPrices = pr_unpriced s\<rparr>)"
  using assms by (auto simp: price_plan_def split: option.splits)

lemma preflight_loops_agree:
  assumes "distinct (map rs_Name rs)" and "\<forall>r \<in> set rs. map_of (pr_plans s) (rs_Name r) = None"
    and "\<forall>r \<in> set rs. rs_Name r \<notin> seen"
  shows "case validate_loop (AllowPartial g) i (map plan_of rs) seen
            \<lparr>EstimatedUSD = pr_usd s, MissingPrices = pr_unpriced s\<rparr> of
      (pre, Some e) \<Rightarrow> \<exists>d. ensure_loop (Some g) (map (\<lambda>r. \<lparr>sp_step = step, sp_resource = r\<rparr>) rs) s = Inl d
    | (pre, None) \<Rightarrow> \<exists>s'. ensure_loop (Some g) (map (\<lambda>r. \<lparr>sp_step = step, sp_resource = r\<rparr>) rs) s = Inr s'
        \<and> pre = \<lparr>EstimatedUSD = pr_usd s', MissingPrices = pr_unpriced s'\<rparr>"
  using assms
proof (induction rs arbitrary: s i seen)
  case (Cons r rs)
  let ?n = "rs_Name r" and ?pre = "\<lparr>EstimatedUSD = pr_usd s, MissingPrices = pr_unpriced s\<rparr>"
  show ?case
  proof (cases "TrimSpace ?n = [] \<or> rs_Ceiling r < 0 \<or> rs_Budget r < 0 \<or> invalid_price (rs_UnitUSD r)
      \<or> \<not> AllowPartial g \<and> rs_Budget r < rs_Ceiling r")
    case True
    then show ?thesis using Cons.prems
      by (auto simp: plan_of_def Let_def check_plan_def)
  next
    case False
    then have check: "check_plan (Some g) step r = None" and b: "NewBudget (rs_Budget r) =
        Inr \<lparr>b_limit = rs_Budget r, b_remaining = rs_Budget r\<rparr>"
      by (auto simp: check_plan_def NewBudget_def Let_def)
    let ?s1 = "price_plan r s"
    let ?s = "?s1\<lparr>pr_plans := AList.update ?n (plan_of r) (pr_plans ?s1),
                  pr_owners := AList.update ?n step (pr_owners ?s1),
                  pr_pending := pr_pending ?s1 @
                    [(\<lparr>sp_step = step, sp_resource = r\<rparr>, \<lparr>b_limit = rs_Budget r, b_remaining = rs_Budget r\<rparr>)]\<rparr>"
    have ens: "ensure_loop (Some g) (map (\<lambda>r. \<lparr>sp_step = step, sp_resource = r\<rparr>) (r # rs)) s
        = ensure_loop (Some g) (map (\<lambda>r. \<lparr>sp_step = step, sp_resource = r\<rparr>) rs) ?s"
      using False Cons.prems(2) check b by (simp add: Let_def)
    have "validate_loop (AllowPartial g) i (map plan_of (r # rs)) seen ?pre
        = validate_loop (AllowPartial g) (Suc i) (map plan_of rs) (insert ?n seen)
            \<lparr>EstimatedUSD = pr_usd ?s, MissingPrices = pr_unpriced ?s\<rparr>"
    proof (cases "rs_Ceiling r = 0")
      case True
      then show ?thesis using False Cons.prems(3) by (simp add: plan_of_def price_plan_def Let_def)
    next
      case pos: False
      then have "0 < rs_Ceiling r" using False by simp
      from price_plan_validate [OF this, of s] show ?thesis
        using False pos Cons.prems(3)
        by (auto simp: plan_of_def Let_def split: option.splits)
    qed
    moreover have other: "\<forall>q \<in> set rs. rs_Name q \<noteq> ?n"
      using Cons.prems(1) by (simp add: image_iff) metis
    moreover have "\<forall>q \<in> set rs. map_of (pr_plans ?s) (rs_Name q) = None"
      using Cons.prems(2) other by (simp add: update_conv' price_plan_frame)
    moreover have "\<forall>q \<in> set rs. rs_Name q \<notin> insert ?n seen" using other Cons.prems(3) by simp
    ultimately show ?thesis unfolding ens using Cons.IH [of ?s "insert ?n seen" "Suc i"] Cons.prems(1)
      by simp
  qed
qed simp

text \<open>C18. The two preflights of the program agree: on a fresh environment, with distinct
  resource names, \<open>runEnv.ensure\<close> accepts the plans exactly when \<open>ValidateResourcePlans\<close>
  accepts them under the same gate, and then reports the same estimate and the same
  unpriced resources.\<close>

theorem preflights_agree:
  assumes "distinct (map rs_Name rs)"
    and "ensure (map (\<lambda>r. \<lparr>sp_step = step, sp_resource = r\<rparr>) rs) (newRunEnv rates (Some g) a) w = (e, env', w')"
    and "ValidateResourcePlans (map plan_of rs) (MaxEstimatedUSD g) (AllowUnpriced g) (AllowPartial g) = (pre, d)"
  shows "(e = None) = (d = None) \<and> (e \<noteq> None \<or> env_cost env' = pre)"
proof -
  let ?env = "newRunEnv rates (Some g) a"
  let ?pre = "\<lparr>EstimatedUSD = Fin 0, MissingPrices = []\<rparr>"
  have start: "pr_plans (ensure_start ?env) = []" "pr_usd (ensure_start ?env) = Fin 0"
    "pr_unpriced (ensure_start ?env) = []" "e_gate ?env = Some g"
    by (simp_all add: ensure_start_def newRunEnv_def)
  note agree = preflight_loops_agree [OF assms(1), where s = "ensure_start ?env" and seen = "{}" and g = g and i = 0 and step = step, unfolded start, simplified]
  obtain pre' d' where val: "validate_loop (AllowPartial g) 0 (map plan_of rs) {} ?pre = (pre', d')"
    by fastforce
  show ?thesis
  proof (cases d')
    case (Some d1)
    with agree val obtain e1 where "ensure_loop (Some g) (map (\<lambda>r. \<lparr>sp_step = step, sp_resource = r\<rparr>) rs)
        (ensure_start ?env) = Inl e1"
      by auto
    then show ?thesis using assms(2,3) val Some
      by (auto simp: ensure_def ValidateResourcePlans_def start split: if_splits)
  next
    case None
    with agree val obtain s where loop: "ensure_loop (Some g) (map (\<lambda>r. \<lparr>sp_step = step, sp_resource = r\<rparr>) rs)
        (ensure_start ?env) = Inr s" and pre': "pre' = \<lparr>EstimatedUSD = pr_usd s, MissingPrices = pr_unpriced s\<rparr>"
      by auto
    show ?thesis using assms(2,3) val None loop pre'
      by (auto simp: ensure_def ValidateResourcePlans_def start gate_check_def env_cost_def
          split: if_splits prod.splits option.splits)
  qed
qed

theorem preflights_agree_witness:
  "\<exists>e d. e \<noteq> None \<and> d \<noteq> None \<and>
     fst (ensure [\<lparr>sp_step = ''s'', sp_resource = \<lparr>rs_Name = ''calls'', rs_Ceiling = 2, rs_Budget = 1, rs_UnitUSD = None\<rparr>\<rparr>]
       (newRunEnv [] (Some \<lparr>MaxEstimatedUSD = Fin 0, AllowUnpriced = True, AllowPartial = False\<rparr>) 0) empty_world) = e \<and>
     snd (ValidateResourcePlans [\<lparr>rp_Name = ''calls'', rp_Ceiling = 2, rp_Budget = 1, rp_UnitUSD = None\<rparr>]
       (Fin 0) True False) = d"
proof -
  let ?r = "\<lparr>rs_Name = ''calls'', rs_Ceiling = 2, rs_Budget = 1, rs_UnitUSD = None\<rparr> :: flow_resource"
  let ?g = "\<lparr>MaxEstimatedUSD = Fin 0, AllowUnpriced = True, AllowPartial = False\<rparr>"
  obtain e env w where ens: "ensure (map (\<lambda>r. \<lparr>sp_step = ''s'', sp_resource = r\<rparr>) [?r])
      (newRunEnv [] (Some ?g) 0) empty_world = (e, env, w)"
    using prod_cases3 by blast
  obtain pre d where val: "ValidateResourcePlans (map plan_of [?r]) (MaxEstimatedUSD ?g) (AllowUnpriced ?g)
      (AllowPartial ?g) = (pre, d)"
    by fastforce
  have trim: "TrimSpace ''calls'' \<noteq> []" by code_simp
  have "d \<noteq> None" using val trim
    by (auto simp: ValidateResourcePlans_def plan_of_def invalid_usd_def invalid_price_def)
  moreover have "distinct (map rs_Name [?r])" by simp
  note preflights_agree [OF this ens val]
  ultimately show ?thesis using ens val by (auto simp: plan_of_def)
qed

end
