(* ===== verification/Json_Strict.thy ===== *)
theory Json_Strict
  imports Flow_Prelude "HOL-Library.Sublist"
begin

text \<open>
  Strict JSON decoding and fence stripping, \<open>src/internal/jsonutil/jsonutil.go\<close>.

  \<open>encoding/json\<close> decodes into a type of the caller, so a decoder of that type is an
  argument: \<open>decoder.Decode\<close> either gives a value and the bytes that are left, or reports
  that the input was at its end, or fails. \<open>DecodeStrict\<close> is what the repository builds on
  it. \<open>StripCompleteFence\<close> works on the bytes of a string and is modelled in full.
\<close>

datatype 'a decoded = Decoded 'a string | AtEOF | DecodeError err

text \<open>A target is \<open>None\<close> when it is \<open>nil\<close> (the interface or the pointer in it).\<close>

definition DecodeStrictInto :: "(string \<Rightarrow> 'a decoded) \<Rightarrow> (string \<Rightarrow> 'x decoded) \<Rightarrow> bool \<Rightarrow> string \<Rightarrow> 'a result" where
  "DecodeStrictInto dec any_dec target_nil data =
     (if target_nil then Inl (Errorf ''JSON decode target is required'' [] None)
      else case dec data of
          DecodeError e \<Rightarrow> Inl (Errorf ''decode JSON value: %w'' [] (Some e))
        | AtEOF \<Rightarrow> Inl (Errorf ''decode JSON value: %w'' [] (Some (Foreign ''EOF'')))
        | Decoded v rest \<Rightarrow>
            (case any_dec rest of
               AtEOF \<Rightarrow> Inr v
             | Decoded _ _ \<Rightarrow> Inl (Errorf ''JSON contains a trailing value'' [] None)
             | DecodeError e \<Rightarrow> Inl (Errorf ''decode trailing JSON content: %w'' [] (Some e))))"

definition DecodeStrict :: "(string \<Rightarrow> 'a decoded) \<Rightarrow> (string \<Rightarrow> 'x decoded) \<Rightarrow> string \<Rightarrow> 'a result" where
  "DecodeStrict dec any_dec data = DecodeStrictInto dec any_dec False data"

lemma DecodeStrict_Inr:
  "DecodeStrict dec any_dec data = Inr v \<longleftrightarrow> (\<exists>rest. dec data = Decoded v rest \<and> any_dec rest = AtEOF)"
  by (auto simp: DecodeStrict_def DecodeStrictInto_def split: decoded.splits)

section \<open>StripCompleteFence\<close>

fun IndexByte :: "string \<Rightarrow> char \<Rightarrow> nat option" where
  "IndexByte [] c = None"
| "IndexByte (x # xs) c = (if x = c then Some 0 else map_option Suc (IndexByte xs c))"

definition LastIndexByte :: "string \<Rightarrow> char \<Rightarrow> nat option" where
  "LastIndexByte s c = map_option (\<lambda>i. length s - 1 - i) (IndexByte (rev s) c)"

fun contains_str :: "string \<Rightarrow> string \<Rightarrow> bool" where
  "contains_str [] p = (p = [])"
| "contains_str (x # xs) p = (take (length p) (x # xs) = p \<or> contains_str xs p)"

definition newline :: char where "newline = CHR 0x0A"
definition fence :: string where "fence = ''```''"

definition StripCompleteFence :: "string \<Rightarrow> string" where
  "StripCompleteFence value =
     (let trimmed = TrimSpace value in
      case IndexByte trimmed newline of
        None \<Rightarrow> trimmed
      | Some firstNewline \<Rightarrow>
          let opener = TrimSpace (take firstNewline trimmed) in
          if opener \<noteq> fence \<and> opener \<noteq> fence @ ''json'' then trimmed
          else let bodyAndClose = drop (firstNewline + 1) trimmed in
            case LastIndexByte bodyAndClose newline of
              None \<Rightarrow> trimmed
            | Some lastNewline \<Rightarrow>
                if TrimSpace (drop (lastNewline + 1) bodyAndClose) \<noteq> fence then trimmed
                else let body = take lastNewline bodyAndClose in
                  if contains_str body fence then trimmed else TrimSpace body)"

section \<open>Trimming\<close>

lemma strip_one_None: "strip_one encs s = None \<longleftrightarrow> (\<forall>e \<in> set encs. \<not> prefix e s)"
proof -
  have "take (length e) s = e \<longleftrightarrow> prefix e s" for e
    by (metis append_eq_conv_conj prefix_def take_is_prefix)
  then have "strip_one encs s = None \<longleftrightarrow> filter (\<lambda>e. prefix e s) encs = []"
    by (simp add: strip_one_def split: list.splits)
  then show ?thesis by (simp only: filter_empty_conv)
qed

lemma trim_left_done: "[] \<notin> set encs \<Longrightarrow> strip_one encs (trim_left encs s) = None"
proof (induction encs s rule: trim_left.induct)
  case (1 encs s)
  show ?case
  proof (cases "strip_one encs s")
    case None
    then show ?thesis by (simp add: trim_left.simps [of encs s])
  next
    case (Some t)
    then show ?thesis using "1.IH" [OF "1.prems" Some] "1.prems"
      by (simp add: trim_left.simps [of encs s])
  qed
qed

lemma trim_left_id: "strip_one encs s = None \<Longrightarrow> trim_left encs s = s"
  by (simp add: trim_left.simps [of encs s])

lemma no_empty_space: "[] \<notin> set space_encodings" "[] \<notin> set (map rev space_encodings)"
  using space_encodings_nonempty by auto

lemma trim_left_prefix_free:
  assumes "strip_one encs s = None" and "prefix t s"
  shows "strip_one encs t = None"
  using assms unfolding strip_one_None by (meson prefix_order.trans)

lemma TrimSpace_trimmed:
  "strip_one space_encodings (TrimSpace s) = None"
  "strip_one (map rev space_encodings) (rev (TrimSpace s)) = None"
proof -
  let ?l = "trim_left space_encodings s"
  obtain p where "rev ?l = p @ trim_left (map rev space_encodings) (rev ?l)"
    using trim_left_suffix by blast
  then have "?l = TrimSpace s @ rev p" by (metis TrimSpace_def rev_append rev_rev_ident)
  then have "prefix (TrimSpace s) ?l" by (metis prefixI)
  with trim_left_done [OF no_empty_space(1)]
  show "strip_one space_encodings (TrimSpace s) = None" by (rule trim_left_prefix_free)
  show "strip_one (map rev space_encodings) (rev (TrimSpace s)) = None"
    using trim_left_done [OF no_empty_space(2)] by (simp only: TrimSpace_def rev_rev_ident)
qed

lemma TrimSpace_idem [simp]: "TrimSpace (TrimSpace s) = TrimSpace s"
proof -
  have "trim_left space_encodings (TrimSpace s) = TrimSpace s"
    using TrimSpace_trimmed(1) by (rule trim_left_id)
  then have "TrimSpace (TrimSpace s) = rev (trim_left (map rev space_encodings) (rev (TrimSpace s)))"
    unfolding TrimSpace_def [of "TrimSpace s"] by (rule arg_cong)
  also have "\<dots> = TrimSpace s" using trim_left_id [OF TrimSpace_trimmed(2), of s] by simp
  finally show ?thesis .
qed

section \<open>Fences\<close>

lemma contains_infix: "contains_str s p \<longleftrightarrow> (\<exists>a b. s = a @ p @ b)"
proof (induction s)
  case (Cons x s)
  have "take (length p) (x # s) = p \<longleftrightarrow> (\<exists>b. x # s = p @ b)"
    by (metis append_eq_conv_conj append_take_drop_id)
  moreover have "(\<exists>a b. x # s = a @ p @ b) \<longleftrightarrow> (\<exists>b. x # s = p @ b) \<or> (\<exists>a b. s = a @ p @ b)"
    by (metis append_Cons append_Nil list.sel(3) neq_Nil_conv tl_append2)
  ultimately show ?case using Cons by simp
qed auto

lemma contains_infix_trans: "contains_str t p \<Longrightarrow> s = a @ t @ b \<Longrightarrow> contains_str s p"
  unfolding contains_infix by (metis append.assoc)

text \<open>A string with no fence in it is its own result, up to the surrounding space.\<close>

lemma strip_no_fence:
  assumes "\<not> contains_str s fence"
  shows "StripCompleteFence s = TrimSpace s"
proof -
  have opener: "TrimSpace (take n (TrimSpace s)) \<noteq> fence \<and> TrimSpace (take n (TrimSpace s)) \<noteq> fence @ ''json''" for n
  proof -
    obtain a b where a: "s = a @ TrimSpace s @ b" using TrimSpace_infix by blast
    obtain c d where c: "take n (TrimSpace s) = c @ TrimSpace (take n (TrimSpace s)) @ d"
      using TrimSpace_infix by blast
    have "s = (a @ c) @ TrimSpace (take n (TrimSpace s)) @ (d @ drop n (TrimSpace s) @ b)"
      using a c by (metis append.assoc append_take_drop_id)
    moreover have "contains_str fence fence" "contains_str (fence @ ''json'') fence"
      by (simp_all add: fence_def)
    ultimately show ?thesis using assms contains_infix_trans by metis
  qed
  then show ?thesis by (simp add: StripCompleteFence_def Let_def split: option.splits)
qed

text \<open>\<open>StripCompleteFence\<close> is stable: its result is trimmed, and applying it again
  changes nothing, whether it removed a fence, found none, or left an incomplete, nested or
  foreign one in place.\<close>

theorem strip_fence_idempotent:
  "StripCompleteFence (StripCompleteFence s) = StripCompleteFence s \<and>
   TrimSpace (StripCompleteFence s) = StripCompleteFence s"
proof -
  have cases: "StripCompleteFence s = TrimSpace s \<or>
      (\<exists>body. StripCompleteFence s = TrimSpace body \<and> \<not> contains_str body fence)"
    by (auto simp: StripCompleteFence_def Let_def split: option.splits if_splits)
  then show ?thesis
  proof
    assume t: "StripCompleteFence s = TrimSpace s"
    have "StripCompleteFence (TrimSpace s) = StripCompleteFence s"
      unfolding StripCompleteFence_def TrimSpace_idem ..
    then show ?thesis by (simp add: t)
  next
    assume "\<exists>body. StripCompleteFence s = TrimSpace body \<and> \<not> contains_str body fence"
    then obtain body where b: "StripCompleteFence s = TrimSpace body" "\<not> contains_str body fence"
      by blast
    then have "\<not> contains_str (TrimSpace body) fence"
      using TrimSpace_infix contains_infix_trans by metis
    from strip_no_fence [OF this] show ?thesis by (simp add: b(1))
  qed
qed

end
