(* ===== verification/Cache_Key.thy ===== *)
theory Cache_Key
  imports Json_Strict
begin

text \<open>
  Cache keys (\<open>Key\<close>, \<open>NewKey\<close>, \<open>validate\<close>, \<open>Digest\<close> of \<open>src/execution/cache.go\<close>,
  \<open>digest.Bytes\<close> of \<open>src/internal/digest/digest.go\<close>) and the identity of a step
  (\<open>Identity\<close>, \<open>Step.Key\<close> of \<open>src/flow/step.go\<close>).

  The codecs and the hash come from outside the repository and are the record \<open>codec\<close>:
  the JSON text of a key, a value and an envelope, the decoders of a value (strict and
  plain), of an envelope and of any value, and SHA-256. \<open>hash_law\<close> is what SHA-256 documents of its output: 32 bytes.
  It does not say that two inputs have different digests, and nothing here assumes it.
\<close>

record Key =
  k_Step :: string
  k_Version :: string
  k_InputDigest :: string

record cacheEnvelope =
  ce_SchemaVersion :: string
  ce_Key :: Key
  ce_ValueDigest :: string
  ce_Value :: string

record 'v codec =
  marshal_key :: "Key \<Rightarrow> string result"
  marshal_value :: "'v \<Rightarrow> string result"
  decode_value :: "string \<Rightarrow> 'v decoded"
  unmarshal_value :: "string \<Rightarrow> 'v result"
  decode_any :: "string \<Rightarrow> unit decoded"
  marshal_envelope :: "cacheEnvelope \<Rightarrow> string result"
  decode_envelope :: "string \<Rightarrow> cacheEnvelope decoded"
  sha256 :: "string \<Rightarrow> nat list"

definition hash_law :: "'v codec \<Rightarrow> bool" where
  "hash_law C \<longleftrightarrow> (\<forall>s. length (sha256 C s) = 32 \<and> (\<forall>b \<in> set (sha256 C s). b < 256))"

section \<open>Digests\<close>

definition hex_digits :: string where
  "hex_digits = ''0123456789abcdef''"

definition EncodeToString :: "nat list \<Rightarrow> string" where
  "EncodeToString bs = concat (map (\<lambda>b. [hex_digits ! (b div 16), hex_digits ! (b mod 16)]) bs)"

definition digest_Bytes :: "'v codec \<Rightarrow> string \<Rightarrow> string" where
  "digest_Bytes C data = EncodeToString (sha256 C data)"

text \<open>\<open>hex.DecodeString\<close> accepts both cases; its error is on the first byte that is no digit,
  or an odd length.\<close>

definition is_hex :: "char \<Rightarrow> bool" where
  "is_hex c \<longleftrightarrow> c \<in> set ''0123456789abcdefABCDEF''"

definition hex_error :: "string \<Rightarrow> err option" where
  "hex_error s =
     (if \<not> list_all is_hex s then Some (Foreign ''encoding/hex: invalid byte'')
      else if odd (length s) then Some (Foreign ''encoding/hex: odd length hex string'')
      else None)"

section \<open>Keys\<close>

definition key_validate :: "Key \<Rightarrow> err option" where
  "key_validate k =
     (if k_Step k = [] \<or> k_Version k = []
      then Some (Errorf ''cache key step and version are required'' [] None)
      else if length (k_InputDigest k) \<noteq> 32 * 2
      then Some (Errorf ''cache key input digest is invalid'' [] None)
      else case hex_error (k_InputDigest k) of
          Some e \<Rightarrow> Some (Errorf ''cache key input digest is invalid: %w'' [] (Some e))
        | None \<Rightarrow> None)"

definition Digest :: "'v codec \<Rightarrow> Key \<Rightarrow> string result" where
  "Digest C k =
     (case key_validate k of
        Some e \<Rightarrow> Inl e
      | None \<Rightarrow>
          (case marshal_key C k of
             Inl e \<Rightarrow> Inl e
           | Inr data \<Rightarrow> Inr (digest_Bytes C data)))"

text \<open>The input of \<open>NewKey\<close> is any value; \<open>marshal\<close> is its JSON text.\<close>

definition NewKey :: "'v codec \<Rightarrow> ('i \<Rightarrow> string result) \<Rightarrow> string \<Rightarrow> string \<Rightarrow> 'i \<Rightarrow> Key result" where
  "NewKey C marshal step version input =
     (if step = [] then Inl (Errorf ''cache step is required'' [] None)
      else if version = [] then Inl (Errorf ''cache step version is required'' [] None)
      else case marshal input of
          Inl e \<Rightarrow> Inl (Errorf ''marshal cache input: %w'' [] (Some e))
        | Inr data \<Rightarrow> Inr \<lparr>k_Step = step, k_Version = version, k_InputDigest = digest_Bytes C data\<rparr>)"

section \<open>The identity of a step\<close>

record 'i Identity =
  id_Kind :: string
  id_Version :: string
  id_Key :: "('i \<Rightarrow> string result) option"

definition step_Key :: "'v codec \<Rightarrow> string \<Rightarrow> 'i Identity \<Rightarrow> 'i \<Rightarrow> Key result" where
  "step_Key C name ident item =
     (if id_Kind ident = [] then Inl (Errorf ''step %q has no cache identity'' [FStr name] None)
      else if TrimSpace (id_Version ident) = []
      then Inl (Errorf ''step %q identity version is required'' [FStr name] None)
      else case id_Key ident of
          None \<Rightarrow> Inl (Errorf ''step %q identity key function is required'' [FStr name] None)
        | Some f \<Rightarrow>
            (case f item of
               Inl e \<Rightarrow> Inl (Errorf ''step %q: build identity key: %w'' [FStr name] (Some e))
             | Inr bytes \<Rightarrow>
                 Inr \<lparr>k_Step = id_Kind ident, k_Version = id_Version ident,
                      k_InputDigest = digest_Bytes C bytes\<rparr>))"

section \<open>Facts\<close>

lemma EncodeToString_length: "length (EncodeToString bs) = 2 * length bs"
  by (induction bs) (simp_all add: EncodeToString_def)

lemma hex_digit_hex: "n < 16 \<Longrightarrow> is_hex (hex_digits ! n)"
proof -
  assume "n < 16"
  moreover have "length hex_digits = 16" by (simp add: hex_digits_def)
  ultimately have "hex_digits ! n \<in> set hex_digits" by (simp only: nth_mem)
  then show ?thesis by (auto simp: is_hex_def hex_digits_def)
qed

lemma EncodeToString_hex: "\<forall>b \<in> set bs. b < 256 \<Longrightarrow> list_all is_hex (EncodeToString bs)"
  by (induction bs) (auto simp: EncodeToString_def hex_digit_hex less_mult_imp_div_less)

lemma digest_Bytes_valid:
  assumes "hash_law C"
  shows "length (digest_Bytes C data) = 64" and "hex_error (digest_Bytes C data) = None"
  using assms EncodeToString_length [of "sha256 C data"] EncodeToString_hex [of "sha256 C data"]
  by (auto simp: hash_law_def digest_Bytes_def hex_error_def)

lemma EncodeToString_inj:
  "EncodeToString xs = EncodeToString ys \<Longrightarrow> \<forall>b \<in> set xs. b < 256 \<Longrightarrow> \<forall>b \<in> set ys. b < 256 \<Longrightarrow> xs = ys"
proof (induction xs arbitrary: ys)
  case Nil
  then show ?case by (cases ys) (auto simp: EncodeToString_def)
next
  case (Cons x xs)
  then obtain y zs where ys: "ys = y # zs" by (cases ys) (auto simp: EncodeToString_def)
  have dist: "distinct hex_digits" "length hex_digits = 16" by (simp_all add: hex_digits_def)
  have "x < 256" "y < 256" using Cons.prems ys by auto
  then have "x div 16 < 16" "y div 16 < 16" by (simp_all add: less_mult_imp_div_less)
  moreover have "hex_digits ! (x div 16) = hex_digits ! (y div 16)"
    "hex_digits ! (x mod 16) = hex_digits ! (y mod 16)" "EncodeToString xs = EncodeToString zs"
    using Cons.prems(1) by (simp_all add: ys EncodeToString_def)
  ultimately have "x div 16 = y div 16" "x mod 16 = y mod 16"
    using dist by (simp_all add: nth_eq_iff_index_eq)
  then have "x = y" by (metis div_mult_mod_eq)
  then show ?case using Cons.IH [of zs] Cons.prems \<open>EncodeToString xs = EncodeToString zs\<close> by (simp add: ys)
qed

text \<open>C17. Every key a step or \<open>NewKey\<close> builds is valid, so a later cache operation never
  refuses it: it has a step and a version, and its input digest is 64 hexadecimal digits. Two
  items get the same key from a step only if SHA-256 gives their identity bytes the same sum.\<close>

theorem built_keys_valid:
  assumes "hash_law C" and "id_Key ident = Some f"
    and "step_Key C name ident x = Inr k" and "step_Key C name ident y = Inr k'"
  shows "key_validate k = None \<and> k_Step k = id_Kind ident \<and> k_Version k = id_Version ident \<and>
    (k = k' \<longleftrightarrow> (\<exists>bx by. f x = Inr bx \<and> f y = Inr by \<and> sha256 C bx = sha256 C by))"
proof -
  obtain bx b' where b: "f x = Inr bx" "f y = Inr b'"
    and k: "k = \<lparr>k_Step = id_Kind ident, k_Version = id_Version ident, k_InputDigest = digest_Bytes C bx\<rparr>"
      "k' = \<lparr>k_Step = id_Kind ident, k_Version = id_Version ident, k_InputDigest = digest_Bytes C b'\<rparr>"
    and kind: "id_Kind ident \<noteq> []" "TrimSpace (id_Version ident) \<noteq> []"
    using assms(2-4) by (auto simp: step_Key_def split: if_splits sum.splits)
  then have "id_Version ident \<noteq> []" by auto
  moreover have "sha256 C bx = sha256 C b'" if "digest_Bytes C bx = digest_Bytes C b'"
    using that assms(1) EncodeToString_inj unfolding digest_Bytes_def hash_law_def by blast
  ultimately show ?thesis
    using b k kind digest_Bytes_valid [OF assms(1)] by (auto simp: key_validate_def digest_Bytes_def)
qed

text \<open>The codec of the witnesses: a value is its own text, one value per text, and a hash
  that has the size of SHA-256.\<close>

definition demo_key_text :: "Key \<Rightarrow> string" where
  "demo_key_text k = k_Step k @ ''/'' @ k_Version k @ ''/'' @ k_InputDigest k"

definition demo_codec :: "string codec" where
  "demo_codec =
     \<lparr>marshal_key = (\<lambda>k. Inr (demo_key_text k)), marshal_value = Inr,
      decode_value = (\<lambda>s. Decoded s []), unmarshal_value = Inr, decode_any = (\<lambda>s. if s = [] then AtEOF else Decoded () []),
      marshal_envelope = (\<lambda>e. Inr (demo_key_text (ce_Key e) @ ''|'' @ ce_Value e)),
      decode_envelope = (\<lambda>s. DecodeError (Foreign ''not JSON'')),
      sha256 = (\<lambda>s. replicate 32 (length s mod 256))\<rparr>"

lemma demo_hash_law: "hash_law demo_codec"
  by (simp add: hash_law_def demo_codec_def)

theorem built_keys_valid_witness:
  "\<exists>k k'. step_Key demo_codec ''judge'' \<lparr>id_Kind = ''judge'', id_Version = ''v1'', id_Key = Some Inr\<rparr> ''ab'' = Inr k
    \<and> step_Key demo_codec ''judge'' \<lparr>id_Kind = ''judge'', id_Version = ''v1'', id_Key = Some Inr\<rparr> ''abc'' = Inr k'
    \<and> key_validate k = None \<and> k \<noteq> k'"
proof -
  let ?id = "\<lparr>id_Kind = ''judge'', id_Version = ''v1'', id_Key = Some Inr\<rparr> :: string Identity"
  have trim: "TrimSpace ''v1'' \<noteq> []" by code_simp
  obtain k k' where k: "step_Key demo_codec ''judge'' ?id ''ab'' = Inr k"
      "step_Key demo_codec ''judge'' ?id ''abc'' = Inr k'"
    using trim by (simp add: step_Key_def)
  have f: "id_Key ?id = Some Inr" by simp
  from built_keys_valid [OF demo_hash_law f k] have "key_validate k = None" "k \<noteq> k'"
    by (auto simp: demo_codec_def)
  with k show ?thesis by blast
qed

end
