(* ===== verification/Store_Interface.thy ===== *)
theory Store_Interface
  imports Cache_Key
begin

text \<open>
  The contract of a result cache: the interfaces \<open>Cache\<close> of \<open>src/execution/cache.go\<close> and
  \<open>Store\<close> of \<open>src/flow/store.go\<close>.

  A load gives an error, \<open>None\<close> (no entry) or a value. Two keys share an entry when they
  have the same digest (\<open>same\<close>). \<open>good k v\<close> says that the JSON codec gives back the value
  \<open>v\<close> under the key \<open>k\<close>; \<open>ok\<close> is what a store keeps of its state, and \<open>healthy\<close> that its
  reads do not fail. A store that succeeds is visible to every later load, which gives the
  stored value or an error, never a miss and never another value; a store that fails leaves
  the entry as it was or has published it; and no store touches the entry of another digest.
\<close>

text \<open>A sequence of stores, each of which may fail.\<close>

fun store_all :: "(ctx \<Rightarrow> Key \<Rightarrow> 'v \<Rightarrow> 's \<Rightarrow> err option \<times> 's) \<Rightarrow> (ctx \<times> Key \<times> 'v) list \<Rightarrow> 's \<Rightarrow>
    err option list \<times> 's" where
  "store_all store [] s = ([], s)"
| "store_all store ((c, k, v) # ws) s =
     (case store c k v s of (r, s') \<Rightarrow> (case store_all store ws s' of (rs, s'') \<Rightarrow> (r # rs, s'')))"

text \<open>Every later load of a key gives this value, or an error of the context or the medium.\<close>

definition answers :: "(ctx \<Rightarrow> Key \<Rightarrow> 's \<Rightarrow> 'v option result) \<Rightarrow> ('s \<Rightarrow> bool) \<Rightarrow> Key \<Rightarrow> 'v \<Rightarrow> 's \<Rightarrow> bool" where
  "answers load healthy k v s \<longleftrightarrow>
     (\<forall>c. load c k s = Inr (Some v) \<or> (isl (load c k s) \<and> (c \<noteq> None \<or> \<not> healthy s)))"

locale cache_store =
  fixes load :: "ctx \<Rightarrow> Key \<Rightarrow> 's \<Rightarrow> 'v option result"
    and store :: "ctx \<Rightarrow> Key \<Rightarrow> 'v \<Rightarrow> 's \<Rightarrow> err option \<times> 's"
    and same :: "Key \<Rightarrow> Key \<Rightarrow> bool" and good :: "Key \<Rightarrow> 'v \<Rightarrow> bool"
    and ok :: "'s \<Rightarrow> bool" and healthy :: "'s \<Rightarrow> bool"
  assumes store_ok: "ok s \<Longrightarrow> store c k v s = (r, s') \<Longrightarrow> ok s'"
    and store_healthy: "ok s \<Longrightarrow> store c k v s = (r, s') \<Longrightarrow> healthy s' = healthy s"
    and load_stored: "ok s \<Longrightarrow> good k v \<Longrightarrow> store c k v s = (None, s') \<Longrightarrow>
      load c' k s' = Inr (Some v) \<or> (isl (load c' k s') \<and> (c' \<noteq> None \<or> \<not> healthy s'))"
    and load_failed: "ok s \<Longrightarrow> good k v \<Longrightarrow> store c k v s = (Some e, s') \<Longrightarrow>
      load c' k s' = load c' k s \<or> load c' k s' = Inr (Some v)
        \<or> (isl (load c' k s') \<and> (c' \<noteq> None \<or> \<not> healthy s'))"
    and load_other: "ok s \<Longrightarrow> store c k v s = (r, s') \<Longrightarrow> \<not> same k k' \<Longrightarrow> load c' k' s' = load c' k' s"
begin

lemma load_stored_healthy:
  "ok s \<Longrightarrow> good k v \<Longrightarrow> store c k v s = (None, s') \<Longrightarrow> healthy s \<Longrightarrow> load None k s' = Inr (Some v)"
  using load_stored [of s k v c s' None] store_healthy [of s c k v None s'] by auto

lemma store_all_ok: "ok s \<Longrightarrow> store_all store ws s = (rs, s') \<Longrightarrow> ok s' \<and> healthy s' = healthy s"
proof (induction ws arbitrary: s rs)
  case (Cons w ws)
  obtain c k v where w: "w = (c, k, v)" by (cases w)
  with Cons.prems(2) obtain r s1 rs1 where one: "store c k v s = (r, s1)"
    and rest: "store_all store ws s1 = (rs1, s')"
    by (auto split: prod.splits)
  show ?case
    using Cons.IH [OF store_ok [OF Cons.prems(1) one] rest] store_healthy [OF Cons.prems(1) one] by simp
qed simp

lemma store_all_other:
  "ok s \<Longrightarrow> store_all store ws s = (rs, s') \<Longrightarrow> \<forall>(c, k, v) \<in> set ws. \<not> same k k' \<Longrightarrow>
     load c' k' s' = load c' k' s"
proof (induction ws arbitrary: s rs)
  case (Cons w ws)
  obtain c k v where w: "w = (c, k, v)" by (cases w)
  with Cons.prems(2) obtain r s1 rs1 where one: "store c k v s = (r, s1)"
    and rest: "store_all store ws s1 = (rs1, s')"
    by (auto split: prod.splits)
  have "load c' k' s' = load c' k' s1"
    using Cons.IH [OF store_ok [OF Cons.prems(1) one] rest] Cons.prems(3) by simp
  also have "\<dots> = load c' k' s" using load_other [OF Cons.prems(1) one] Cons.prems(3) w by simp
  finally show ?case .
qed simp

lemma store_all_last:
  assumes "ok s" and "healthy s" and "good k v"
    and "store_all store (ws1 @ (c, k, v) # ws2) s = (rs, s')" and "rs ! length ws1 = None"
    and "\<forall>(c, k', v) \<in> set ws2. \<not> same k' k"
  shows "load None k s' = Inr (Some v)"
  using assms(1,2,4,5)
proof (induction ws1 arbitrary: s rs)
  case Nil
  then obtain s1 rs1 where one: "store c k v s = (None, s1)" and rest: "store_all store ws2 s1 = (rs1, s')"
    by (auto split: prod.splits)
  have "load None k s' = load None k s1"
    using store_all_other [OF store_ok [OF Nil.prems(1) one] rest assms(6)] .
  then show ?case using load_stored_healthy [OF Nil.prems(1) assms(3) one Nil.prems(2)] by simp
next
  case (Cons w ws1)
  obtain c1 k1 v1 where w: "w = (c1, k1, v1)" by (cases w)
  with Cons.prems(3) obtain r s1 rs1 where one: "store c1 k1 v1 s = (r, s1)"
    and rest: "store_all store (ws1 @ (c, k, v) # ws2) s1 = (rs1, s')" and rs: "rs = r # rs1"
    by (auto split: prod.splits)
  show ?case
    using Cons.IH [OF store_ok [OF Cons.prems(1) one] _ rest] store_healthy [OF Cons.prems(1) one]
      Cons.prems(2,4) by (simp add: rs)
qed

end

text \<open>A cache whose loads give the same answer under every context they answer under.\<close>

locale cache_reads = cache_store +
  assumes load_agree: "load c k s = Inr r \<Longrightarrow> load c' k s = Inr r \<or> (isl (load c' k s) \<and> (c' \<noteq> None \<or> \<not> healthy s))"
begin

lemma answers_loaded: "load c k s = Inr (Some v) \<Longrightarrow> answers load healthy k v s"
  using load_agree by (auto simp: answers_def)

lemma answers_stored: "ok s \<Longrightarrow> good k v \<Longrightarrow> store c k v s = (None, s') \<Longrightarrow> answers load healthy k v s'"
  using load_stored by (simp add: answers_def)

lemma answers_other:
  "ok s \<Longrightarrow> store c k v s = (r, s') \<Longrightarrow> \<not> same k k' \<Longrightarrow> answers load healthy k' v' s \<Longrightarrow>
     answers load healthy k' v' s'"
  using load_other [of s c k v r s' k'] store_healthy [of s c k v r s'] by (simp add: answers_def)

lemma answers_load: "answers load healthy k v s \<Longrightarrow> load c k s = Inr a \<Longrightarrow> a = Some v"
  by (auto simp: answers_def dest: spec [of _ c])

end

end
