(* ===== verification/Atomic_File.thy ===== *)
theory Atomic_File
  imports Flow_Prelude
begin

text \<open>
  Atomic publication of a file, \<open>AtomicWrite\<close> of \<open>src/internal/fsutil/fsutil.go\<close>.

  The file system is a map from paths to contents. Each system call of the function may
  fail with an error of the operating system: \<open>faults\<close> says which one does, and a failed
  \<open>Write\<close> may leave any prefix of the data in the temporary file. \<open>os.CreateTemp\<close> makes a
  file under a name that is not taken, \<open>temp\<close>. The function returns its error and the
  file systems after each of its system calls, in order: the last one is the outcome, and
  any of them is what another process (or a restart after a crash) can find. Permissions
  and directories are not part of the state; neither is the loss of data that was not
  synced.
\<close>

type_synonym path = "string list"
type_synonym files = "path \<Rightarrow> string option"

datatype syscall =
  MkdirAll | CreateTemp | Chmod | WriteData | SyncFile | CloseFile | Rename | SyncDirectory

record write_env =
  we_ctx_before :: ctx
  we_ctx_after :: ctx
  we_fault :: "syscall \<Rightarrow> err option"
  we_partial :: nat
  we_temp :: path

definition failed :: "string \<Rightarrow> err \<Rightarrow> err" where
  "failed what e = Errorf (what @ '': %w'') [] (Some e)"

text \<open>The deferred cleanup closes and removes the temporary file.\<close>

definition cleanup :: "write_env \<Rightarrow> files \<Rightarrow> files" where
  "cleanup we fs = fs(we_temp we := None)"

definition AtomicWrite :: "write_env \<Rightarrow> path \<Rightarrow> string \<Rightarrow> files \<Rightarrow> err option \<times> files list" where
  "AtomicWrite we path data fs =
     (case we_ctx_before we of
        Some e \<Rightarrow> (Some e, [fs])
      | None \<Rightarrow>
     (case we_fault we MkdirAll of
        Some e \<Rightarrow> (Some (failed ''create parent directory'' e), [fs])
      | None \<Rightarrow>
     (case we_fault we CreateTemp of
        Some e \<Rightarrow> (Some (failed ''create temporary file'' e), [fs])
      | None \<Rightarrow>
     (let fs1 = fs(we_temp we \<mapsto> []) in
      case we_fault we Chmod of
        Some e \<Rightarrow> (Some (failed ''set file permissions'' e), [fs, fs1, cleanup we fs1])
      | None \<Rightarrow>
     (case we_fault we WriteData of
        Some e \<Rightarrow>
          (let fs2 = fs1(we_temp we \<mapsto> take (we_partial we) data) in
           (Some (failed ''write temporary file'' e), [fs, fs1, fs2, cleanup we fs2]))
      | None \<Rightarrow>
     (let fs2 = fs1(we_temp we \<mapsto> data) in
      case we_fault we SyncFile of
        Some e \<Rightarrow> (Some (failed ''sync temporary file'' e), [fs, fs1, fs2, cleanup we fs2])
      | None \<Rightarrow>
     (case we_ctx_after we of
        Some e \<Rightarrow> (Some e, [fs, fs1, fs2, cleanup we fs2])
      | None \<Rightarrow>
     (case we_fault we CloseFile of
        Some e \<Rightarrow> (Some (failed ''close temporary file'' e), [fs, fs1, fs2, cleanup we fs2])
      | None \<Rightarrow>
     (case we_fault we Rename of
        Some e \<Rightarrow> (Some (failed ''publish file'' e), [fs, fs1, fs2, cleanup we fs2])
      | None \<Rightarrow>
     (let fs3 = (fs2(we_temp we := None))(path \<mapsto> data) in
      case we_fault we SyncDirectory of
        Some e \<Rightarrow> (Some (failed ''sync parent directory'' e), [fs, fs1, fs2, fs3, cleanup we fs3])
      | None \<Rightarrow> (None, [fs, fs1, fs2, fs3, cleanup we fs3])))))))))))"

definition after_write :: "err option \<times> files list \<Rightarrow> files" where
  "after_write r = last (snd r)"

section \<open>What other processes see\<close>

text \<open>\<open>os.CreateTemp\<close>: the name was not taken, and it is not the destination.\<close>

definition fresh_temp :: "write_env \<Rightarrow> path \<Rightarrow> files \<Rightarrow> bool" where
  "fresh_temp we path fs \<longleftrightarrow> we_temp we \<noteq> path \<and> fs (we_temp we) = None"

lemma AtomicWrite_nonempty: "snd (AtomicWrite we path data fs) \<noteq> []"
  by (simp add: AtomicWrite_def Let_def split: option.splits)



text \<open>The outcome on the destination alone, for clients.\<close>

lemma AtomicWrite_outcome:
  assumes "fresh_temp we path fs" and "AtomicWrite we path data fs = (r, trace)"
  shows "r = None \<Longrightarrow> last trace = fs(path \<mapsto> data)"
    and "last trace = fs \<or> last trace = fs(path \<mapsto> data)"
  using assms
  by (auto simp: AtomicWrite_def Let_def fresh_temp_def cleanup_def fun_eq_iff split: option.splits if_splits)

end
