(* ===== verification/File_Cache.thy ===== *)
theory File_Cache
  imports Store_Interface Atomic_File
begin

text \<open>
  The durable result cache, \<open>FileCache\<close> of \<open>src/execution/cache.go\<close>.

  The state is the file system, with what the operating system will answer: which reads
  fail, and for every later write its faults, its temporary name and whether the context is
  cancelled meanwhile. \<open>disk_ok\<close> is what \<open>os.CreateTemp\<close> documents of the names it makes
  from the pattern \<open>.entry-*\<close>. The interpretation \<open>file_cache\<close> shows that the cache keeps
  the contract of \<open>Store_Interface\<close> under all these faults.
\<close>

record disk =
  d_files :: files
  d_stat_fault :: "path \<Rightarrow> err option"
  d_read_fault :: "path \<Rightarrow> err option"
  d_env :: "nat \<Rightarrow> path \<Rightarrow> write_env"
  d_writes :: nat

record FileCache =
  fc_directory :: string
  fc_maxEntryBytes :: int

definition cacheEntrySchema :: string where
  "cacheEntrySchema = ''rag-ttc-execution-cache/v1''"

text \<open>\<open>mkdir\<close> is the answer of \<open>os.MkdirAll\<close>.\<close>

definition NewFileCache :: "err option \<Rightarrow> string \<Rightarrow> int \<Rightarrow> FileCache result" where
  "NewFileCache mkdir directory maxEntryBytes =
     (if directory = [] then Inl (Errorf ''cache directory is required'' [] None)
      else let m = (if maxEntryBytes = 0 then 16 * 2 ^ 20 else maxEntryBytes) in
        if m < 1 then Inl (Errorf ''cache maximum entry bytes must be positive'' [] None)
        else case mkdir of
            Some e \<Rightarrow> Inl (Errorf ''create cache directory: %w'' [] (Some e))
          | None \<Rightarrow> Inr \<lparr>fc_directory = directory, fc_maxEntryBytes = m\<rparr>)"

definition entry_path :: "FileCache \<Rightarrow> string \<Rightarrow> path" where
  "entry_path fc d = [fc_directory fc, take 2 d, d @ ''.json'']"

definition cache_path :: "'v codec \<Rightarrow> FileCache \<Rightarrow> Key \<Rightarrow> path result" where
  "cache_path C fc k = (case Digest C k of Inl e \<Rightarrow> Inl e | Inr d \<Rightarrow> Inr (entry_path fc d))"

definition corrupt :: "string \<Rightarrow> farg list \<Rightarrow> err" where
  "corrupt what args = Errorf (''%w: '' @ what) args (Some (Sentinel ErrCorruptCache))"

text \<open>The checks of an entry that was read.\<close>

definition open_envelope :: "'v codec \<Rightarrow> Key \<Rightarrow> string \<Rightarrow> 'v option result" where
  "open_envelope C k data =
     (case DecodeStrict (decode_envelope C) (decode_any C) data of
        Inl e \<Rightarrow> Inl (corrupt ''decode envelope: %v'' [FErr e])
      | Inr env \<Rightarrow>
          if ce_SchemaVersion env \<noteq> cacheEntrySchema \<or> ce_Key env \<noteq> k \<or>
             ce_ValueDigest env \<noteq> digest_Bytes C (ce_Value env)
          then Inl (corrupt ''envelope validation failed'' [])
          else case DecodeStrictInto (decode_value C) (decode_any C) False (ce_Value env) of
              Inl e \<Rightarrow> Inl (corrupt ''decode value: %v'' [FErr e])
            | Inr v \<Rightarrow> Inr (Some v))"

text \<open>The cache pointer and the target may be \<open>nil\<close>.\<close>

definition FileCache_Load :: "'v codec \<Rightarrow> FileCache option \<Rightarrow> bool \<Rightarrow> ctx \<Rightarrow> Key \<Rightarrow> disk \<Rightarrow> 'v option result" where
  "FileCache_Load C fco target_nil c k d =
     (case fco of
        None \<Rightarrow> Inl (Errorf ''file cache is nil'' [] None)
      | Some fc \<Rightarrow>
          if target_nil then Inl (Errorf ''cache load target is required'' [] None)
          else case c of
              Some e \<Rightarrow> Inl e
            | None \<Rightarrow>
                (case cache_path C fc k of
                   Inl e \<Rightarrow> Inl e
                 | Inr path \<Rightarrow>
                     (case d_stat_fault d path of
                        Some e \<Rightarrow> Inl (Errorf ''stat cache entry: %w'' [] (Some e))
                      | None \<Rightarrow>
                          (case d_files d path of
                             None \<Rightarrow> Inr None
                           | Some data \<Rightarrow>
                               if int (length data) > fc_maxEntryBytes fc
                               then Inl (corrupt ''entry exceeds maximum size'' [])
                               else case d_read_fault d path of
                                   Some e \<Rightarrow> Inl (Errorf ''read cache entry: %w'' [] (Some e))
                                 | None \<Rightarrow> open_envelope C k data))))"

definition seal_envelope :: "'v codec \<Rightarrow> Key \<Rightarrow> string \<Rightarrow> cacheEnvelope" where
  "seal_envelope C k value =
     \<lparr>ce_SchemaVersion = cacheEntrySchema, ce_Key = k, ce_ValueDigest = digest_Bytes C value,
      ce_Value = value\<rparr>"

definition FileCache_Store :: "'v codec \<Rightarrow> FileCache option \<Rightarrow> ctx \<Rightarrow> Key \<Rightarrow> 'v \<Rightarrow> disk \<Rightarrow> err option \<times> disk" where
  "FileCache_Store C fco c k v d =
     (case fco of
        None \<Rightarrow> (Some (Errorf ''file cache is nil'' [] None), d)
      | Some fc \<Rightarrow>
     (case c of
        Some e \<Rightarrow> (Some e, d)
      | None \<Rightarrow>
     (case cache_path C fc k of
        Inl e \<Rightarrow> (Some e, d)
      | Inr path \<Rightarrow>
     (case marshal_value C v of
        Inl e \<Rightarrow> (Some (Errorf ''marshal cache value: %w'' [] (Some e)), d)
      | Inr value \<Rightarrow>
     (case marshal_envelope C (seal_envelope C k value) of
        Inl e \<Rightarrow> (Some (Errorf ''marshal cache envelope: %w'' [] (Some e)), d)
      | Inr data \<Rightarrow>
          if int (length data) > fc_maxEntryBytes fc
          then (Some (Errorf ''cache entry is %d bytes, maximum is %d''
                  [FInt (int (length data)), FInt (fc_maxEntryBytes fc)] None), d)
          else
            (case AtomicWrite (d_env d (d_writes d) path) path data (d_files d) of
               (r, trace) \<Rightarrow>
                 let d' = d\<lparr>d_files := last trace, d_writes := Suc (d_writes d)\<rparr> in
                 (case r of
                    Some e \<Rightarrow> (Some (Errorf ''publish cache entry: %w'' [] (Some e)), d')
                  | None \<Rightarrow> (None, d'))))))))"

section \<open>Laws of the codec\<close>

text \<open>What \<open>encoding/json\<close> documents, for one key and value: the text of the value decodes to
  the value, the text of the sealed envelope to the envelope, each with nothing after it, and
  the end of the input is the end. It holds for values whose JSON form loses nothing and keys
  whose strings are valid UTF-8.\<close>

definition json_law :: "'v codec \<Rightarrow> Key \<Rightarrow> 'v \<Rightarrow> bool" where
  "json_law C k v \<longleftrightarrow>
     decode_any C [] = AtEOF \<and>
     (\<forall>value. marshal_value C v = Inr value \<longrightarrow>
        decode_value C value = Decoded v [] \<and> unmarshal_value C value = Inr v \<and>
        (\<forall>data. marshal_envelope C (seal_envelope C k value) = Inr data \<longrightarrow>
           decode_envelope C data = Decoded (seal_envelope C k value) []))"

definition same_digest :: "'v codec \<Rightarrow> Key \<Rightarrow> Key \<Rightarrow> bool" where
  "same_digest C k k' \<longleftrightarrow> (\<exists>d. Digest C k = Inr d \<and> Digest C k' = Inr d)"

text \<open>The names of the writes to come are not taken and follow the pattern.\<close>

definition disk_ok :: "'v codec \<Rightarrow> disk \<Rightarrow> bool" where
  "disk_ok C d \<longleftrightarrow>
     hash_law C \<and>
     (\<forall>n p. d_writes d \<le> n \<longrightarrow>
        d_files d (we_temp (d_env d n p)) = None \<and>
        (\<exists>x. we_temp (d_env d n p) = butlast p @ [''.entry-'' @ x]))"

definition disk_healthy :: "FileCache \<Rightarrow> disk \<Rightarrow> bool" where
  "disk_healthy fc d \<longleftrightarrow> (\<forall>p. d_stat_fault d p = None \<and> d_read_fault d p = None)"

section \<open>The contract\<close>

lemma open_sealed:
  assumes "json_law C k v" and "marshal_value C v = Inr val"
    and "marshal_envelope C (seal_envelope C k val) = Inr data"
  shows "open_envelope C k data = Inr (Some v)"
proof -
  from assms have env: "decode_envelope C data = Decoded (seal_envelope C k val) []"
    and dec: "decode_value C val = Decoded v []" and eof: "decode_any C [] = AtEOF"
    by (auto simp: json_law_def)
  have "DecodeStrict (decode_envelope C) (decode_any C) data = Inr (seal_envelope C k val)"
    using env eof by (simp add: DecodeStrict_Inr)
  moreover have "DecodeStrictInto (decode_value C) (decode_any C) False val = Inr v"
    unfolding DecodeStrict_def [symmetric] DecodeStrict_Inr using dec eof by blast
  ultimately show ?thesis by (simp add: open_envelope_def seal_envelope_def)
qed

text \<open>A store that reaches the disk, and one that does not.\<close>

lemma hash_head:
  assumes "hash_law C" and "Digest C k = Inr dg"
  shows "butlast p @ [''.entry-'' @ x] \<noteq> entry_path fc dg"
proof
  assume "butlast p @ [''.entry-'' @ x] = entry_path fc dg"
  then have "dg @ ''.json'' = ''.entry-'' @ x" by (auto simp: entry_path_def)
  moreover obtain s where dg: "dg = digest_Bytes C s"
    using assms(2) by (auto simp: Digest_def split: option.splits sum.splits)
  then obtain c cs where "dg = c # cs" using digest_Bytes_valid(1) [OF assms(1), of s]
    by (metis length_0_conv neq_Nil_conv zero_neq_numeral)
  moreover from this have "is_hex c" using digest_Bytes_valid(2) [OF assms(1), of s] dg
    by (auto simp: hex_error_def split: if_splits)
  ultimately show False by (auto simp: is_hex_def)
qed

lemma disk_ok_temp:
  assumes "disk_ok C d" and "d_writes d \<le> n"
  shows "d_files d (we_temp (d_env d n p)) = None"
    and "\<exists>x. we_temp (d_env d n p) = butlast p @ [''.entry-'' @ x]"
    and "Digest C k = Inr dg \<Longrightarrow> we_temp (d_env d n p) \<noteq> entry_path fc dg"
proof -
  show "d_files d (we_temp (d_env d n p)) = None" using assms by (simp add: disk_ok_def)
  show pattern: "\<exists>x. we_temp (d_env d n p) = butlast p @ [''.entry-'' @ x]"
    using assms by (simp add: disk_ok_def)
  show "we_temp (d_env d n p) \<noteq> entry_path fc dg" if "Digest C k = Inr dg"
  proof -
    obtain x where "we_temp (d_env d n p) = butlast p @ [''.entry-'' @ x]" using pattern by blast
    moreover have "hash_law C" using assms by (simp add: disk_ok_def)
    ultimately show ?thesis using hash_head [OF _ that, of p x fc] by metis
  qed
qed

lemma FileCache_Store_cases:
  assumes "disk_ok C d" and "FileCache_Store C (Some fc) c k v d = (r, d')"
  obtains (refused) e where "r = Some e" and "d' = d"
  | (written) dg val data where "Digest C k = Inr dg" and "marshal_value C v = Inr val"
      and "marshal_envelope C (seal_envelope C k val) = Inr data"
      and "int (length data) \<le> fc_maxEntryBytes fc"
      and "d_files d' = d_files d \<or> d_files d' = (d_files d)(entry_path fc dg \<mapsto> data)"
      and "r = None \<Longrightarrow> d_files d' = (d_files d)(entry_path fc dg \<mapsto> data)"
      and "d' = d\<lparr>d_files := d_files d', d_writes := Suc (d_writes d)\<rparr>"
proof (cases "\<exists>dg val data. Digest C k = Inr dg \<and> marshal_value C v = Inr val
      \<and> marshal_envelope C (seal_envelope C k val) = Inr data
      \<and> int (length data) \<le> fc_maxEntryBytes fc \<and> c = None")
  case False
  then show ?thesis using assms(2) refused
    by (auto simp: FileCache_Store_def cache_path_def split: option.splits sum.splits if_splits)
      (auto simp: not_less)
next
  case True
  then obtain dg val data where v: "Digest C k = Inr dg" "marshal_value C v = Inr val"
    "marshal_envelope C (seal_envelope C k val) = Inr data"
    "int (length data) \<le> fc_maxEntryBytes fc" "c = None" by blast
  let ?p = "entry_path fc dg" and ?we = "d_env d (d_writes d) (entry_path fc dg)"
  obtain r1 trace where aw: "AtomicWrite ?we ?p data (d_files d) = (r1, trace)" by fastforce
  have "fresh_temp ?we ?p (d_files d)"
    using disk_ok_temp [OF assms(1) order_refl] v(1) by (simp add: fresh_temp_def)
  note out = AtomicWrite_outcome [OF this aw]
  have d': "d' = d\<lparr>d_files := last trace, d_writes := Suc (d_writes d)\<rparr>" and r: "r = None \<longleftrightarrow> r1 = None"
    using assms(2) v aw by (auto simp: FileCache_Store_def cache_path_def Let_def split: option.splits)
  show ?thesis using written [OF v(1-4)] out d' r by simp
qed

lemma entry_path_inj: "entry_path fc d = entry_path fc d' \<longleftrightarrow> d = d'"
  by (auto simp: entry_path_def)

text \<open>A load looks at the file of its key only.\<close>

lemma FileCache_Load_same_file:
  assumes "\<And>dg. Digest C k = Inr dg \<Longrightarrow> d_files d' (entry_path fc dg) = d_files d (entry_path fc dg)"
    and "d_stat_fault d' = d_stat_fault d" and "d_read_fault d' = d_read_fault d"
  shows "FileCache_Load C (Some fc) tn c k d' = FileCache_Load C (Some fc) tn c k d"
  using assms by (auto simp: FileCache_Load_def cache_path_def split: option.splits sum.splits)

lemma FileCache_Load_published:
  assumes "json_law C k v" and "Digest C k = Inr dg" and "marshal_value C v = Inr val"
    and "marshal_envelope C (seal_envelope C k val) = Inr data"
    and "int (length data) \<le> fc_maxEntryBytes fc" and "d_files d (entry_path fc dg) = Some data"
  shows "FileCache_Load C (Some fc) False c k d = Inr (Some v)
    \<or> (isl (FileCache_Load C (Some fc) False c k d) \<and> (c \<noteq> None \<or> \<not> disk_healthy fc d))"
  using assms(2,5,6) open_sealed [OF assms(1,3,4)]
  by (auto simp: FileCache_Load_def cache_path_def disk_healthy_def split: option.splits)

interpretation file_cache: cache_store
  "FileCache_Load C (Some fc) False" "FileCache_Store C (Some fc)" "same_digest C" "json_law C"
  "disk_ok C" "disk_healthy fc"
  for C :: "'v codec" and fc :: FileCache
proof
  fix d :: disk and c k v r d' c' k' e
  assume ok: "disk_ok C d" and store: "FileCache_Store C (Some fc) c k v d = (r, d')"
  show "disk_ok C d'"
  proof (cases rule: FileCache_Store_cases [OF ok store])
    case (2 dg val data)
    have fields: "d_env d' = d_env d" "d_writes d' = Suc (d_writes d)" by (subst 2(7), simp)+
    show ?thesis unfolding disk_ok_def fields
    proof (intro conjI allI impI)
      show "hash_law C" using ok by (simp add: disk_ok_def)
      fix n p
      assume "Suc (d_writes d) \<le> n"
      then have n: "d_writes d \<le> n" by simp
      show "\<exists>x. we_temp (d_env d n p) = butlast p @ [''.entry-'' @ x]"
        using disk_ok_temp(2) [OF ok n] .
      show "d_files d' (we_temp (d_env d n p)) = None"
        using disk_ok_temp(1) [OF ok n] disk_ok_temp(3) [OF ok n 2(1)] 2(5) by (metis fun_upd_other)
    qed
  qed (use ok in simp)
  show "disk_healthy fc d' = disk_healthy fc d" using ok store
    by (cases rule: FileCache_Store_cases [OF ok store]) (auto simp: disk_healthy_def)
  show "FileCache_Load C (Some fc) False c' k' d' = FileCache_Load C (Some fc) False c' k' d"
    if other: "\<not> same_digest C k k'"
  proof (cases rule: FileCache_Store_cases [OF ok store])
    case (2 dg val data)
    have "d_files d' (entry_path fc dg') = d_files d (entry_path fc dg')" if "Digest C k' = Inr dg'" for dg'
    proof -
      have "dg \<noteq> dg'" using other that 2(1) by (auto simp: same_digest_def)
      then show ?thesis using 2(5) entry_path_inj by (metis fun_upd_other)
    qed
    then show ?thesis using 2(7)
      by (intro FileCache_Load_same_file) (auto, (metis disk.select_convs disk.surjective disk.update_convs)+)
  qed simp
next
  fix d :: disk and c k v d' c'
  assume ok: "disk_ok C d" and good: "json_law C k v" and store: "FileCache_Store C (Some fc) c k v d = (None, d')"
  show "FileCache_Load C (Some fc) False c' k d' = Inr (Some v)
      \<or> isl (FileCache_Load C (Some fc) False c' k d') \<and> (c' \<noteq> None \<or> \<not> disk_healthy fc d')"
  proof (cases rule: FileCache_Store_cases [OF ok store])
    case (2 dg val data)
    then show ?thesis using FileCache_Load_published [OF good 2(1-4)] by simp
  qed simp
next
  fix d :: disk and c k v e d' c'
  assume ok: "disk_ok C d" and good: "json_law C k v" and store: "FileCache_Store C (Some fc) c k v d = (Some e, d')"
  show "FileCache_Load C (Some fc) False c' k d' = FileCache_Load C (Some fc) False c' k d
      \<or> FileCache_Load C (Some fc) False c' k d' = Inr (Some v)
      \<or> isl (FileCache_Load C (Some fc) False c' k d') \<and> (c' \<noteq> None \<or> \<not> disk_healthy fc d')"
  proof (cases rule: FileCache_Store_cases [OF ok store])
    case (2 dg val data)
    from 2(5) show ?thesis
    proof
      assume "d_files d' = d_files d"
      then have "d' = d\<lparr>d_files := d_files d, d_writes := Suc (d_writes d)\<rparr>" using 2(7) by simp
      then have "FileCache_Load C (Some fc) False c' k d' = FileCache_Load C (Some fc) False c' k d"
        by (intro FileCache_Load_same_file) simp_all
      then show ?thesis by blast
    next
      assume "d_files d' = (d_files d)(entry_path fc dg \<mapsto> data)"
      then show ?thesis using FileCache_Load_published [OF good 2(1-4)] by simp
    qed
  qed simp
qed

interpretation file_reads: cache_reads
  "FileCache_Load C (Some fc) False" "FileCache_Store C (Some fc)" "same_digest C" "json_law C"
  "disk_ok C" "disk_healthy fc"
  for C :: "'v codec" and fc :: FileCache
  by unfold_locales (auto simp: FileCache_Load_def split: option.splits)

section \<open>Properties\<close>

text \<open>C13. A completed result is replayed: after any sequence of stores into a file cache,
  each of which may fail anywhere, a load of a key on a disk that reads gives the value of
  the last store under the key's digest, when that store succeeded.\<close>

theorem file_cache_replays:
  assumes "disk_ok C d" and "disk_healthy fc d" and "json_law C k v"
    and "store_all (FileCache_Store C (Some fc)) (before @ (c, k, v) # later) d = (rs, d')"
    and "rs ! length before = None" and "\<forall>(c, k', v) \<in> set later. \<not> same_digest C k' k"
  shows "FileCache_Load C (Some fc) False None k d' = Inr (Some v)"
  using assms by (rule file_cache.store_all_last)

text \<open>The cache of the witnesses: an envelope is its value's text, and every write succeeds
  but those of the file system's second call.\<close>

definition demo_key :: Key where
  "demo_key = \<lparr>k_Step = ''judge'', k_Version = ''v1'', k_InputDigest = replicate 64 CHR ''0''\<rparr>"

definition sealed_decode :: "string \<Rightarrow> cacheEnvelope decoded" where
  "sealed_decode s = Decoded (seal_envelope demo_codec demo_key s) []"

definition sealed_codec :: "string codec" where
  "sealed_codec = demo_codec\<lparr>marshal_envelope := (\<lambda>e. Inr (ce_Value e)), decode_envelope := sealed_decode\<rparr>"

declare sealed_decode_def [simp]

definition demo_disk :: disk where
  "demo_disk = \<lparr>d_files = Map.empty, d_stat_fault = Map.empty, d_read_fault = Map.empty,
     d_env = (\<lambda>n p. \<lparr>we_ctx_before = None, we_ctx_after = None,
        we_fault = (\<lambda>c. if n = 1 \<and> c = SyncFile then Some (Foreign ''disk full'') else None),
        we_partial = 0, we_temp = butlast p @ [''.entry-'']\<rparr>),
     d_writes = 0\<rparr>"

definition demo_cache :: FileCache where
  "demo_cache = \<lparr>fc_directory = ''cache'', fc_maxEntryBytes = 100\<rparr>"

lemma demo_seal: "seal_envelope sealed_codec demo_key s = seal_envelope demo_codec demo_key s"
  by (simp add: seal_envelope_def digest_Bytes_def sealed_codec_def)

lemma demo_json_law: "json_law sealed_codec demo_key v"
  unfolding json_law_def demo_seal by (simp add: sealed_codec_def demo_codec_def seal_envelope_def)

lemma demo_disk_ok: "disk_ok sealed_codec demo_disk" "disk_healthy fc demo_disk"
  using demo_hash_law
  by (auto simp: disk_ok_def disk_healthy_def demo_disk_def hash_law_def sealed_codec_def)

lemma demo_digest: "\<exists>d. Digest sealed_codec demo_key = Inr d"
proof -
  have "key_validate demo_key = None"
    by (simp add: key_validate_def demo_key_def hex_error_def is_hex_def list_all_length)
  then show ?thesis by (simp add: Digest_def sealed_codec_def demo_codec_def)
qed

definition demo_writes :: "(ctx \<times> Key \<times> string) list" where
  "demo_writes = [(Some (Sentinel Canceled), demo_key, ''no''), (None, demo_key, ''yes'')]"

lemma demo_stores:
  "\<exists>e d'. store_all (FileCache_Store sealed_codec (Some demo_cache)) demo_writes demo_disk = ([Some e, None], d')"
  using demo_digest
  by (auto simp: demo_writes_def FileCache_Store_def cache_path_def AtomicWrite_def demo_disk_def demo_cache_def
      sealed_codec_def [THEN arg_cong, of marshal_value] sealed_codec_def [THEN arg_cong, of marshal_envelope]
      demo_codec_def seal_envelope_def Let_def)

theorem file_cache_replays_witness:
  "\<exists>rs d'. store_all (FileCache_Store sealed_codec (Some demo_cache)) demo_writes demo_disk = (rs, d')
     \<and> FileCache_Load sealed_codec (Some demo_cache) False None demo_key d' = Inr (Some ''yes'')"
proof -
  obtain e d' where run: "store_all (FileCache_Store sealed_codec (Some demo_cache)) demo_writes demo_disk
      = ([Some e, None], d')"
    using demo_stores by blast
  then have "store_all (FileCache_Store sealed_codec (Some demo_cache))
      ([(Some (Sentinel Canceled), demo_key, ''no'')] @ (None, demo_key, ''yes'') # []) demo_disk
      = ([Some e, None], d')"
    by (simp only: demo_writes_def append.simps)
  from file_cache_replays [OF demo_disk_ok demo_json_law this] run show ?thesis by simp
qed

text \<open>A cache directory that a sequence of stores filled holds nothing but their envelopes.\<close>

definition filled_by :: "'v codec \<Rightarrow> FileCache \<Rightarrow> (ctx \<times> Key \<times> 'v) list \<Rightarrow> disk \<Rightarrow> bool" where
  "filled_by C fc ws d \<longleftrightarrow>
     (\<forall>dg data. d_files d (entry_path fc dg) = Some data \<longrightarrow>
        (\<exists>c k v val. (c, k, v) \<in> set ws \<and> Digest C k = Inr dg \<and> marshal_value C v = Inr val \<and>
           marshal_envelope C (seal_envelope C k val) = Inr data))"

lemma filled_by_store:
  assumes "disk_ok C d" and "FileCache_Store C (Some fc) c k v d = (r, d')" and "filled_by C fc ws d"
  shows "filled_by C fc (ws @ [(c, k, v)]) d'"
proof (cases rule: FileCache_Store_cases [OF assms(1,2)])
  case 1
  then show ?thesis using assms(3) by (fastforce simp: filled_by_def)
next
  case (2 dg val data)
  show ?thesis unfolding filled_by_def
  proof (intro allI impI)
    fix dg' data'
    assume entry: "d_files d' (entry_path fc dg') = Some data'"
    show "\<exists>c' k' v' val. (c', k', v') \<in> set (ws @ [(c, k, v)]) \<and> Digest C k' = Inr dg' \<and>
        marshal_value C v' = Inr val \<and> marshal_envelope C (seal_envelope C k' val) = Inr data'"
    proof (cases "d_files d (entry_path fc dg') = Some data'")
      case True
      then show ?thesis using assms(3) by (fastforce simp: filled_by_def)
    next
      case False
      then have "dg' = dg" "data' = data" using entry 2(5) entry_path_inj
        by (metis fun_upd_apply option.inject)+
      then show ?thesis using 2(1-3) by auto
    qed
  qed
qed

lemma filled_by_all:
  "disk_ok C d \<Longrightarrow> filled_by C fc ws0 d \<Longrightarrow> store_all (FileCache_Store C (Some fc)) ws d = (rs, d') \<Longrightarrow>
     filled_by C fc (ws0 @ ws) d'"
proof (induction ws arbitrary: d rs ws0)
  case (Cons w ws)
  obtain c k v where w: "w = (c, k, v)" by (cases w)
  with Cons.prems(3) obtain r d1 rs1 where one: "FileCache_Store C (Some fc) c k v d = (r, d1)"
    and rest: "store_all (FileCache_Store C (Some fc)) ws d1 = (rs1, d')"
    by (auto split: prod.splits)
  from Cons.IH [OF file_cache.store_ok [OF Cons.prems(1) one] filled_by_store [OF Cons.prems(1) one Cons.prems(2)] rest]
  show ?case by (simp add: w)
qed simp

text \<open>C14. A file cache never mixes results up: a value that a load of a key gives, after any
  sequence of stores into an empty directory, was stored under exactly that key, even when
  SHA-256 gives two keys the same digest (the entry is then reported as corrupt).\<close>

theorem file_cache_authentic:
  assumes "disk_ok C d" and "\<forall>dg. d_files d (entry_path fc dg) = None"
    and "\<forall>(c, k, v) \<in> set ws. json_law C k v"
    and "store_all (FileCache_Store C (Some fc)) ws d = (rs, d')"
    and "FileCache_Load C (Some fc) False c k d' = Inr (Some v)"
  shows "\<exists>c'. (c', k, v) \<in> set ws"
proof -
  have "filled_by C fc [] d" using assms(2) by (simp add: filled_by_def)
  from filled_by_all [OF assms(1) this assms(4)] have filled: "filled_by C fc ws d'" by simp
  from assms(5) obtain dg data where entry: "d_files d' (entry_path fc dg) = Some data"
    and opened: "open_envelope C k data = Inr (Some v)"
    by (auto simp: FileCache_Load_def cache_path_def split: option.splits sum.splits if_splits)
  from filled entry obtain c' k' v' val where mem: "(c', k', v') \<in> set ws"
    and val: "marshal_value C v' = Inr val" "marshal_envelope C (seal_envelope C k' val) = Inr data"
    unfolding filled_by_def by blast
  have law: "json_law C k' v'" using assms(3) mem by auto
  then have "DecodeStrict (decode_envelope C) (decode_any C) data = Inr (seal_envelope C k' val)"
    using val by (auto simp: json_law_def DecodeStrict_Inr)
  then have "k' = k" using opened
    by (auto simp: open_envelope_def seal_envelope_def split: if_splits)
  moreover have "open_envelope C k' data = Inr (Some v')" using open_sealed [OF law val] .
  ultimately show ?thesis using opened mem by auto
qed

theorem file_cache_authentic_witness:
  "\<exists>rs d' c'. store_all (FileCache_Store sealed_codec (Some demo_cache)) demo_writes demo_disk = (rs, d')
     \<and> FileCache_Load sealed_codec (Some demo_cache) False None demo_key d' = Inr (Some ''yes'')
     \<and> (c', demo_key, ''yes'') \<in> set demo_writes"
proof -
  obtain e d' where run: "store_all (FileCache_Store sealed_codec (Some demo_cache)) demo_writes demo_disk
      = ([Some e, None], d')"
    using demo_stores by blast
  have writes: "demo_writes = [(Some (Sentinel Canceled), demo_key, ''no'')] @ (None, demo_key, ''yes'') # []"
    by (simp add: demo_writes_def)
  have load: "FileCache_Load sealed_codec (Some demo_cache) False None demo_key d' = Inr (Some ''yes'')"
    by (rule file_cache.store_all_last [OF demo_disk_ok demo_json_law run [unfolded writes]]) simp_all
  have "\<forall>dg. d_files demo_disk (entry_path demo_cache dg) = None" by (simp add: demo_disk_def)
  moreover have "\<forall>(c, k, v) \<in> set demo_writes. json_law sealed_codec k v"
    using demo_json_law by (simp add: demo_writes_def)
  ultimately have "\<exists>c'. (c', demo_key, ''yes'') \<in> set demo_writes"
    using file_cache_authentic [OF demo_disk_ok(1) _ _ run load] by blast
  with run load show ?thesis by blast
qed

end
