(* ===== verification/Memory_Store.thy ===== *)
theory Memory_Store
  imports Store_Interface File_Cache
begin

text \<open>
  The in-process store, \<open>MemoryStore\<close> of \<open>src/flow/store.go\<close>: the entries are a map from
  key digests to JSON texts, and a load decodes with \<open>json.Unmarshal\<close>. It keeps the contract
  of \<open>Store_Interface\<close>; its reads never fail on their own, so every state is healthy.
\<close>

type_synonym memory = "string \<Rightarrow> string option"

definition NewMemoryStore :: memory where
  "NewMemoryStore = Map.empty"

definition MemoryStore_Load :: "'v codec \<Rightarrow> ctx \<Rightarrow> Key \<Rightarrow> memory \<Rightarrow> 'v option result" where
  "MemoryStore_Load C c k m =
     (case c of
        Some e \<Rightarrow> Inl e
      | None \<Rightarrow>
          (case Digest C k of
             Inl e \<Rightarrow> Inl e
           | Inr d \<Rightarrow>
               (case m d of
                  None \<Rightarrow> Inr None
                | Some data \<Rightarrow>
                    (case unmarshal_value C data of
                       Inl e \<Rightarrow> Inl (Errorf ''decode memory store entry: %w'' [] (Some e))
                     | Inr v \<Rightarrow> Inr (Some v)))))"

definition MemoryStore_Store :: "'v codec \<Rightarrow> ctx \<Rightarrow> Key \<Rightarrow> 'v \<Rightarrow> memory \<Rightarrow> err option \<times> memory" where
  "MemoryStore_Store C c k v m =
     (case c of
        Some e \<Rightarrow> (Some e, m)
      | None \<Rightarrow>
          (case Digest C k of
             Inl e \<Rightarrow> (Some e, m)
           | Inr d \<Rightarrow>
               (case marshal_value C v of
                  Inl e \<Rightarrow> (Some (Errorf ''marshal memory store value: %w'' [] (Some e)), m)
                | Inr data \<Rightarrow> (None, m(d \<mapsto> data)))))"

text \<open>\<open>Len\<close> counts the entries of the map's domain.\<close>

definition Len :: "memory \<Rightarrow> nat" where
  "Len m = card (dom m)"

definition no_state_law :: "'s \<Rightarrow> bool" where
  "no_state_law s \<longleftrightarrow> True"

interpretation memory_store: cache_store
  "MemoryStore_Load C" "MemoryStore_Store C" "same_digest C" "json_law C" no_state_law no_state_law
  for C :: "'v codec"
proof
  fix m m' :: memory and c k v c' k' e r
  show "no_state_law m'" "no_state_law m' = no_state_law m" by (simp_all add: no_state_law_def)
  show "MemoryStore_Load C c' k' m' = MemoryStore_Load C c' k' m"
    if "MemoryStore_Store C c k v m = (r, m')" "\<not> same_digest C k k'"
    using that by (auto simp: MemoryStore_Store_def MemoryStore_Load_def same_digest_def
        split: option.splits sum.splits)
  show "MemoryStore_Load C c' k m' = Inr (Some v)
      \<or> isl (MemoryStore_Load C c' k m') \<and> (c' \<noteq> None \<or> \<not> no_state_law m')"
    if "json_law C k v" "MemoryStore_Store C c k v m = (None, m')"
    using that by (auto simp: MemoryStore_Store_def MemoryStore_Load_def json_law_def
        split: option.splits sum.splits)
  show "MemoryStore_Load C c' k m' = MemoryStore_Load C c' k m
      \<or> MemoryStore_Load C c' k m' = Inr (Some v)
      \<or> isl (MemoryStore_Load C c' k m') \<and> (c' \<noteq> None \<or> \<not> no_state_law m')"
    if "MemoryStore_Store C c k v m = (Some e, m')"
    using that by (auto simp: MemoryStore_Store_def split: option.splits sum.splits)
qed

interpretation memory_reads: cache_reads
  "MemoryStore_Load C" "MemoryStore_Store C" "same_digest C" "json_law C" no_state_law no_state_law
  for C :: "'v codec"
  by unfold_locales (auto simp: MemoryStore_Load_def split: option.splits)

lemma store_all_length: "store_all store ws s = (rs, s') \<Longrightarrow> length rs = length ws"
  by (induction store ws s arbitrary: rs s' rule: store_all.induct) (auto split: prod.splits)

text \<open>C16. The two stores are interchangeable: started empty, with the same stores all
  succeeded on both, the file cache (on a disk that reads) and the memory store give the same
  answer to a load of any key, as long as the codecs keep the stored values and no other key
  that was stored has its digest.\<close>

theorem stores_interchangeable:
  assumes "disk_ok C d" and "disk_healthy fc d" and "\<forall>dg. d_files d (entry_path fc dg) = None"
    and "\<forall>(c, k, v) \<in> set ws. json_law C k v"
    and "store_all (FileCache_Store C (Some fc)) ws d = (rs, d')" and "\<forall>r \<in> set rs. r = None"
    and "store_all (MemoryStore_Store C) ws NewMemoryStore = (rs', m')" and "\<forall>r \<in> set rs'. r = None"
    and "Digest C k = Inr dg" and "\<forall>(c, k', v) \<in> set ws. Digest C k' = Inr dg \<longrightarrow> k' = k"
  shows "FileCache_Load C (Some fc) False None k d' = MemoryStore_Load C None k m'"
proof (cases "\<exists>w \<in> set ws. fst (snd w) = k")
  case True
  then obtain before w later where ws: "ws = before @ w # later" "fst (snd w) = k"
    and later: "\<forall>w \<in> set later. fst (snd w) \<noteq> k"
    by (rule split_list_last_propE)
  obtain c v where w: "w = (c, k, v)" using ws(2) by (cases w) auto
  have law: "json_law C k v" using assms(4) ws w by auto
  have other: "\<forall>(c, k', v) \<in> set later. \<not> same_digest C k' k"
    using later assms(9,10) ws(1) by (fastforce simp: same_digest_def)
  have "length before < length rs" "length before < length rs'"
    using store_all_length [OF assms(5)] store_all_length [OF assms(7)] ws(1) by simp_all
  then have "rs ! length before = None" "rs' ! length before = None"
    using assms(6,8) by simp_all
  then have "FileCache_Load C (Some fc) False None k d' = Inr (Some v)"
    and "MemoryStore_Load C None k m' = Inr (Some v)"
    using file_cache.store_all_last [OF assms(1,2) law assms(5) [unfolded ws(1) w] _ other]
      memory_store.store_all_last [OF _ _ law assms(7) [unfolded ws(1) w] _ other]
    by (simp_all add: no_state_law_def)
  then show ?thesis by simp
next
  case False
  then have other: "\<forall>(c, k', v) \<in> set ws. \<not> same_digest C k' k"
    using assms(9,10) by (fastforce simp: same_digest_def)
  have "FileCache_Load C (Some fc) False None k d' = FileCache_Load C (Some fc) False None k d"
    using file_cache.store_all_other [OF assms(1,5) other] .
  also have "\<dots> = Inr None"
    using assms(2,3,9) by (simp add: FileCache_Load_def cache_path_def disk_healthy_def)
  also have "\<dots> = MemoryStore_Load C None k NewMemoryStore"
    using assms(9) by (simp add: MemoryStore_Load_def NewMemoryStore_def)
  also have "\<dots> = MemoryStore_Load C None k m'"
    using memory_store.store_all_other [OF _ assms(7) other] by (simp add: no_state_law_def)
  finally show ?thesis .
qed

theorem stores_interchangeable_witness:
  "\<exists>rs d' rs' m'. store_all (FileCache_Store sealed_codec (Some demo_cache)) [(None, demo_key, ''yes'')] demo_disk = (rs, d')
     \<and> store_all (MemoryStore_Store sealed_codec) [(None, demo_key, ''yes'')] NewMemoryStore = (rs', m')
     \<and> FileCache_Load sealed_codec (Some demo_cache) False None demo_key d' = MemoryStore_Load sealed_codec None demo_key m'"
proof -
  let ?ws = "[(None :: ctx, demo_key, ''yes'')]"
  obtain dg where dg: "Digest sealed_codec demo_key = Inr dg" using demo_digest by blast
  obtain d' where f: "store_all (FileCache_Store sealed_codec (Some demo_cache)) ?ws demo_disk = ([None], d')"
    using dg by (auto simp: FileCache_Store_def cache_path_def AtomicWrite_def demo_disk_def demo_cache_def
        sealed_codec_def [THEN arg_cong, of marshal_value] sealed_codec_def [THEN arg_cong, of marshal_envelope]
        demo_codec_def seal_envelope_def Let_def)
  obtain m' where m: "store_all (MemoryStore_Store sealed_codec) ?ws NewMemoryStore = ([None], m')"
    using dg by (auto simp: MemoryStore_Store_def sealed_codec_def [THEN arg_cong, of marshal_value] demo_codec_def)
  have empty: "\<forall>dg. d_files demo_disk (entry_path demo_cache dg) = None" by (simp add: demo_disk_def)
  have law: "\<forall>(c, k, v) \<in> set ?ws. json_law sealed_codec k v" using demo_json_law by simp
  have "FileCache_Load sealed_codec (Some demo_cache) False None demo_key d' = MemoryStore_Load sealed_codec None demo_key m'"
    by (rule stores_interchangeable [OF demo_disk_ok empty law f _ m _ dg]) simp_all
  with f m show ?thesis by blast
qed

end
