(* ===== verification/MySQL_Server.thy ===== *)
theory MySQL_Server
  imports File_Cache
begin

text \<open>
  The statements \<open>MySQLCache\<close> of \<open>src/execution/mysql_cache.go\<close> sends, and what it relies on of the
  server and its driver, which are not part of the repository.

  A \<open>sql\<close> is one statement of the code with its arguments; \<open>sql_text\<close> is the text the code sends.
  A \<open>server\<close> is a parameter: its state \<open>'d\<close>, how it answers a query and executes a statement, and
  the session lock. \<open>sv_view\<close> reads the schema and the rows of the selected database off its state;
  \<open>server_law\<close> is what MySQL documents of the statements: a query answers what the view has or
  fails, and a statement that changes something does it as a whole or not at all, also when the
  client is told of an error (the connection may be lost after the commit). \<open>sv_range\<close> is the order
  in which Go ranges over a map.
\<close>

section \<open>Statements\<close>

datatype sql =
    SelectDatabase
  | CountTables string
  | CreateVersions
  | ReadVersion string
  | InsertVersion string
  | SetVersion int string
  | CreateCache string
  | SelectColumns string
  | CountPrimary string
  | SelectValue string string
  | Upsert string string "string list" int

datatype cell = NullCell | IntCell int | TextCell string

definition mysqlSchemaVersionTbl :: string where
  "mysqlSchemaVersionTbl = ''flowkit_schema_version''"

definition mysqlCacheSchemaV1 :: int where
  "mysqlCacheSchemaV1 = 1"

definition mysqlMediumTextMax :: int where
  "mysqlMediumTextMax = 2 ^ 24 - 1"

text \<open>\<open>^[A-Za-z_][A-Za-z0-9_$]{0,63}$\<close>.\<close>

definition mysqlIdentifier :: "string \<Rightarrow> bool" where
  "mysqlIdentifier s \<longleftrightarrow>
     (let letters = ''ABCDEFGHIJKLMNOPQRSTUVWXYZabcdefghijklmnopqrstuvwxyz_'' in
      case s of
        [] \<Rightarrow> False
      | c # cs \<Rightarrow> c \<in> set letters \<and> length cs \<le> 63 \<and> list_all (\<lambda>x. x \<in> set (letters @ ''0123456789$'')) cs)"

text \<open>A name between backquotes, with its own backquotes doubled.\<close>

definition quoteMySQLIdentifier :: "string \<Rightarrow> string" where
  "quoteMySQLIdentifier identifier =
     ''`'' @ concat (map (\<lambda>c. if c = CHR ''`'' then ''``'' else [c]) identifier) @ ''`''"

text \<open>The texts, with line breaks and indentation as single spaces. The names a query only compares
  are arguments, marked by question marks; the names of tables to read and write are quoted.\<close>

fun sql_text :: "sql \<Rightarrow> string" where
  "sql_text SelectDatabase = ''SELECT DATABASE()''"
| "sql_text (CountTables _) =
     ''SELECT COUNT(*) FROM information_schema.tables WHERE table_schema = DATABASE() AND BINARY table_name = BINARY ?''"
| "sql_text CreateVersions =
     ''CREATE TABLE flowkit_schema_version ( component VARBINARY(128) NOT NULL PRIMARY KEY, '' @
     ''schema_version BIGINT NOT NULL ) ENGINE=InnoDB''"
| "sql_text (ReadVersion _) = ''SELECT schema_version FROM flowkit_schema_version WHERE component = ?''"
| "sql_text (InsertVersion _) = ''INSERT INTO flowkit_schema_version(component, schema_version) VALUES(?, 0)''"
| "sql_text (SetVersion _ _) =
     ''UPDATE flowkit_schema_version SET schema_version = ? WHERE component = ? AND schema_version = 0''"
| "sql_text (CreateCache t) =
     ''CREATE TABLE '' @ quoteMySQLIdentifier t @ '' ( key_digest VARBINARY(64) NOT NULL PRIMARY KEY, '' @
     ''step MEDIUMTEXT NOT NULL, version MEDIUMTEXT NOT NULL, input_digest VARBINARY(64) NOT NULL, '' @
     ''value_digest VARBINARY(64) NOT NULL, value_json MEDIUMTEXT NOT NULL, created_at BIGINT NOT NULL ) ENGINE=InnoDB''"
| "sql_text (SelectColumns _) =
     ''SELECT column_name, data_type, is_nullable, COALESCE(CAST(character_maximum_length AS CHAR), 'NULL') '' @
     ''FROM information_schema.columns WHERE table_schema = DATABASE() AND BINARY table_name = BINARY ?''"
| "sql_text (CountPrimary _) =
     ''SELECT COUNT(*) FROM information_schema.statistics WHERE table_schema = DATABASE() AND BINARY table_name = BINARY ? '' @
     ''AND index_name = 'PRIMARY' AND column_name = 'key_digest' AND seq_in_index = 1''"
| "sql_text (SelectValue t _) = ''SELECT value_json FROM '' @ quoteMySQLIdentifier t @ '' WHERE key_digest = ?''"
| "sql_text (Upsert t _ _ _) =
     ''INSERT INTO '' @ quoteMySQLIdentifier t @
     '' (key_digest, step, version, input_digest, value_digest, value_json, created_at) VALUES (?, ?, ?, ?, ?, ?, ?) '' @
     ''ON DUPLICATE KEY UPDATE step = VALUES(step), version = VALUES(version), input_digest = VALUES(input_digest), '' @
     ''value_digest = VALUES(value_digest), value_json = VALUES(value_json), created_at = VALUES(created_at)''"

section \<open>The database as the statements see it\<close>

text \<open>The columns of a table as \<open>SelectColumns\<close> lists them; a row under its key digest is the texts
  \<open>step\<close>, \<open>version\<close>, \<open>input_digest\<close>, \<open>value_digest\<close>, \<open>value_json\<close>, and the time.\<close>

record table =
  tb_columns :: "(string \<times> string \<times> string \<times> string) list"
  tb_primary :: int
  tb_rows :: "string \<Rightarrow> (string list \<times> int) option"

record database =
  db_versions :: "(string \<Rightarrow> int option) option"
  db_tables :: "string \<Rightarrow> table option"

definition cache_columns :: "(string \<times> string \<times> string \<times> string) list" where
  "cache_columns =
     [(''key_digest'', ''varbinary'', ''NO'', ''64''), (''step'', ''mediumtext'', ''NO'', ''16777215''),
      (''version'', ''mediumtext'', ''NO'', ''16777215''), (''input_digest'', ''varbinary'', ''NO'', ''64''),
      (''value_digest'', ''varbinary'', ''NO'', ''64''), (''value_json'', ''mediumtext'', ''NO'', ''16777215''),
      (''created_at'', ''bigint'', ''NO'', ''NULL'')]"

definition cache_table :: table where
  "cache_table = \<lparr>tb_columns = cache_columns, tb_primary = 1, tb_rows = Map.empty\<rparr>"

definition has_table :: "database \<Rightarrow> string \<Rightarrow> bool" where
  "has_table db t \<longleftrightarrow> (if t = mysqlSchemaVersionTbl then db_versions db \<noteq> None else db_tables db t \<noteq> None)"

text \<open>Whether a row fits its columns.\<close>

definition row_fits :: "string \<Rightarrow> string list \<Rightarrow> bool" where
  "row_fits dg row \<longleftrightarrow> length dg \<le> 64 \<and>
     list_all (\<lambda>(s, l). int (length s) \<le> l) (zip row [mysqlMediumTextMax, mysqlMediumTextMax, 64, 64, mysqlMediumTextMax])"

text \<open>What a statement does to the database; \<open>None\<close> is one the server must refuse: a table that
  exists or does not, a name or a value that is too long, a duplicate key.\<close>

fun effect_of :: "sql \<Rightarrow> database \<Rightarrow> database option" where
  "effect_of CreateVersions db =
     (if db_versions db = None then Some (db\<lparr>db_versions := Some Map.empty\<rparr>) else None)"
| "effect_of (InsertVersion c) db =
     (case db_versions db of
        Some vs \<Rightarrow> if vs c = None \<and> length c \<le> 128 then Some (db\<lparr>db_versions := Some (vs(c \<mapsto> 0))\<rparr>) else None
      | None \<Rightarrow> None)"
| "effect_of (SetVersion v c) db =
     (case db_versions db of
        Some vs \<Rightarrow> Some (db\<lparr>db_versions := Some (if vs c = Some 0 then vs(c \<mapsto> v) else vs)\<rparr>)
      | None \<Rightarrow> None)"
| "effect_of (CreateCache t) db =
     (if has_table db t \<or> 64 < length t then None else Some (db\<lparr>db_tables := (db_tables db)(t \<mapsto> cache_table)\<rparr>))"
| "effect_of (Upsert t dg row time) db =
     (case db_tables db t of
        Some tb \<Rightarrow>
          if row_fits dg row
          then Some (db\<lparr>db_tables := (db_tables db)(t \<mapsto> tb\<lparr>tb_rows := (tb_rows tb)(dg \<mapsto> (row, time))\<rparr>)\<rparr>)
          else None
      | None \<Rightarrow> None)"
| "effect_of _ db = Some db"

text \<open>The rows a query gives; \<open>None\<close> where the documentation leaves them open.\<close>

fun answer_of :: "sql \<Rightarrow> database \<Rightarrow> cell list list option" where
  "answer_of (CountTables t) db = Some [[IntCell (if has_table db t then 1 else 0)]]"
| "answer_of (ReadVersion c) db =
     (case db_versions db of
        Some vs \<Rightarrow> Some (case vs c of Some v \<Rightarrow> [[IntCell v]] | None \<Rightarrow> [])
      | None \<Rightarrow> None)"
| "answer_of (SelectColumns t) db =
     Some (case db_tables db t of
        Some tb \<Rightarrow> map (\<lambda>(c, ty, nullable, l). [TextCell c, TextCell ty, TextCell nullable, TextCell l]) (tb_columns tb)
      | None \<Rightarrow> [])"
| "answer_of (CountPrimary t) db =
     Some [[IntCell (case db_tables db t of Some tb \<Rightarrow> tb_primary tb | None \<Rightarrow> 0)]]"
| "answer_of (SelectValue t dg) db =
     (case db_tables db t of
        Some tb \<Rightarrow> Some (case tb_rows tb dg of Some (row, _) \<Rightarrow> [[TextCell (row ! 4)]] | None \<Rightarrow> [])
      | None \<Rightarrow> None)"
| "answer_of _ db = None"

section \<open>The server\<close>

record 'd server =
  sv_conn :: "ctx \<Rightarrow> 'd \<Rightarrow> err option \<times> 'd"
  sv_lock :: "ctx \<Rightarrow> string \<Rightarrow> 'd \<Rightarrow> int option result \<times> 'd"
  sv_release :: "string \<Rightarrow> 'd \<Rightarrow> 'd"
  sv_query :: "ctx \<Rightarrow> sql \<Rightarrow> 'd \<Rightarrow> (cell list list \<times> err option) result"
  sv_exec :: "ctx \<Rightarrow> sql \<Rightarrow> 'd \<Rightarrow> err option \<times> 'd"
  sv_view :: "'d \<Rightarrow> database"
  sv_up :: "'d \<Rightarrow> bool"
  sv_range :: "(string \<times> string) list \<Rightarrow> (string \<times> string) list"

text \<open>Queries answer what the view has, and statements take effect as a whole or not at all. A query
  without an error after its last row has answered in full.\<close>

definition statement_law :: "'d server \<Rightarrow> bool" where
  "statement_law sv \<longleftrightarrow>
     (\<forall>c q d rows a. sv_query sv c q d = Inr (rows, None) \<longrightarrow> answer_of q (sv_view sv d) = Some a \<longrightarrow> rows = a) \<and>
     (\<forall>c q d e d'. sv_exec sv c q d = (e, d') \<longrightarrow>
        sv_view sv d' = sv_view sv d \<and> e \<noteq> None \<or> effect_of q (sv_view sv d) = Some (sv_view sv d')) \<and>
     (\<forall>d t tb. db_tables (sv_view sv d) t = Some tb \<longrightarrow> distinct (map fst (tb_columns tb)))"

text \<open>The session calls leave the view and whether the server answers as they are, and an outage neither
  begins nor ends with a statement: a query whose answer the statement does not change goes as before.\<close>

definition session_law :: "'d server \<Rightarrow> bool" where
  "session_law sv \<longleftrightarrow>
     (\<forall>c q d e d' c' q'. sv_exec sv c q d = (e, d') \<longrightarrow>
        answer_of q' (sv_view sv d') = answer_of q' (sv_view sv d) \<longrightarrow> sv_query sv c' q' d' = sv_query sv c' q' d) \<and>
     (\<forall>c q d e d'. sv_exec sv c q d = (e, d') \<longrightarrow> sv_up sv d' = sv_up sv d) \<and>
     (\<forall>c d e d'. sv_conn sv c d = (e, d') \<longrightarrow> sv_view sv d' = sv_view sv d \<and> sv_up sv d' = sv_up sv d) \<and>
     (\<forall>c l d a d'. sv_lock sv c l d = (a, d') \<longrightarrow> sv_view sv d' = sv_view sv d \<and> sv_up sv d' = sv_up sv d) \<and>
     (\<forall>l d. sv_view sv (sv_release sv l d) = sv_view sv d \<and> sv_up sv (sv_release sv l d) = sv_up sv d)"

text \<open>\<open>sv_up\<close> says that the server answers under a live context: a database is selected, no connection
  is lost, no other session holds the lock, and a statement it need not refuse succeeds.\<close>

definition up_law :: "'d server \<Rightarrow> bool" where
  "up_law sv \<longleftrightarrow>
     (\<forall>d. sv_up sv d \<longrightarrow>
        (\<forall>q. \<exists>rows. sv_query sv None q d = Inr (rows, None)) \<and>
        (\<exists>db. sv_query sv None SelectDatabase d = Inr ([[TextCell db]], None)) \<and>
        (\<forall>q. effect_of q (sv_view sv d) \<noteq> None \<longrightarrow> fst (sv_exec sv None q d) = None) \<and>
        fst (sv_conn sv None d) = None \<and> (\<forall>l. fst (sv_lock sv None l d) = Inr (Some 1)))"

definition server_law :: "'d server \<Rightarrow> bool" where
  "server_law sv \<longleftrightarrow> statement_law sv \<and> session_law sv \<and> up_law sv \<and> (\<forall>xs. set (sv_range sv xs) = set xs)"

lemma law_query:
  assumes "server_law sv"
  shows "sv_query sv c q d = Inr (rows, None) \<Longrightarrow> answer_of q (sv_view sv d) = Some a \<Longrightarrow> rows = a"
  using assms unfolding server_law_def statement_law_def by blast

lemma law_exec:
  assumes "server_law sv" and "sv_exec sv c q d = (e, d')"
  shows "sv_view sv d' = sv_view sv d \<and> e \<noteq> None \<or> effect_of q (sv_view sv d) = Some (sv_view sv d')"
    and "sv_up sv d' = sv_up sv d"
proof -
  have "statement_law sv" "session_law sv" using assms(1) by (simp_all add: server_law_def)
  then show "sv_view sv d' = sv_view sv d \<and> e \<noteq> None \<or> effect_of q (sv_view sv d) = Some (sv_view sv d')"
    and "sv_up sv d' = sv_up sv d"
    unfolding statement_law_def session_law_def using assms(2) by (metis, metis)
qed

lemma law_same_query:
  assumes "server_law sv" and "sv_exec sv c q d = (e, d')"
    and "answer_of q' (sv_view sv d') = answer_of q' (sv_view sv d)"
  shows "sv_query sv c' q' d' = sv_query sv c' q' d"
proof -
  have "session_law sv" using assms(1) by (simp add: server_law_def)
  then show ?thesis unfolding session_law_def using assms(2,3) by metis
qed

lemma law_conn:
  "server_law sv \<Longrightarrow> sv_conn sv c d = (e, d') \<Longrightarrow> sv_view sv d' = sv_view sv d \<and> sv_up sv d' = sv_up sv d"
  unfolding server_law_def session_law_def by blast

lemma law_lock:
  "server_law sv \<Longrightarrow> sv_lock sv c l d = (a, d') \<Longrightarrow> sv_view sv d' = sv_view sv d \<and> sv_up sv d' = sv_up sv d"
  unfolding server_law_def session_law_def by blast

lemma law_release:
  assumes "server_law sv"
  shows "sv_view sv (sv_release sv l d) = sv_view sv d" and "sv_up sv (sv_release sv l d) = sv_up sv d"
  using assms unfolding server_law_def session_law_def by blast+

lemma law_up:
  assumes "server_law sv" and "sv_up sv d"
  shows "\<exists>rows. sv_query sv None q d = Inr (rows, None)"
    and "\<exists>db. sv_query sv None SelectDatabase d = Inr ([[TextCell db]], None)"
    and "effect_of q (sv_view sv d) \<noteq> None \<Longrightarrow> fst (sv_exec sv None q d) = None"
    and "fst (sv_conn sv None d) = None" and "fst (sv_lock sv None l d) = Inr (Some 1)"
  using assms unfolding server_law_def up_law_def by blast+

lemma law_tables:
  assumes "server_law sv"
  shows "db_tables (sv_view sv d) t = Some tb \<Longrightarrow> distinct (map fst (tb_columns tb))"
    and "set (sv_range sv xs) = set xs"
  using assms unfolding server_law_def statement_law_def by blast+

section \<open>Reading a row\<close>

text \<open>\<open>QueryRow\<close> with \<open>Scan\<close>: the first row, \<open>sql.ErrNoRows\<close>, or an error.\<close>

datatype 'a scanned = NoRows | ScanError err | Scanned 'a

definition query_row :: "'d server \<Rightarrow> ctx \<Rightarrow> sql \<Rightarrow> (cell list \<Rightarrow> 'a option) \<Rightarrow> 'd \<Rightarrow> 'a scanned" where
  "query_row sv c q scan d =
     (case sv_query sv c q d of
        Inl e \<Rightarrow> ScanError e
      | Inr ([], Some e) \<Rightarrow> ScanError e
      | Inr ([], None) \<Rightarrow> NoRows
      | Inr (row # _, Some e) \<Rightarrow> ScanError e
      | Inr (row # _, None) \<Rightarrow>
          (case scan row of Some v \<Rightarrow> Scanned v | None \<Rightarrow> ScanError (Foreign ''sql: Scan error'')))"

fun scan_int :: "cell list \<Rightarrow> int option" where
  "scan_int [IntCell n] = Some n"
| "scan_int _ = None"

fun scan_text :: "cell list \<Rightarrow> string option" where
  "scan_text [TextCell s] = Some s"
| "scan_text _ = None"

definition no_rows :: err where "no_rows = Foreign ''sql: no rows in result set''"

text \<open>Where the code does not look for \<open>sql.ErrNoRows\<close>.\<close>

definition scanned :: "'a scanned \<Rightarrow> 'a result" where
  "scanned r = (case r of NoRows \<Rightarrow> Inl no_rows | ScanError e \<Rightarrow> Inl e | Scanned v \<Rightarrow> Inr v)"

end
