(* ===== verification/MySQL_Schema.thy ===== *)
theory MySQL_Schema
  imports MySQL_Server "HOL-Library.AList"
begin

text \<open>
  The schema of the MySQL cache: \<open>migrate\<close> and its helpers in \<open>src/execution/mysql_cache.go\<close>.

  A call that stops at an error leaves what its statements have done so far, and its last statement
  may or may not have taken effect; this is also what a crash of the process leaves, since the
  server drops the session lock with the connection. \<open>phase\<close> is the abstract state machine the
  migration implements.
\<close>

section \<open>Names and inspection\<close>

definition mysqlCacheSchemaComponent :: "string \<Rightarrow> string" where
  "mysqlCacheSchemaComponent t = ''execution.cache.'' @ t"

definition mysqlCacheMigrationLock :: "'v codec \<Rightarrow> string \<Rightarrow> string" where
  "mysqlCacheMigrationLock C dbname = ''flowkit.cache.'' @ take 48 (digest_Bytes C dbname)"

definition mysqlTableExists :: "'d server \<Rightarrow> ctx \<Rightarrow> string \<Rightarrow> 'd \<Rightarrow> bool result" where
  "mysqlTableExists sv c t d =
     (case scanned (query_row sv c (CountTables t) scan_int d) of Inl e \<Rightarrow> Inl e | Inr n \<Rightarrow> Inr (0 < n))"

definition createMySQLCacheSchemaV1 :: "'d server \<Rightarrow> ctx \<Rightarrow> string \<Rightarrow> 'd \<Rightarrow> err option \<times> 'd" where
  "createMySQLCacheSchemaV1 sv c t d =
     (case sv_exec sv c (CreateCache t) d of
        (Some e, d1) \<Rightarrow> (Some (Errorf ''create cache table: %w'' [] (Some e)), d1)
      | (None, d1) \<Rightarrow> (None, d1))"

definition expected_columns :: "(string \<times> string) list" where
  "expected_columns =
     [(''key_digest'', ''varbinary:NO:64''), (''step'', ''mediumtext:NO:16777215''),
      (''version'', ''mediumtext:NO:16777215''), (''input_digest'', ''varbinary:NO:64''),
      (''value_digest'', ''varbinary:NO:64''), (''value_json'', ''mediumtext:NO:16777215''),
      (''created_at'', ''bigint:NO:NULL'')]"

text \<open>The loop over the rows that fills the map \<open>seen\<close>.\<close>

fun seen_columns :: "cell list list \<Rightarrow> (string \<times> string) list \<Rightarrow> (string \<times> string) list result" where
  "seen_columns [] seen = Inr seen"
| "seen_columns ([TextCell c, TextCell ty, TextCell nullable, TextCell l] # rows) seen =
     seen_columns rows (AList.update c (ty @ '':'' @ nullable @ '':'' @ l) seen)"
| "seen_columns (_ # rows) seen =
     Inl (Errorf ''inspect cache schema column: %w'' [] (Some (Foreign ''sql: Scan error'')))"

definition got_column :: "(string \<times> string) list \<Rightarrow> string \<Rightarrow> string" where
  "got_column seen c = (case map_of seen c of Some s \<Rightarrow> s | None \<Rightarrow> [])"

definition schema_mismatch :: "string \<Rightarrow> string \<Rightarrow> farg list \<Rightarrow> err" where
  "schema_mismatch t text args =
     Errorf (''mysql cache: table %q does not match schema version 1: '' @ text) (FStr t # args) None"

definition column_mismatch :: "'d server \<Rightarrow> string \<Rightarrow> (string \<times> string) list \<Rightarrow> err option" where
  "column_mismatch sv t seen =
     (if length seen \<noteq> length expected_columns
      then Some (schema_mismatch t ''got %d columns, want %d''
             [FInt (int (length seen)), FInt (int (length expected_columns))])
      else map_option (\<lambda>(col, want). schema_mismatch t ''column %s is %q, want %q''
             [FStr col, FStr (got_column seen col), FStr want])
           (find (\<lambda>(col, want). got_column seen col \<noteq> want) (sv_range sv expected_columns)))"

definition validateMySQLCacheSchemaV1 :: "'d server \<Rightarrow> ctx \<Rightarrow> string \<Rightarrow> 'd \<Rightarrow> err option" where
  "validateMySQLCacheSchemaV1 sv c t d =
     (case sv_query sv c (SelectColumns t) d of
        Inl e \<Rightarrow> Some (Errorf ''inspect cache schema columns: %w'' [] (Some e))
      | Inr (rows, late) \<Rightarrow>
     (case seen_columns rows [] of
        Inl e \<Rightarrow> Some e
      | Inr seen \<Rightarrow>
     (case late of
        Some e \<Rightarrow> Some (Errorf ''inspect cache schema columns: %w'' [] (Some e))
      | None \<Rightarrow>
     (case column_mismatch sv t seen of
        Some e \<Rightarrow> Some e
      | None \<Rightarrow>
          (case scanned (query_row sv c (CountPrimary t) scan_int d) of
             Inl e \<Rightarrow> Some (Errorf ''inspect cache schema primary key: %w'' [] (Some e))
           | Inr n \<Rightarrow>
               if n \<noteq> 1 then Some (schema_mismatch t ''key_digest is not the primary key'' []) else None)))))"

section \<open>The migration\<close>

text \<open>From the marker 0 to version 1.\<close>

definition finish_schema :: "'d server \<Rightarrow> ctx \<Rightarrow> string \<Rightarrow> bool \<Rightarrow> 'd \<Rightarrow> err option \<times> 'd" where
  "finish_schema sv c t exists d =
     (case (if exists then (None, d) else createMySQLCacheSchemaV1 sv c t d) of
        (Some e, d1) \<Rightarrow> (Some e, d1)
      | (None, d1) \<Rightarrow>
          (case validateMySQLCacheSchemaV1 sv c t d1 of
             Some e \<Rightarrow> (Some e, d1)
           | None \<Rightarrow>
               (case sv_exec sv c (SetVersion mysqlCacheSchemaV1 (mysqlCacheSchemaComponent t)) d1 of
                  (Some e, d2) \<Rightarrow> (Some (Errorf ''finalize cache schema version: %w'' [] (Some e)), d2)
                | (None, d2) \<Rightarrow> (None, d2))))"

text \<open>What follows the creation of the table of versions.\<close>

definition migrate_component :: "'d server \<Rightarrow> ctx \<Rightarrow> string \<Rightarrow> bool \<Rightarrow> 'd \<Rightarrow> err option \<times> 'd" where
  "migrate_component sv c t exists d =
     (let component = mysqlCacheSchemaComponent t in
      case query_row sv c (ReadVersion component) scan_int d of
        ScanError e \<Rightarrow> (Some (Errorf ''read cache schema version: %w'' [] (Some e)), d)
      | NoRows \<Rightarrow>
          if exists
          then (Some (Errorf ''mysql cache: schema version component %q is missing for existing table %q''
                  [FStr component, FStr t] None), d)
          else (case sv_exec sv c (InsertVersion component) d of
              (Some e, d1) \<Rightarrow> (Some (Errorf ''record cache schema initialization: %w'' [] (Some e)), d1)
            | (None, d1) \<Rightarrow> finish_schema sv c t exists d1)
      | Scanned version \<Rightarrow>
          if version = 0 then finish_schema sv c t exists d
          else if version \<noteq> mysqlCacheSchemaV1
          then (Some (Errorf ''mysql cache: unsupported schema version %d for %q (want %d)''
                  [FInt version, FStr component, FInt mysqlCacheSchemaV1] None), d)
          else if \<not> exists
          then (Some (Errorf ''mysql cache: schema version %d is recorded but table %q is missing''
                  [FInt version, FStr t] None), d)
          else (validateMySQLCacheSchemaV1 sv c t d, d))"

text \<open>What runs under the lock.\<close>

definition migrate_locked :: "'d server \<Rightarrow> ctx \<Rightarrow> string \<Rightarrow> 'd \<Rightarrow> err option \<times> 'd" where
  "migrate_locked sv c t d =
     (case mysqlTableExists sv c mysqlSchemaVersionTbl d of
        Inl e \<Rightarrow> (Some (Errorf ''inspect schema version table: %w'' [] (Some e)), d)
      | Inr versionTableExists \<Rightarrow>
     (case mysqlTableExists sv c t d of
        Inl e \<Rightarrow> (Some (Errorf ''inspect cache table: %w'' [] (Some e)), d)
      | Inr cacheTableExists \<Rightarrow>
          if \<not> versionTableExists \<and> cacheTableExists
          then (Some (Errorf ''mysql cache: unversioned prototype table %q detected; recreate it or migrate it explicitly''
                  [FStr t] None), d)
          else (case (if versionTableExists then (None, d) else sv_exec sv c CreateVersions d) of
              (Some e, d1) \<Rightarrow> (Some (Errorf ''create schema version table: %w'' [] (Some e)), d1)
            | (None, d1) \<Rightarrow> migrate_component sv c t cacheTableExists d1)))"

definition migrate :: "'v codec \<Rightarrow> 'd server \<Rightarrow> ctx \<Rightarrow> string \<Rightarrow> 'd \<Rightarrow> err option \<times> 'd" where
  "migrate C sv c t d =
     (case sv_conn sv c d of
        (Some e, d1) \<Rightarrow> (Some e, d1)
      | (None, d1) \<Rightarrow>
     (case scanned (query_row sv c SelectDatabase scan_text d1) of
        Inl e \<Rightarrow> (Some (Errorf ''read selected database: %w'' [] (Some e)), d1)
      | Inr dbname \<Rightarrow>
          let lock = mysqlCacheMigrationLock C dbname in
     (case sv_lock sv c lock d1 of
        (Inl e, d2) \<Rightarrow> (Some (Errorf ''acquire schema lock: %w'' [] (Some e)), d2)
      | (Inr acquired, d2) \<Rightarrow>
          if acquired \<noteq> Some 1
          then (Some (Errorf ''acquire schema lock %q: timed out'' [FStr lock] None), d2)
          else (case migrate_locked sv c t d2 of (r, d3) \<Rightarrow> (r, sv_release sv lock d3)))))"

section \<open>The phases of the schema\<close>

text \<open>The shape of version 1: the seven columns in any order, and the primary key.\<close>

definition column_shape :: "string \<times> string \<times> string \<times> string \<Rightarrow> string \<times> string" where
  "column_shape col = (case col of (c, ty, nullable, l) \<Rightarrow> (c, ty @ '':'' @ nullable @ '':'' @ l))"

definition shaped :: "table \<Rightarrow> bool" where
  "shaped tb \<longleftrightarrow> set (map column_shape (tb_columns tb)) = set expected_columns \<and> tb_primary tb = 1"

text \<open>Where the tables of a cache stand. \<open>Refused\<close> is a database the migration must not touch.\<close>

datatype phase = Untouched | Versioned | Marked | Created | Ready | Refused

definition phase_of :: "string \<Rightarrow> database \<Rightarrow> phase" where
  "phase_of t db =
     (case (db_versions db, db_tables db t) of
        (None, None) \<Rightarrow> Untouched
      | (None, Some tb) \<Rightarrow> Refused
      | (Some vs, tbo) \<Rightarrow>
          (case (vs (mysqlCacheSchemaComponent t), tbo) of
             (None, None) \<Rightarrow> Versioned
           | (None, Some tb) \<Rightarrow> Refused
           | (Some v, None) \<Rightarrow> if v = 0 then Marked else Refused
           | (Some v, Some tb) \<Rightarrow>
               if v = 0 \<and> shaped tb then Created
               else if v = mysqlCacheSchemaV1 \<and> shaped tb then Ready else Refused))"

text \<open>The steps of the abstract machine: each takes the schema of one cache to its next phase.\<close>

inductive schema_step :: "string \<Rightarrow> database \<Rightarrow> database \<Rightarrow> bool" for t where
  make_versions: "db_versions db = None \<Longrightarrow> db_tables db t = None \<Longrightarrow>
    schema_step t db (db\<lparr>db_versions := Some Map.empty\<rparr>)"
| mark: "db_versions db = Some vs \<Longrightarrow> vs (mysqlCacheSchemaComponent t) = None \<Longrightarrow> db_tables db t = None \<Longrightarrow>
    schema_step t db (db\<lparr>db_versions := Some (vs(mysqlCacheSchemaComponent t \<mapsto> 0))\<rparr>)"
| create: "db_versions db = Some vs \<Longrightarrow> vs (mysqlCacheSchemaComponent t) = Some 0 \<Longrightarrow> db_tables db t = None \<Longrightarrow>
    schema_step t db (db\<lparr>db_tables := (db_tables db)(t \<mapsto> cache_table)\<rparr>)"
| complete: "db_versions db = Some vs \<Longrightarrow> vs (mysqlCacheSchemaComponent t) = Some 0 \<Longrightarrow> db_tables db t = Some tb \<Longrightarrow>
    shaped tb \<Longrightarrow> schema_step t db (db\<lparr>db_versions := Some (vs(mysqlCacheSchemaComponent t \<mapsto> mysqlCacheSchemaV1))\<rparr>)"

text \<open>Calls of the migration, each of which may stop anywhere, and changes of the server between them
  that keep the database.\<close>

inductive attempts :: "'v codec \<Rightarrow> 'd server \<Rightarrow> string \<Rightarrow> 'd \<Rightarrow> 'd \<Rightarrow> bool" for C sv t d where
  before: "attempts C sv t d d"
| call: "attempts C sv t d d1 \<Longrightarrow> migrate C sv c t d1 = (r, d2) \<Longrightarrow> attempts C sv t d d2"
| outage: "attempts C sv t d d1 \<Longrightarrow> sv_view sv d2 = sv_view sv d1 \<Longrightarrow> attempts C sv t d d2"

lemma query_row_int:
  assumes "server_law sv" and "answer_of q (sv_view sv d) = Some a"
  shows "query_row sv c q scan_int d = NoRows \<Longrightarrow> a = []"
    and "query_row sv c q scan_int d = Scanned n \<Longrightarrow> \<exists>row rows. a = row # rows \<and> scan_int row = Some n"
  using law_query [OF assms(1) _ assms(2), of c]
  by (auto simp: query_row_def split: sum.splits list.splits option.splits prod.splits)

lemma query_row_up:
  assumes "server_law sv" and "answer_of q (sv_view sv d) = Some a" and "sv_up sv d"
  shows "query_row sv None q scan_int d = (case a of [] \<Rightarrow> NoRows | row # _ \<Rightarrow>
    (case scan_int row of Some n \<Rightarrow> Scanned n | None \<Rightarrow> ScanError (Foreign ''sql: Scan error'')))"
proof -
  obtain rows where rows: "sv_query sv None q d = Inr (rows, None)" using law_up(1) [OF assms(1,3)] by blast
  then have "rows = a" using law_query [OF assms(1) _ assms(2)] by blast
  with rows show ?thesis by (simp add: query_row_def split: list.splits)
qed

lemma table_exists:
  assumes "server_law sv"
  shows "mysqlTableExists sv c t d = Inr b \<Longrightarrow> b = has_table (sv_view sv d) t"
    and "sv_up sv d \<Longrightarrow> mysqlTableExists sv None t d = Inr (has_table (sv_view sv d) t)"
proof -
  have a: "answer_of (CountTables t) (sv_view sv d) = Some [[IntCell (if has_table (sv_view sv d) t then 1 else 0)]]" by simp
  show "b = has_table (sv_view sv d) t" if "mysqlTableExists sv c t d = Inr b"
    using that query_row_int [OF assms a, of c]
    by (auto simp: mysqlTableExists_def scanned_def split: scanned.splits if_splits)
  show "mysqlTableExists sv None t d = Inr (has_table (sv_view sv d) t)" if "sv_up sv d"
    using query_row_up [OF assms a that] by (simp add: mysqlTableExists_def scanned_def)
qed

section \<open>Validation\<close>

lemma fst_column_shape [simp]: "fst (column_shape col) = fst col"
  by (simp add: column_shape_def split: prod.splits)

lemma update_fresh: "k \<notin> fst ` set al \<Longrightarrow> AList.update k v al = al @ [(k, v)]"
  by (induction al) auto

lemma seen_columns_distinct:
  "distinct (map fst acc @ map fst cols) \<Longrightarrow>
     seen_columns (map (\<lambda>(c, ty, nullable, l). [TextCell c, TextCell ty, TextCell nullable, TextCell l]) cols) acc
       = Inr (acc @ map column_shape cols)"
proof (induction cols arbitrary: acc)
  case (Cons col cols)
  obtain c ty nl l where col: "col = (c, ty, nl, l)" by (cases col)
  have "c \<notin> fst ` set acc" using Cons.prems col by auto
  then show ?case
    using Cons.IH [of "acc @ [column_shape col]"] Cons.prems col by (simp add: update_fresh column_shape_def)
qed simp

lemma expected_facts: "distinct expected_columns" "distinct (map fst expected_columns)" "[] \<notin> snd ` set expected_columns"
  by (simp_all add: expected_columns_def)

lemma column_mismatch_None:
  assumes "server_law sv" and dist: "distinct (map fst seen)"
  shows "column_mismatch sv t seen = None \<longleftrightarrow> set seen = set expected_columns"
proof -
  have got: "got_column seen c = w \<longleftrightarrow> (c, w) \<in> set seen" if "(c, w) \<in> set expected_columns" for c w
  proof -
    have "w \<noteq> []" using expected_facts(3) that by force
    then have "got_column seen c = w \<longleftrightarrow> map_of seen c = Some w" by (auto simp: got_column_def split: option.splits)
    then show ?thesis using dist by simp
  qed
  have "find (\<lambda>(col, want). got_column seen col \<noteq> want) (sv_range sv expected_columns) = None \<longleftrightarrow>
      (\<forall>(c, w) \<in> set expected_columns. got_column seen c = w)"
    using law_tables(2) [OF assms(1), of expected_columns] by (auto simp: find_None_iff)
  also have "\<dots> \<longleftrightarrow> set expected_columns \<subseteq> set seen" using got by fast
  finally have "column_mismatch sv t seen = None \<longleftrightarrow>
      length seen = length expected_columns \<and> set expected_columns \<subseteq> set seen"
    by (simp add: column_mismatch_def)
  then have none: "column_mismatch sv t seen = None \<longleftrightarrow>
      card (set seen) = card (set expected_columns) \<and> set expected_columns \<subseteq> set seen"
    using distinct_card [of seen] distinct_card [OF expected_facts(1)] dist unfolding distinct_map by metis
  show ?thesis unfolding none by (metis card_subset_eq finite_set order_refl)
qed

text \<open>What the two queries of the validation give.\<close>

lemma columns_seen:
  assumes law: "server_law sv" and "sv_query sv c (SelectColumns t) d = Inr (rows, None)"
  defines "cols \<equiv> (case db_tables (sv_view sv d) t of Some tb \<Rightarrow> tb_columns tb | None \<Rightarrow> [])"
  shows "seen_columns rows [] = Inr (map column_shape cols)"
    and "column_mismatch sv t' (map column_shape cols) = None \<longleftrightarrow> set (map column_shape cols) = set expected_columns"
proof -
  have "rows = map (\<lambda>(c, ty, nullable, l). [TextCell c, TextCell ty, TextCell nullable, TextCell l]) cols"
    using law_query [OF law assms(2)] by (simp add: cols_def split: option.splits)
  moreover have dist: "distinct (map fst cols)" using law_tables(1) [OF law, of d t] by (simp add: cols_def split: option.splits)
  ultimately show "seen_columns rows [] = Inr (map column_shape cols)" using seen_columns_distinct [of "[]" cols] by simp
  have "map fst (map column_shape cols) = map fst cols" by simp
  then show "column_mismatch sv t' (map column_shape cols) = None \<longleftrightarrow> set (map column_shape cols) = set expected_columns"
    using column_mismatch_None [OF law] dist by metis
qed

lemma validate_ok:
  assumes law: "server_law sv" and none: "validateMySQLCacheSchemaV1 sv c t d = None"
  shows "\<exists>tb. db_tables (sv_view sv d) t = Some tb \<and> shaped tb"
proof -
  obtain rows where q: "sv_query sv c (SelectColumns t) d = Inr (rows, None)"
    using none by (auto simp: validateMySQLCacheSchemaV1_def split: sum.splits option.splits)
  note seen = columns_seen [OF law q]
  note run = none [unfolded validateMySQLCacheSchemaV1_def q sum.case prod.case seen(1) option.case]
  from run have set: "set (map column_shape (case db_tables (sv_view sv d) t of Some tb \<Rightarrow> tb_columns tb | None \<Rightarrow> []))
      = set expected_columns"
    unfolding seen(2) [of t, symmetric] by (simp split: option.splits)
  have prim: "scanned (query_row sv c (CountPrimary t) scan_int d) = Inr 1"
    using run by (simp split: option.splits sum.splits if_splits)
  from set obtain tb where tb: "db_tables (sv_view sv d) t = Some tb"
    by (cases "db_tables (sv_view sv d) t") (simp_all add: expected_columns_def)
  have "answer_of (CountPrimary t) (sv_view sv d) = Some [[IntCell (tb_primary tb)]]" using tb by simp
  then have "tb_primary tb = 1"
    using prim query_row_int(2) [OF law, of "CountPrimary t" d "[[IntCell (tb_primary tb)]]" c]
    by (auto simp: scanned_def split: scanned.splits)
  then show ?thesis using tb set by (simp add: shaped_def)
qed

lemma validate_up:
  assumes law: "server_law sv" and up: "sv_up sv d" and tb: "db_tables (sv_view sv d) t = Some tb" "shaped tb"
  shows "validateMySQLCacheSchemaV1 sv None t d = None"
proof -
  obtain rows where q: "sv_query sv None (SelectColumns t) d = Inr (rows, None)" using law_up(1) [OF law up] by blast
  note seen = columns_seen [OF law q]
  have "column_mismatch sv t (map column_shape (tb_columns tb)) = None"
    using seen(2) [of t] tb by (simp add: shaped_def)
  moreover have "scanned (query_row sv None (CountPrimary t) scan_int d) = Inr 1"
    using query_row_up [OF law _ up, of "CountPrimary t" "[[IntCell 1]]"] tb by (simp add: shaped_def scanned_def)
  ultimately show ?thesis
    using q seen(1) tb(1) by (simp add: validateMySQLCacheSchemaV1_def)
qed

section \<open>The migration implements the machine\<close>

abbreviation component_of :: "string \<Rightarrow> string" where
  "component_of \<equiv> mysqlCacheSchemaComponent"

text \<open>One statement is no step of the machine, or the one its guards allow.\<close>

lemma exec_steps:
  assumes law: "server_law sv" and run: "sv_exec sv c q d = (e, d')"
    and step: "\<And>db. effect_of q (sv_view sv d) = Some db \<Longrightarrow> (schema_step t)\<^sup>*\<^sup>* (sv_view sv d) db"
  shows "(schema_step t)\<^sup>*\<^sup>* (sv_view sv d) (sv_view sv d')"
  using law_exec(1) [OF law run] step by (metis rtranclp.rtrancl_refl)

lemma finish_schema_steps:
  assumes law: "server_law sv" and t: "t \<noteq> mysqlSchemaVersionTbl"
    and vs: "db_versions (sv_view sv d) = Some vs" "vs (component_of t) = Some 0"
    and ex: "exists \<longleftrightarrow> db_tables (sv_view sv d) t \<noteq> None"
    and run: "finish_schema sv c t exists d = (r, d')"
  shows "(schema_step t)\<^sup>*\<^sup>* (sv_view sv d) (sv_view sv d') \<and> (r = None \<longrightarrow> phase_of t (sv_view sv d') = Ready)"
proof -
  obtain e1 d1 where mk: "(if exists then (None, d) else createMySQLCacheSchemaV1 sv c t d) = (e1, d1)" by fastforce
  have one: "(schema_step t)\<^sup>*\<^sup>* (sv_view sv d) (sv_view sv d1) \<and>
      db_versions (sv_view sv d1) = Some vs"
  proof (cases "exists")
    case False
    then obtain e where run: "sv_exec sv c (CreateCache t) d = (e, d1)"
      using mk by (auto simp: createMySQLCacheSchemaV1_def split: prod.splits option.splits)
    have "schema_step t (sv_view sv d) ((sv_view sv d)\<lparr>db_tables := (db_tables (sv_view sv d))(t \<mapsto> cache_table)\<rparr>)"
      using False ex by (intro create [OF vs]) simp
    then have "(schema_step t)\<^sup>*\<^sup>* (sv_view sv d) (sv_view sv d1)"
      by (intro exec_steps [OF law run]) (auto split: if_splits)
    moreover have "db_versions (sv_view sv d1) = db_versions (sv_view sv d)"
      using law_exec(1) [OF law run] by (auto split: if_splits dest!: arg_cong [of _ _ db_versions])
    ultimately show ?thesis using vs by simp
  qed (use mk vs in auto)
  show ?thesis
  proof (cases e1)
    case (Some e)
    then show ?thesis using run one unfolding finish_schema_def mk by auto
  next
    case None
    show ?thesis
    proof (cases "validateMySQLCacheSchemaV1 sv c t d1")
      case (Some e)
      then show ?thesis using run one unfolding finish_schema_def mk None by auto
    next
      case none: None
      obtain e2 where fin: "sv_exec sv c (SetVersion mysqlCacheSchemaV1 (component_of t)) d1 = (e2, d')"
        and r: "r = None \<longrightarrow> e2 = None"
        using run unfolding finish_schema_def mk None by (auto simp: none split: prod.splits option.splits)
      obtain tb where tb: "db_tables (sv_view sv d1) t = Some tb" "shaped tb" using validate_ok [OF law none] by blast
      have "schema_step t (sv_view sv d1) ((sv_view sv d1)\<lparr>db_versions := Some (vs(component_of t \<mapsto> mysqlCacheSchemaV1))\<rparr>)"
        using one vs(2) tb by (intro complete [where vs = vs and tb = tb]) simp_all
      then have "(schema_step t)\<^sup>*\<^sup>* (sv_view sv d1) (sv_view sv d')"
        using one vs by (intro exec_steps [OF law fin]) auto
      moreover have "phase_of t (sv_view sv d') = Ready" if "r = None"
      proof -
        have "sv_view sv d' = (sv_view sv d1)\<lparr>db_versions := Some (vs(component_of t \<mapsto> mysqlCacheSchemaV1))\<rparr>"
          using law_exec(1) [OF law fin] r that one vs by auto
        then show ?thesis using tb by (simp add: phase_of_def mysqlCacheSchemaV1_def)
      qed
      ultimately show ?thesis using one by auto
    qed
  qed
qed

lemma migrate_component_steps:
  assumes law: "server_law sv" and t: "t \<noteq> mysqlSchemaVersionTbl"
    and vs: "db_versions (sv_view sv d) = Some vs" and ex: "exists \<longleftrightarrow> db_tables (sv_view sv d) t \<noteq> None"
    and run: "migrate_component sv c t exists d = (r, d')"
  shows "(schema_step t)\<^sup>*\<^sup>* (sv_view sv d) (sv_view sv d') \<and> (r = None \<longrightarrow> phase_of t (sv_view sv d') = Ready)"
proof -
  let ?q = "ReadVersion (component_of t)"
  have ans: "answer_of ?q (sv_view sv d) = Some (case vs (component_of t) of Some v \<Rightarrow> [[IntCell v]] | None \<Rightarrow> [])"
    using vs by simp
  show ?thesis
  proof (cases "query_row sv c ?q scan_int d")
    case NoRows
    then have none: "vs (component_of t) = None" using query_row_int(1) [OF law ans, of c] by (simp split: option.splits)
    show ?thesis
    proof (cases "exists")
      case False
      obtain e1 d1 where ins: "sv_exec sv c (InsertVersion (component_of t)) d = (e1, d1)" by fastforce
      let ?db = "(sv_view sv d)\<lparr>db_versions := Some (vs(component_of t \<mapsto> 0))\<rparr>"
      have "schema_step t (sv_view sv d) ?db" using False ex by (intro mark [OF vs none]) simp
      then have one: "(schema_step t)\<^sup>*\<^sup>* (sv_view sv d) (sv_view sv d1)"
        using vs none by (intro exec_steps [OF law ins]) (auto split: if_splits)
      show ?thesis
      proof (cases e1)
        case None
        then have "sv_view sv d1 = ?db" using law_exec(1) [OF law ins] vs none by (auto split: if_splits)
        then have "(schema_step t)\<^sup>*\<^sup>* (sv_view sv d1) (sv_view sv d') \<and> (r = None \<longrightarrow> phase_of t (sv_view sv d') = Ready)"
          using run NoRows False ins None ex
          by (intro finish_schema_steps [OF law t, of d1 "vs(component_of t \<mapsto> 0)"]) (simp_all add: migrate_component_def)
        then show ?thesis using one by auto
      qed (use run NoRows False ins one in \<open>auto simp: migrate_component_def\<close>)
    qed (use run NoRows in \<open>auto simp: migrate_component_def\<close>)
  next
    case (Scanned v)
    then have v: "vs (component_of t) = Some v" using query_row_int(2) [OF law ans, of c] by (auto split: option.splits)
    show ?thesis
    proof (cases "v = 0")
      case True
      then show ?thesis using run Scanned v
        by (intro finish_schema_steps [OF law t vs _ ex]) (simp_all add: migrate_component_def)
    next
      case False
      then have "d' = d" and "r = None \<longrightarrow> v = mysqlCacheSchemaV1 \<and> validateMySQLCacheSchemaV1 sv c t d = None"
        using run Scanned by (auto simp: migrate_component_def Let_def split: if_splits)
      then show ?thesis using validate_ok [OF law, of c t d] v vs by (auto simp: phase_of_def mysqlCacheSchemaV1_def)
    qed
  qed (use run in \<open>auto simp: migrate_component_def\<close>)
qed

lemma migrate_locked_steps:
  assumes law: "server_law sv" and t: "t \<noteq> mysqlSchemaVersionTbl" and run: "migrate_locked sv c t d = (r, d')"
  shows "(schema_step t)\<^sup>*\<^sup>* (sv_view sv d) (sv_view sv d') \<and> (r = None \<longrightarrow> phase_of t (sv_view sv d') = Ready)"
proof (cases "\<exists>v ct. mysqlTableExists sv c mysqlSchemaVersionTbl d = Inr v \<and> mysqlTableExists sv c t d = Inr ct")
  case False
  then have "d' = d \<and> r \<noteq> None" using run by (auto simp: migrate_locked_def split: sum.splits)
  then show ?thesis by auto
next
  case True
  then obtain v ct where q: "mysqlTableExists sv c mysqlSchemaVersionTbl d = Inr v" "mysqlTableExists sv c t d = Inr ct" by blast
  have v: "v \<longleftrightarrow> db_versions (sv_view sv d) \<noteq> None" and ct: "ct \<longleftrightarrow> db_tables (sv_view sv d) t \<noteq> None"
    using table_exists(1) [OF law q(1)] table_exists(1) [OF law q(2)] t by (simp_all add: has_table_def)
  note run = run [unfolded migrate_locked_def q sum.case]
  show ?thesis
  proof (cases v)
    case True
    then obtain vs where vs: "db_versions (sv_view sv d) = Some vs" using v by blast
    show ?thesis using run True by (intro migrate_component_steps [OF law t vs ct]) simp
  next
    case False
    show ?thesis
    proof (cases ct)
      case True
      then show ?thesis using run False by auto
    next
      case notable: False
      obtain e1 d1 where mk: "sv_exec sv c CreateVersions d = (e1, d1)" by fastforce
      have none: "db_versions (sv_view sv d) = None" "db_tables (sv_view sv d) t = None" using v ct False notable by simp_all
      let ?db = "(sv_view sv d)\<lparr>db_versions := Some Map.empty\<rparr>"
      have one: "(schema_step t)\<^sup>*\<^sup>* (sv_view sv d) (sv_view sv d1)"
        using none make_versions [OF none] by (intro exec_steps [OF law mk]) auto
      show ?thesis
      proof (cases e1)
        case None
        then have "sv_view sv d1 = ?db" using law_exec(1) [OF law mk] none by auto
        then have "(schema_step t)\<^sup>*\<^sup>* (sv_view sv d1) (sv_view sv d') \<and> (r = None \<longrightarrow> phase_of t (sv_view sv d') = Ready)"
          using run False notable mk None none
          by (intro migrate_component_steps [OF law t, of d1 Map.empty ct]) auto
        then show ?thesis using one by auto
      qed (use run False notable mk one in auto)
    qed
  qed
qed

lemma migrate_steps:
  assumes law: "server_law sv" and t: "t \<noteq> mysqlSchemaVersionTbl" and run: "migrate C sv c t d = (r, d')"
  shows "(schema_step t)\<^sup>*\<^sup>* (sv_view sv d) (sv_view sv d') \<and> (r = None \<longrightarrow> phase_of t (sv_view sv d') = Ready)"
proof -
  obtain e1 d1 where conn: "sv_conn sv c d = (e1, d1)" by fastforce
  note v1 = law_conn [OF law conn, THEN conjunct1]
  show ?thesis
  proof (cases "e1 = None \<and> (\<exists>dbname. scanned (query_row sv c SelectDatabase scan_text d1) = Inr dbname)")
    case False
    then have "d' = d1 \<and> r \<noteq> None" using run conn
      by (auto simp: migrate_def split: option.splits sum.splits)
    then show ?thesis using v1 by auto
  next
    case True
    then obtain dbname where db: "e1 = None" "scanned (query_row sv c SelectDatabase scan_text d1) = Inr dbname" by blast
    let ?l = "mysqlCacheMigrationLock C dbname"
    obtain a d2 where lock: "sv_lock sv c ?l d1 = (a, d2)" by fastforce
    note v2 = law_lock [OF law lock, THEN conjunct1]
    show ?thesis
    proof (cases "a = Inr (Some 1)")
      case False
      then have "d' = d2 \<and> r \<noteq> None" using run conn db lock
        by (auto simp: migrate_def Let_def split: sum.splits if_splits)
      then show ?thesis using v1 v2 by auto
    next
      case True
      obtain d3 where ml: "migrate_locked sv c t d2 = (r, d3)" and d': "d' = sv_release sv ?l d3"
        using run conn db lock True by (auto simp: migrate_def Let_def split: prod.splits)
      have "(schema_step t)\<^sup>*\<^sup>* (sv_view sv d2) (sv_view sv d3) \<and> (r = None \<longrightarrow> phase_of t (sv_view sv d3) = Ready)"
        by (rule migrate_locked_steps [OF law t ml])
      then show ?thesis using v1 v2 d' law_release [OF law] by simp
    qed
  qed
qed

section \<open>A server that answers\<close>

lemma identifier_length: "mysqlIdentifier t \<Longrightarrow> length t \<le> 64 \<and> length (component_of t) \<le> 128"
  by (cases t) (auto simp: mysqlIdentifier_def Let_def mysqlCacheSchemaComponent_def)

lemma finish_schema_up:
  assumes law: "server_law sv" and up: "sv_up sv d" and t: "t \<noteq> mysqlSchemaVersionTbl" "mysqlIdentifier t"
    and vs: "db_versions (sv_view sv d) = Some vs" "vs (component_of t) = Some 0"
    and tb: "\<And>tb. db_tables (sv_view sv d) t = Some tb \<Longrightarrow> shaped tb"
    and ex: "exists \<longleftrightarrow> db_tables (sv_view sv d) t \<noteq> None"
  shows "fst (finish_schema sv None t exists d) = None"
proof -
  obtain e1 d1 where mk: "(if exists then (None, d) else createMySQLCacheSchemaV1 sv None t d) = (e1, d1)" by fastforce
  have one: "e1 = None \<and> sv_up sv d1 \<and> (\<exists>tb. db_tables (sv_view sv d1) t = Some tb \<and> shaped tb) \<and>
      db_versions (sv_view sv d1) = Some vs"
  proof (cases "exists")
    case True
    then show ?thesis using mk up vs tb ex by auto
  next
    case False
    obtain e where run: "sv_exec sv None (CreateCache t) d = (e, d1)"
      using mk False by (auto simp: createMySQLCacheSchemaV1_def split: prod.splits option.splits)
    let ?db = "(sv_view sv d)\<lparr>db_tables := (db_tables (sv_view sv d))(t \<mapsto> cache_table)\<rparr>"
    have eff: "effect_of (CreateCache t) (sv_view sv d) = Some ?db" using False ex t(1) identifier_length [OF t(2)] by (simp add: has_table_def)
    then have e: "e = None" using law_up(3) [OF law up, of "CreateCache t"] run by simp
    then have "sv_view sv d1 = ?db" using law_exec(1) [OF law run] eff by simp
    moreover have "shaped cache_table"
      by (simp add: shaped_def cache_table_def cache_columns_def column_shape_def expected_columns_def)
    ultimately show ?thesis using mk False run e law_exec(2) [OF law run] up vs by (simp add: createMySQLCacheSchemaV1_def)
  qed
  then have "validateMySQLCacheSchemaV1 sv None t d1 = None" using validate_up [OF law] by blast
  moreover have "fst (sv_exec sv None (SetVersion mysqlCacheSchemaV1 (component_of t)) d1) = None"
    using one by (intro law_up(3) [OF law]) simp_all
  ultimately show ?thesis unfolding finish_schema_def mk using one by (auto split: prod.splits)
qed

lemma migrate_component_up:
  assumes law: "server_law sv" and up: "sv_up sv d" and t: "t \<noteq> mysqlSchemaVersionTbl" "mysqlIdentifier t"
    and vs: "db_versions (sv_view sv d) = Some vs" and ok: "phase_of t (sv_view sv d) \<noteq> Refused"
    and ex: "exists \<longleftrightarrow> db_tables (sv_view sv d) t \<noteq> None"
  shows "fst (migrate_component sv None t exists d) = None"
proof -
  let ?q = "ReadVersion (component_of t)"
  have ans: "answer_of ?q (sv_view sv d) = Some (case vs (component_of t) of Some v \<Rightarrow> [[IntCell v]] | None \<Rightarrow> [])"
    using vs by simp
  note read = query_row_up [OF law ans up]
  show ?thesis
  proof (cases "vs (component_of t)")
    case None
    then have no: "\<not> exists" "db_tables (sv_view sv d) t = None" using ok vs ex by (auto simp: phase_of_def split: option.splits)
    obtain e1 d1 where ins: "sv_exec sv None (InsertVersion (component_of t)) d = (e1, d1)" by fastforce
    have eff: "effect_of (InsertVersion (component_of t)) (sv_view sv d)
        = Some ((sv_view sv d)\<lparr>db_versions := Some (vs(component_of t \<mapsto> 0))\<rparr>)"
      using vs None identifier_length [OF t(2)] by simp
    then have e1: "e1 = None" using law_up(3) [OF law up, of "InsertVersion (component_of t)"] ins by simp
    then have view: "sv_view sv d1 = (sv_view sv d)\<lparr>db_versions := Some (vs(component_of t \<mapsto> 0))\<rparr>"
      using law_exec(1) [OF law ins] eff by simp
    have "fst (finish_schema sv None t exists d1) = None"
      using no view law_exec(2) [OF law ins] up
      by (intro finish_schema_up [OF law _ t, of d1 "vs(component_of t \<mapsto> 0)"]) simp_all
    then show ?thesis using read None no ins e1 by (simp add: migrate_component_def)
  next
    case (Some v)
    then have v: "v = 0 \<or> v = mysqlCacheSchemaV1 \<and> exists"
      and tb: "\<And>tb. db_tables (sv_view sv d) t = Some tb \<Longrightarrow> shaped tb"
      using ok vs ex by (auto simp: phase_of_def split: option.splits if_splits)
    show ?thesis
    proof (cases "v = 0")
      case True
      then show ?thesis using read Some finish_schema_up [OF law up t vs _ tb ex] by (simp add: migrate_component_def)
    next
      case False
      then show ?thesis using read Some v validate_up [OF law up] tb ex by (auto simp: migrate_component_def)
    qed
  qed
qed

lemma migrate_up:
  assumes law: "server_law sv" and up: "sv_up sv d" and t: "t \<noteq> mysqlSchemaVersionTbl" "mysqlIdentifier t"
    and ok: "phase_of t (sv_view sv d) \<noteq> Refused"
  shows "fst (migrate C sv None t d) = None"
proof -
  obtain e1 d1 where conn: "sv_conn sv None d = (e1, d1)" by fastforce
  note v1 = law_conn [OF law conn]
  have e1: "e1 = None" using law_up(4) [OF law up] conn by simp
  have up1: "sv_up sv d1" using v1 up by simp
  obtain dbname where db: "scanned (query_row sv None SelectDatabase scan_text d1) = Inr dbname"
    using law_up(2) [OF law up1] by (auto simp: query_row_def scanned_def)
  let ?l = "mysqlCacheMigrationLock C dbname"
  obtain a d2 where lock: "sv_lock sv None ?l d1 = (a, d2)" by fastforce
  note v2 = law_lock [OF law lock]
  have a: "a = Inr (Some 1)" using law_up(5) [OF law up1] lock by (metis fst_conv)
  have up2: "sv_up sv d2" and view: "sv_view sv d2 = sv_view sv d" using v1 v2 up by simp_all
  have q: "mysqlTableExists sv None mysqlSchemaVersionTbl d2 = Inr (db_versions (sv_view sv d) \<noteq> None)"
    "mysqlTableExists sv None t d2 = Inr (db_tables (sv_view sv d) t \<noteq> None)"
    using table_exists(2) [OF law up2] t(1) view by (simp_all add: has_table_def)
  have "fst (migrate_locked sv None t d2) = None"
  proof (cases "db_versions (sv_view sv d)")
    case (Some vs)
    then show ?thesis using migrate_component_up [OF law up2 t, of vs] ok view q by (simp add: migrate_locked_def)
  next
    case None
    then have no: "db_tables (sv_view sv d) t = None" using ok by (auto simp: phase_of_def split: option.splits)
    obtain e3 d3 where mk: "sv_exec sv None CreateVersions d2 = (e3, d3)" by fastforce
    have eff: "effect_of CreateVersions (sv_view sv d2) = Some ((sv_view sv d)\<lparr>db_versions := Some Map.empty\<rparr>)"
      using None view by simp
    then have e3: "e3 = None" using law_up(3) [OF law up2, of CreateVersions] mk by simp
    then have view3: "sv_view sv d3 = (sv_view sv d)\<lparr>db_versions := Some Map.empty\<rparr>"
      using law_exec(1) [OF law mk] eff by simp
    then have "phase_of t (sv_view sv d3) \<noteq> Refused" using no by (simp add: phase_of_def)
    then have "fst (migrate_component sv None t False d3) = None"
      using migrate_component_up [OF law _ t, of d3 Map.empty False] law_exec(2) [OF law mk] up2 view3 no by simp
    then show ?thesis using q None no mk e3 by (simp add: migrate_locked_def)
  qed
  then show ?thesis using conn e1 db lock a by (auto simp: migrate_def Let_def split: prod.splits)
qed

section \<open>Recovery\<close>

lemma schema_step_keeps:
  assumes "schema_step t db db'"
  shows "db_tables db u = Some tb \<Longrightarrow> db_tables db' u = Some tb" and "phase_of t db \<noteq> Refused \<and> phase_of t db' \<noteq> Refused"
  using assms
  by (induction rule: schema_step.induct)
    (auto simp: phase_of_def shaped_def cache_table_def cache_columns_def column_shape_def expected_columns_def
      split: option.splits)

lemma schema_steps_keep:
  "(schema_step t)\<^sup>*\<^sup>* db db' \<Longrightarrow>
     (phase_of t db' \<noteq> Refused \<longleftrightarrow> phase_of t db \<noteq> Refused) \<and>
     (\<forall>u tb. db_tables db u = Some tb \<longrightarrow> db_tables db' u = Some tb)"
  by (induction rule: rtranclp_induct) (auto dest: schema_step_keeps)

lemma attempts_steps:
  assumes "server_law sv" and "t \<noteq> mysqlSchemaVersionTbl"
  shows "attempts C sv t d d1 \<Longrightarrow> (schema_step t)\<^sup>*\<^sup>* (sv_view sv d) (sv_view sv d1)"
proof (induction rule: attempts.induct)
  case (call d1 c r d2)
  then show ?case using migrate_steps [OF assms call(2)] by auto
qed auto

text \<open>C39. The migration of the schema recovers from every interruption. However many calls have
  stopped at whichever statement, with or without its effect, each call takes the database along
  the machine \<open>Untouched\<close>, \<open>Versioned\<close>, \<open>Marked\<close>, \<open>Created\<close>, \<open>Ready\<close>; a call without an error
  leaves it ready; a call on a server that answers has no error, unless the tables were not made
  by this version; and no call changes a table that was there.\<close>

theorem migrate_recovers:
  assumes "server_law sv" and "t \<noteq> mysqlSchemaVersionTbl" and "mysqlIdentifier t"
    and "attempts C sv t d d1" and "migrate C sv c t d1 = (r, d2)"
  shows "(schema_step t)\<^sup>*\<^sup>* (sv_view sv d) (sv_view sv d2) \<and>
    (r = None \<longrightarrow> phase_of t (sv_view sv d2) = Ready) \<and>
    (sv_up sv d1 \<and> c = None \<and> phase_of t (sv_view sv d) \<noteq> Refused \<longrightarrow> r = None) \<and>
    (\<forall>u tb. db_tables (sv_view sv d) u = Some tb \<longrightarrow> db_tables (sv_view sv d2) u = Some tb)"
proof -
  have before: "(schema_step t)\<^sup>*\<^sup>* (sv_view sv d) (sv_view sv d1)" using attempts_steps assms(1,2,4) .
  note steps = migrate_steps [OF assms(1,2,5)]
  have all: "(schema_step t)\<^sup>*\<^sup>* (sv_view sv d) (sv_view sv d2)" using before steps by auto
  have "r = None" if "sv_up sv d1" "c = None" "phase_of t (sv_view sv d) \<noteq> Refused"
    using migrate_up [OF assms(1) that(1) assms(2,3), of C] schema_steps_keep [OF before] that assms(5) by simp
  then show ?thesis using all steps schema_steps_keep [OF all] by blast
qed

text \<open>A server that keeps its database, and loses the connection in the middle of the statement its
  second component counts down to. Its tables have distinct column names.\<close>

definition normal :: "database \<Rightarrow> bool" where
  "normal db \<longleftrightarrow> (\<forall>t tb. db_tables db t = Some tb \<longrightarrow> distinct (map fst (tb_columns tb)))"

definition demo_view :: "database \<times> nat option \<Rightarrow> database" where
  "demo_view d = (fst d)\<lparr>db_tables := (\<lambda>t. case db_tables (fst d) t of
     None \<Rightarrow> None | Some tb \<Rightarrow> if distinct (map fst (tb_columns tb)) then Some tb else None)\<rparr>"

definition demo_exec :: "ctx \<Rightarrow> sql \<Rightarrow> database \<times> nat option \<Rightarrow> err option \<times> database \<times> nat option" where
  "demo_exec c q d =
     (case effect_of q (demo_view d) of
        None \<Rightarrow> (Some (Foreign ''refused''), d)
      | Some db \<Rightarrow>
          (case snd d of
             None \<Rightarrow> (None, db, None)
           | Some 0 \<Rightarrow> (Some (Foreign ''connection lost''), db, Some 0)
           | Some (Suc n) \<Rightarrow> (None, db, Some n)))"

definition demo_query :: "ctx \<Rightarrow> sql \<Rightarrow> database \<times> nat option \<Rightarrow> (cell list list \<times> err option) result" where
  "demo_query c q d =
     Inr ((if q = SelectDatabase then [[TextCell ''cache_dev'']]
           else case answer_of q (demo_view d) of Some rows \<Rightarrow> rows | None \<Rightarrow> []), None)"

definition demo_server :: "(database \<times> nat option) server" where
  "demo_server = \<lparr>sv_conn = (\<lambda>c d. (None, d)), sv_lock = (\<lambda>c l d. (Inr (Some 1), d)), sv_release = (\<lambda>l d. d),
     sv_query = demo_query, sv_exec = demo_exec, sv_view = demo_view, sv_up = (\<lambda>d. snd d = None), sv_range = (\<lambda>xs. xs)\<rparr>"

lemma normal_view: "normal (demo_view d)"
  by (auto simp: normal_def demo_view_def split: option.splits if_splits)

lemma view_normal: "normal db \<Longrightarrow> demo_view (db, n) = db"
proof -
  assume n: "normal db"
  have "(\<lambda>t. case db_tables db t of None \<Rightarrow> None
      | Some tb \<Rightarrow> if distinct (map fst (tb_columns tb)) then Some tb else None) = db_tables db"
    using n by (auto simp: normal_def fun_eq_iff split: option.splits)
  then show ?thesis by (simp add: demo_view_def)
qed

lemma effect_normal: "effect_of q db = Some db' \<Longrightarrow> normal db \<Longrightarrow> normal db'"
  by (cases q) (auto simp: normal_def cache_table_def cache_columns_def split: if_splits option.splits)

lemma demo_exec_view:
  "demo_exec c q d = (e, d') \<Longrightarrow>
     (demo_view d' = demo_view d \<and> e \<noteq> None \<or> effect_of q (demo_view d) = Some (demo_view d')) \<and>
     (snd d' = None \<longleftrightarrow> snd d = None)"
  using effect_normal [OF _ normal_view, of q d] view_normal
  by (fastforce simp: demo_exec_def split: option.splits nat.splits)

lemma demo_server_law: "server_law demo_server"
proof -
  have "statement_law demo_server"
    using demo_exec_view normal_view unfolding statement_law_def normal_def
    by (auto simp: demo_server_def demo_query_def)
  moreover have "session_law demo_server"
    using demo_exec_view by (auto simp: session_law_def demo_server_def demo_query_def)
  moreover have "up_law demo_server"
    by (auto simp: up_law_def demo_server_def demo_query_def demo_exec_def split: option.splits)
  ultimately show ?thesis by (simp add: server_law_def demo_server_def)
qed

definition empty_db :: database where
  "empty_db = \<lparr>db_versions = None, db_tables = Map.empty\<rparr>"

definition first_try :: "err option \<times> database \<times> nat option" where
  "first_try = migrate demo_codec demo_server None ''cache_entries'' (empty_db, Some 1)"

lemma first_try_interrupted:
  "fst first_try = Some (Errorf ''record cache schema initialization: %w'' [] (Some (Foreign ''connection lost'')))"
  by code_simp

theorem migrate_recovers_witness:
  "\<exists>e d1 d2. migrate demo_codec demo_server None ''cache_entries'' (empty_db, Some 1) = (Some e, d1) \<and>
     migrate demo_codec demo_server None ''cache_entries'' (fst d1, None) = (None, d2) \<and>
     phase_of ''cache_entries'' (demo_view d2) = Ready"
proof -
  obtain e d1 where one: "migrate demo_codec demo_server None ''cache_entries'' (empty_db, Some 1) = (Some e, d1)"
    using first_try_interrupted unfolding first_try_def by (metis prod.collapse)
  obtain r d2 where two: "migrate demo_codec demo_server None ''cache_entries'' (fst d1, None) = (r, d2)" by (rule prod.exhaust)
  have t: "''cache_entries'' \<noteq> mysqlSchemaVersionTbl" by (simp add: mysqlSchemaVersionTbl_def)
  have "attempts demo_codec demo_server ''cache_entries'' (empty_db, Some 1) (fst d1, None)"
    by (rule attempts.outage [OF attempts.call [OF attempts.before one]]) (simp add: demo_server_def demo_view_def)
  from migrate_recovers [OF demo_server_law t _ this two]
  have "r = None \<and> phase_of ''cache_entries'' (demo_view d2) = Ready"
    by (simp add: demo_server_def demo_view_def empty_db_def phase_of_def mysqlIdentifier_def)
  with one two show ?thesis by blast
qed

end
