(* ===== verification/MySQL_Cache.thy ===== *)
theory MySQL_Cache
  imports MySQL_Schema
begin

text \<open>
  The result cache on a MySQL table, \<open>MySQLCache\<close> of \<open>src/execution/mysql_cache.go\<close>: its constructor,
  \<open>Load\<close> and \<open>Store\<close>. The envelope of an entry and its checks are those of \<open>FileCache\<close>. The
  interpretation \<open>mysql_cache\<close> shows that it keeps the contract of \<open>Store_Interface\<close>, whatever the
  server answers.
\<close>

record pool =
  pl_maxOpen :: int
  pl_maxIdle :: int
  pl_maxLifetime :: int
  pl_maxIdleTime :: int

record MySQLCacheOptions =
  mq_DSN :: string
  mq_TableName :: string
  mq_pool :: pool
  mq_MaxEntryBytes :: int

record MySQLCache =
  mc_table :: string
  mc_maxEntryBytes :: int

text \<open>\<open>open_db\<close> is the answer of \<open>sql.Open\<close>; a pool is its limits.\<close>

definition openMySQLPool :: "(string \<Rightarrow> err option) \<Rightarrow> string \<Rightarrow> pool \<Rightarrow> pool result" where
  "openMySQLPool open_db dsn p =
     (case open_db dsn of
        Some e \<Rightarrow> Inl e
      | None \<Rightarrow> Inr \<lparr>pl_maxOpen = (if pl_maxOpen p \<le> 0 then 20 else pl_maxOpen p),
          pl_maxIdle = (if pl_maxIdle p \<le> 0 then 10 else pl_maxIdle p),
          pl_maxLifetime = (if pl_maxLifetime p \<le> 0 then 5 * 60 * 10 ^ 9 else pl_maxLifetime p),
          pl_maxIdleTime = (if pl_maxIdleTime p \<le> 0 then 60 * 10 ^ 9 else pl_maxIdleTime p)\<rparr>)"

definition NewMySQLCache :: "'v codec \<Rightarrow> (string \<Rightarrow> err option) \<Rightarrow> 'd server \<Rightarrow> ctx \<Rightarrow> MySQLCacheOptions \<Rightarrow> 'd \<Rightarrow>
    (MySQLCache \<times> pool) result \<times> 'd" where
  "NewMySQLCache C open_db sv c opts d =
     (let table = (if TrimSpace (mq_TableName opts) = [] then ''cache_entries'' else TrimSpace (mq_TableName opts));
          m = (if mq_MaxEntryBytes opts = 0 then mysqlMediumTextMax else mq_MaxEntryBytes opts) in
      if TrimSpace (mq_DSN opts) = [] then (Inl (Errorf ''mysql cache dsn is required'' [] None), d)
      else if \<not> mysqlIdentifier table
      then (Inl (Errorf ''mysql cache table name %q is not a valid MySQL identifier (letters, digits, underscore, $; 1-64 chars)''
             [FStr table] None), d)
      else if m < 1 then (Inl (Errorf ''mysql cache maximum entry bytes must be positive'' [] None), d)
      else if mysqlMediumTextMax < m
      then (Inl (Errorf ''mysql cache maximum entry bytes %d exceeds MEDIUMTEXT capacity %d; use a smaller MaxEntryBytes or a column type that can hold it''
             [FInt m, FInt mysqlMediumTextMax] None), d)
      else case openMySQLPool open_db (mq_DSN opts) (mq_pool opts) of
          Inl e \<Rightarrow> (Inl (Errorf ''open mysql cache: %w'' [] (Some e)), d)
        | Inr p \<Rightarrow>
            (case migrate C sv c table d of
               (Some e, d1) \<Rightarrow> (Inl (Errorf ''mysql cache migrate: %w'' [] (Some e)), d1)
             | (None, d1) \<Rightarrow> (Inr (\<lparr>mc_table = table, mc_maxEntryBytes = m\<rparr>, p), d1)))"

definition MySQLCache_Load :: "'v codec \<Rightarrow> 'd server \<Rightarrow> MySQLCache option \<Rightarrow> bool \<Rightarrow> ctx \<Rightarrow> Key \<Rightarrow> 'd \<Rightarrow>
    'v option result" where
  "MySQLCache_Load C sv mco target_nil c k d =
     (case mco of
        None \<Rightarrow> Inl (Errorf ''mysql cache is nil'' [] None)
      | Some mc \<Rightarrow>
          if target_nil then Inl (Errorf ''cache load target is required'' [] None)
          else case c of
              Some e \<Rightarrow> Inl e
            | None \<Rightarrow>
                (case Digest C k of
                   Inl e \<Rightarrow> Inl e
                 | Inr dg \<Rightarrow>
                     (case query_row sv c (SelectValue (mc_table mc) dg) scan_text d of
                        NoRows \<Rightarrow> Inr None
                      | ScanError e \<Rightarrow> Inl (Errorf ''read mysql cache entry: %w'' [] (Some e))
                      | Scanned raw \<Rightarrow>
                          if int (length raw) > mc_maxEntryBytes mc
                          then Inl (corrupt ''entry exceeds maximum size'' [])
                          else open_envelope C k raw)))"

text \<open>\<open>millis\<close> is the wall clock.\<close>

definition MySQLCache_Store :: "'v codec \<Rightarrow> 'd server \<Rightarrow> int \<Rightarrow> MySQLCache option \<Rightarrow> ctx \<Rightarrow> Key \<Rightarrow> 'v \<Rightarrow> 'd \<Rightarrow>
    err option \<times> 'd" where
  "MySQLCache_Store C sv millis mco c k v d =
     (case mco of
        None \<Rightarrow> (Some (Errorf ''mysql cache is nil'' [] None), d)
      | Some mc \<Rightarrow>
     (case c of
        Some e \<Rightarrow> (Some e, d)
      | None \<Rightarrow>
     (case Digest C k of
        Inl e \<Rightarrow> (Some e, d)
      | Inr dg \<Rightarrow>
     (case marshal_value C v of
        Inl e \<Rightarrow> (Some (Errorf ''marshal cache value: %w'' [] (Some e)), d)
      | Inr value \<Rightarrow>
          let envelope = seal_envelope C k value in
     (case marshal_envelope C envelope of
        Inl e \<Rightarrow> (Some (Errorf ''marshal cache envelope: %w'' [] (Some e)), d)
      | Inr data \<Rightarrow>
          if int (length data) > mc_maxEntryBytes mc
          then (Some (Errorf ''cache entry is %d bytes, maximum is %d''
                  [FInt (int (length data)), FInt (mc_maxEntryBytes mc)] None), d)
          else (case sv_exec sv c (Upsert (mc_table mc) dg
                      [k_Step k, k_Version k, k_InputDigest k, ce_ValueDigest envelope, data] millis) d of
              (Some e, d1) \<Rightarrow> (Some (Errorf ''publish mysql cache entry: %w'' [] (Some e)), d1)
            | (None, d1) \<Rightarrow> (None, d1)))))))"

section \<open>The contract\<close>

definition mysql_ok :: "'d server \<Rightarrow> MySQLCache \<Rightarrow> 'd \<Rightarrow> bool" where
  "mysql_ok sv mc d \<longleftrightarrow> server_law sv \<and> db_tables (sv_view sv d) (mc_table mc) \<noteq> None"

text \<open>A store that does not reach the server, and one whose statement runs.\<close>

lemma MySQLCache_Store_cases:
  assumes "mysql_ok sv mc d" and "MySQLCache_Store C sv millis (Some mc) c k v d = (r, d')"
  obtains (refused) e where "r = Some e" and "d' = d"
  | (run) dg val data e row where "Digest C k = Inr dg" and "marshal_value C v = Inr val"
      and "marshal_envelope C (seal_envelope C k val) = Inr data"
      and "int (length data) \<le> mc_maxEntryBytes mc" and "row ! 4 = data"
      and "sv_exec sv None (Upsert (mc_table mc) dg row millis) d = (e, d')" and "r = None \<longleftrightarrow> e = None"
proof (cases "\<exists>dg val data. Digest C k = Inr dg \<and> marshal_value C v = Inr val
      \<and> marshal_envelope C (seal_envelope C k val) = Inr data
      \<and> int (length data) \<le> mc_maxEntryBytes mc \<and> c = None")
  case False
  then show ?thesis using assms(2) refused
    by (auto simp: MySQLCache_Store_def Let_def split: option.splits sum.splits if_splits)
      (auto simp: not_less)
next
  case True
  then obtain dg val data where v: "Digest C k = Inr dg" "marshal_value C v = Inr val"
    "marshal_envelope C (seal_envelope C k val) = Inr data" "int (length data) \<le> mc_maxEntryBytes mc" "c = None" by blast
  let ?row = "[k_Step k, k_Version k, k_InputDigest k, ce_ValueDigest (seal_envelope C k val), data]"
  obtain e where ex: "sv_exec sv None (Upsert (mc_table mc) dg ?row millis) d = (e, d')" and r: "r = None \<longleftrightarrow> e = None"
    using assms(2) v by (auto simp: MySQLCache_Store_def Let_def split: prod.splits option.splits)
  have row: "?row ! 4 = data" by simp
  show ?thesis by (rule run [OF v(1-4) row ex r])
qed

text \<open>What the statement leaves of the rows and of the queries.\<close>

lemma upsert_rows:
  assumes ok: "mysql_ok sv mc d" and ex: "sv_exec sv c (Upsert (mc_table mc) dg row millis) d = (e, d')"
  shows "mysql_ok sv mc d'" and "sv_up sv d' = sv_up sv d"
    and "e = None \<Longrightarrow> answer_of (SelectValue (mc_table mc) dg) (sv_view sv d') = Some [[TextCell (row ! 4)]]"
    and "sv_view sv d' = sv_view sv d \<or> answer_of (SelectValue (mc_table mc) dg) (sv_view sv d') = Some [[TextCell (row ! 4)]]"
    and "dg' \<noteq> dg \<Longrightarrow> sv_query sv c' (SelectValue (mc_table mc) dg') d' = sv_query sv c' (SelectValue (mc_table mc) dg') d"
proof -
  have law: "server_law sv" using ok by (simp add: mysql_ok_def)
  obtain tb where tb: "db_tables (sv_view sv d) (mc_table mc) = Some tb" using ok by (auto simp: mysql_ok_def)
  let ?db = "(sv_view sv d)\<lparr>db_tables := (db_tables (sv_view sv d))(mc_table mc \<mapsto> tb\<lparr>tb_rows := (tb_rows tb)(dg \<mapsto> (row, millis))\<rparr>)\<rparr>"
  have view: "sv_view sv d' = sv_view sv d \<and> e \<noteq> None \<or> sv_view sv d' = ?db"
    using law_exec(1) [OF law ex] tb by (auto split: if_splits)
  show "mysql_ok sv mc d'" using view law tb by (auto simp: mysql_ok_def)
  show "sv_up sv d' = sv_up sv d" using law_exec(2) [OF law ex] .
  show "answer_of (SelectValue (mc_table mc) dg) (sv_view sv d') = Some [[TextCell (row ! 4)]]" if "e = None"
    using view that by auto
  show "sv_view sv d' = sv_view sv d \<or> answer_of (SelectValue (mc_table mc) dg) (sv_view sv d') = Some [[TextCell (row ! 4)]]"
    using view by auto
  show "sv_query sv c' (SelectValue (mc_table mc) dg') d' = sv_query sv c' (SelectValue (mc_table mc) dg') d" if "dg' \<noteq> dg"
    using view tb that by (intro law_same_query [OF law ex]) auto
qed

lemma MySQLCache_Load_same:
  assumes "\<And>dg. Digest C k = Inr dg \<Longrightarrow>
      sv_query sv None (SelectValue (mc_table mc) dg) d' = sv_query sv None (SelectValue (mc_table mc) dg) d"
  shows "MySQLCache_Load C sv (Some mc) tn c k d' = MySQLCache_Load C sv (Some mc) tn c k d"
  using assms by (auto simp: MySQLCache_Load_def query_row_def split: option.splits sum.splits)

lemma MySQLCache_Load_published:
  assumes "server_law sv" and "json_law C k v" and "Digest C k = Inr dg" and "marshal_value C v = Inr val"
    and "marshal_envelope C (seal_envelope C k val) = Inr data" and "int (length data) \<le> mc_maxEntryBytes mc"
    and ans: "answer_of (SelectValue (mc_table mc) dg) (sv_view sv d) = Some [[TextCell data]]"
  shows "MySQLCache_Load C sv (Some mc) False c k d = Inr (Some v)
    \<or> (isl (MySQLCache_Load C sv (Some mc) False c k d) \<and> (c \<noteq> None \<or> \<not> sv_up sv d))"
proof (cases c)
  case None
  let ?q = "SelectValue (mc_table mc) dg"
  show ?thesis
  proof (cases "\<exists>rows. sv_query sv None ?q d = Inr (rows, None)")
    case True
    then have "sv_query sv None ?q d = Inr ([[TextCell data]], None)" using law_query [OF assms(1) _ ans] by blast
    then have "query_row sv None ?q scan_text d = Scanned data" by (simp add: query_row_def)
    then show ?thesis using open_sealed [OF assms(2,4,5)] assms(3,6) None by (simp add: MySQLCache_Load_def)
  next
    case False
    then have "\<not> sv_up sv d" using law_up(1) [OF assms(1), of d ?q] by blast
    moreover have "\<exists>e. query_row sv None ?q scan_text d = ScanError e"
      using False by (auto simp: query_row_def split: sum.splits prod.splits list.splits option.splits)
    ultimately show ?thesis using assms(3) None by (auto simp: MySQLCache_Load_def)
  qed
qed (simp add: MySQLCache_Load_def)

interpretation mysql_cache: cache_store
  "MySQLCache_Load C sv (Some mc) False" "MySQLCache_Store C sv millis (Some mc)" "same_digest C" "json_law C"
  "mysql_ok sv mc" "sv_up sv"
  for C :: "'v codec" and sv :: "'d server" and mc :: MySQLCache and millis :: int
proof
  fix d d' :: 'd and c k v r c' k' e
  assume ok: "mysql_ok sv mc d" and store: "MySQLCache_Store C sv millis (Some mc) c k v d = (r, d')"
  show "mysql_ok sv mc d'"
    by (cases rule: MySQLCache_Store_cases [OF ok store]) (use ok upsert_rows(1) [OF ok] in auto)
  show "sv_up sv d' = sv_up sv d"
    by (cases rule: MySQLCache_Store_cases [OF ok store]) (use upsert_rows(2) [OF ok] in auto)
  show "MySQLCache_Load C sv (Some mc) False c' k' d' = MySQLCache_Load C sv (Some mc) False c' k' d"
    if other: "\<not> same_digest C k k'"
  proof (cases rule: MySQLCache_Store_cases [OF ok store])
    case (2 dg val data e row)
    show ?thesis
    proof (rule MySQLCache_Load_same)
      fix dg' assume "Digest C k' = Inr dg'"
      then have "dg' \<noteq> dg" using other 2(1) by (auto simp: same_digest_def)
      then show "sv_query sv None (SelectValue (mc_table mc) dg') d' = sv_query sv None (SelectValue (mc_table mc) dg') d"
        using upsert_rows(5) [OF ok 2(6)] by blast
    qed
  qed simp
next
  fix d d' :: 'd and c k v c'
  assume ok: "mysql_ok sv mc d" and good: "json_law C k v"
    and store: "MySQLCache_Store C sv millis (Some mc) c k v d = (None, d')"
  show "MySQLCache_Load C sv (Some mc) False c' k d' = Inr (Some v)
      \<or> isl (MySQLCache_Load C sv (Some mc) False c' k d') \<and> (c' \<noteq> None \<or> \<not> sv_up sv d')"
  proof (cases rule: MySQLCache_Store_cases [OF ok store])
    case (2 dg val data e row)
    have "answer_of (SelectValue (mc_table mc) dg) (sv_view sv d') = Some [[TextCell data]]"
      using upsert_rows(3) [OF ok 2(6)] 2(5,7) by simp
    moreover have "server_law sv" using ok by (simp add: mysql_ok_def)
    ultimately show ?thesis using MySQLCache_Load_published [OF _ good 2(1-4)] by simp
  qed simp
next
  fix d d' :: 'd and c k v e c'
  assume ok: "mysql_ok sv mc d" and good: "json_law C k v"
    and store: "MySQLCache_Store C sv millis (Some mc) c k v d = (Some e, d')"
  show "MySQLCache_Load C sv (Some mc) False c' k d' = MySQLCache_Load C sv (Some mc) False c' k d
      \<or> MySQLCache_Load C sv (Some mc) False c' k d' = Inr (Some v)
      \<or> isl (MySQLCache_Load C sv (Some mc) False c' k d') \<and> (c' \<noteq> None \<or> \<not> sv_up sv d')"
  proof (cases rule: MySQLCache_Store_cases [OF ok store])
    case (2 dg val data e row)
    have law: "server_law sv" using ok by (simp add: mysql_ok_def)
    from upsert_rows(4) [OF ok 2(6)] show ?thesis
    proof
      assume "sv_view sv d' = sv_view sv d"
      then have "MySQLCache_Load C sv (Some mc) False c' k d' = MySQLCache_Load C sv (Some mc) False c' k d"
        by (intro MySQLCache_Load_same law_same_query [OF law 2(6)]) simp
      then show ?thesis by blast
    next
      assume "answer_of (SelectValue (mc_table mc) dg) (sv_view sv d') = Some [[TextCell (row ! 4)]]"
      then show ?thesis using MySQLCache_Load_published [OF law good 2(1-4)] 2(5) by simp
    qed
  qed simp
qed

interpretation mysql_reads: cache_reads
  "MySQLCache_Load C sv (Some mc) False" "MySQLCache_Store C sv millis (Some mc)" "same_digest C" "json_law C"
  "mysql_ok sv mc" "sv_up sv"
  for C :: "'v codec" and sv :: "'d server" and mc :: MySQLCache and millis :: int
  by unfold_locales (auto simp: MySQLCache_Load_def split: option.splits)

end
