(* ===== verification/Store_Refinement.thy ===== *)
theory Store_Refinement
  imports Memory_Store MySQL_Cache
begin

text \<open>
  The three stores as implementations of one abstract cache: a partial map from keys to values. A
  store that succeeds updates the map, and one that fails may have or not. \<open>spec_run\<close> is a sequence
  of stores on the map, and \<open>represents\<close> relates a store's state to it.
\<close>

inductive spec_run :: "(ctx \<times> Key \<times> 'v) list \<Rightarrow> err option list \<Rightarrow> (Key \<Rightarrow> 'v option) \<Rightarrow> (Key \<Rightarrow> 'v option) \<Rightarrow> bool" where
  nothing: "spec_run [] [] M M"
| stored: "spec_run ws rs (M(k \<mapsto> v)) M' \<Longrightarrow> spec_run ((c, k, v) # ws) (None # rs) M M'"
| failed: "spec_run ws rs M M' \<Longrightarrow> spec_run ((c, k, v) # ws) (Some e # rs) M M'"
| failed_stored: "spec_run ws rs (M(k \<mapsto> v)) M' \<Longrightarrow> spec_run ((c, k, v) # ws) (Some e # rs) M M'"

definition represents :: "(ctx \<Rightarrow> Key \<Rightarrow> 's \<Rightarrow> 'v option result) \<Rightarrow> Key set \<Rightarrow> 's \<Rightarrow> (Key \<Rightarrow> 'v option) \<Rightarrow> bool" where
  "represents load K s M \<longleftrightarrow> (\<forall>k \<in> K. load None k s = Inr (M k))"

context cache_store
begin

text \<open>One store is a step of the map.\<close>

lemma store_refines:
  assumes "ok s" and "healthy s" and "good k v" and "store c k v s = (r, s')" and rep: "represents load K s M"
    and k: "k \<in> K" and apart: "\<forall>k' \<in> K. same k k' \<longrightarrow> k' = k"
  shows "represents load K s' (M(k \<mapsto> v)) \<or> r \<noteq> None \<and> represents load K s' M"
proof -
  have other: "load None k' s' = Inr (M k')" if "k' \<in> K" "k' \<noteq> k" for k'
    using load_other [OF assms(1,4), of k' None] apart that rep by (auto simp: represents_def)
  have "load None k s' = Inr (Some v) \<or> r \<noteq> None \<and> load None k s' = Inr (M k)"
  proof (cases r)
    case None
    then show ?thesis using load_stored_healthy [OF assms(1,3) assms(4) [unfolded None] assms(2)] by simp
  next
    case (Some e)
    from load_failed [OF assms(1,3) assms(4) [unfolded Some], of None] show ?thesis
      using rep k assms(2) store_healthy [OF assms(1,4)] Some by (auto simp: represents_def)
  qed
  then show ?thesis using other by (auto simp: represents_def)
qed

lemma store_all_refines:
  assumes apart: "\<forall>k \<in> K. \<forall>k' \<in> K. same k k' \<longrightarrow> k' = k"
  shows "ok s \<Longrightarrow> healthy s \<Longrightarrow> represents load K s M \<Longrightarrow> \<forall>(c, k, v) \<in> set ws. k \<in> K \<and> good k v \<Longrightarrow>
    store_all store ws s = (rs, s') \<Longrightarrow> \<exists>M'. spec_run ws rs M M' \<and> represents load K s' M'"
proof (induction ws arbitrary: s rs M)
  case Nil
  then show ?case by (auto intro: spec_run.nothing)
next
  case (Cons w ws)
  obtain c k v where w: "w = (c, k, v)" by (cases w)
  with Cons.prems(5) obtain r s1 rs1 where one: "store c k v s = (r, s1)"
    and rest: "store_all store ws s1 = (rs1, s')" and rs: "rs = r # rs1"
    by (auto split: prod.splits)
  have kv: "k \<in> K" "good k v" and later: "\<forall>(c, k, v) \<in> set ws. k \<in> K \<and> good k v" using Cons.prems(4) w by auto
  have sound: "ok s1" "healthy s1"
    using store_ok [OF Cons.prems(1) one] store_healthy [OF Cons.prems(1) one] Cons.prems(2) by simp_all
  note IH = Cons.IH [OF sound _ later rest]
  from store_refines [OF Cons.prems(1,2) kv(2) one Cons.prems(3) kv(1)] apart kv(1)
  have "represents load K s1 (M(k \<mapsto> v)) \<or> r \<noteq> None \<and> represents load K s1 M" by blast
  then show ?case
  proof
    assume "represents load K s1 (M(k \<mapsto> v))"
    from IH [OF this] obtain M' where "spec_run ws rs1 (M(k \<mapsto> v)) M'" "represents load K s' M'" by blast
    then show ?thesis unfolding w rs by (cases r) (blast intro: spec_run.stored spec_run.failed_stored)+
  next
    assume "r \<noteq> None \<and> represents load K s1 M"
    then show ?thesis using IH [of M] unfolding w rs by (auto intro: spec_run.failed)
  qed
qed

end

section \<open>A cache that was opened\<close>

lemma NewMySQLCache_ok:
  assumes law: "server_law sv" and new: "NewMySQLCache C open_db sv c opts d = (Inr (mc, p), d1)"
    and t: "mc_table mc \<noteq> mysqlSchemaVersionTbl"
  shows "mysql_ok sv mc d1"
proof -
  have "migrate C sv c (mc_table mc) d = (None, d1)"
    using new by (auto simp: NewMySQLCache_def Let_def split: if_splits sum.splits prod.splits option.splits)
  from migrate_steps [OF law t this] have "phase_of (mc_table mc) (sv_view sv d1) = Ready" by simp
  then show ?thesis using law by (auto simp: mysql_ok_def phase_of_def split: option.splits if_splits)
qed

text \<open>C40. The three stores refine one abstract cache. For keys whose digests differ and values that
  JSON keeps, any sequence of stores, with the errors it returned, is a run of the partial map
  from keys to values (a successful store updates it, a failed one may have), and afterwards every
  load gives what the map has: for the file cache on a disk that reads, for the memory store, and
  for a MySQL cache whose constructor succeeded and whose server answers.\<close>

theorem stores_refine_map:
  assumes "\<forall>k \<in> K. \<forall>k' \<in> K. same_digest C k k' \<longrightarrow> k' = k" and "\<forall>(c, k, v) \<in> set ws. k \<in> K \<and> json_law C k v"
    and "disk_ok C d" and "disk_healthy fc d" and "represents (FileCache_Load C (Some fc) False) K d M"
    and "represents (MemoryStore_Load C) K m M"
    and "server_law sv" and "NewMySQLCache C open_db sv c opts q0 = (Inr (mc, p), q)"
    and "mc_table mc \<noteq> mysqlSchemaVersionTbl" and "sv_up sv q"
    and "represents (MySQLCache_Load C sv (Some mc) False) K q M"
    and "store_all (FileCache_Store C (Some fc)) ws d = (rs1, d')"
    and "store_all (MemoryStore_Store C) ws m = (rs2, m')"
    and "store_all (MySQLCache_Store C sv millis (Some mc)) ws q = (rs3, q')"
  shows "(\<exists>M'. spec_run ws rs1 M M' \<and> represents (FileCache_Load C (Some fc) False) K d' M') \<and>
    (\<exists>M'. spec_run ws rs2 M M' \<and> represents (MemoryStore_Load C) K m' M') \<and>
    (\<exists>M'. spec_run ws rs3 M M' \<and> represents (MySQLCache_Load C sv (Some mc) False) K q' M')"
  using file_cache.store_all_refines [OF assms(1,3,4,5,2,12)]
    memory_store.store_all_refines [OF assms(1) _ _ assms(6,2,13)]
    mysql_cache.store_all_refines [OF assms(1) NewMySQLCache_ok [OF assms(7,8,9)] assms(10,11,2,14)]
  by (simp add: no_state_law_def)

text \<open>The three stores, empty, and a store that is refused by a cancelled context before one that is not.\<close>

definition demo_mysql_options :: MySQLCacheOptions where
  "demo_mysql_options = \<lparr>mq_DSN = ''user@tcp(db)/cache_dev'', mq_TableName = [],
     mq_pool = \<lparr>pl_maxOpen = 0, pl_maxIdle = 0, pl_maxLifetime = 0, pl_maxIdleTime = 0\<rparr>, mq_MaxEntryBytes = 0\<rparr>"

definition demo_mc :: MySQLCache where
  "demo_mc = \<lparr>mc_table = ''cache_entries'', mc_maxEntryBytes = mysqlMediumTextMax\<rparr>"

definition demo_migrated :: "err option \<times> database \<times> nat option" where
  "demo_migrated = migrate sealed_codec demo_server None ''cache_entries'' (empty_db, None)"

lemma demo_migrated_value: "fst demo_migrated = None" "snd (snd demo_migrated) = None"
  by code_simp+

lemma demo_opened:
  "\<exists>p. NewMySQLCache sealed_codec (\<lambda>_. None) demo_server None demo_mysql_options (empty_db, None)
     = (Inr (demo_mc, p), snd demo_migrated)"
proof -
  have "TrimSpace ''user@tcp(db)/cache_dev'' \<noteq> []" "mysqlIdentifier ''cache_entries''" by code_simp+
  moreover have "migrate sealed_codec demo_server None ''cache_entries'' (empty_db, None) = (None, snd demo_migrated)"
    using demo_migrated_value(1) by (metis demo_migrated_def prod.collapse)
  ultimately show ?thesis
    by (simp add: NewMySQLCache_def demo_mysql_options_def openMySQLPool_def demo_mc_def mysqlMediumTextMax_def)
qed

lemma demo_opened_empty:
  "represents (MySQLCache_Load sealed_codec demo_server (Some demo_mc) False) {demo_key} (snd demo_migrated) Map.empty"
proof -
  have "MySQLCache_Load sealed_codec demo_server (Some demo_mc) False None demo_key (snd demo_migrated) = Inr None"
    by code_simp
  then show ?thesis by (simp add: represents_def)
qed

theorem stores_refine_map_witness:
  "\<exists>p q rs q' M'. NewMySQLCache sealed_codec (\<lambda>_. None) demo_server None demo_mysql_options (empty_db, None) = (Inr (demo_mc, p), q) \<and>
     store_all (MySQLCache_Store sealed_codec demo_server 0 (Some demo_mc)) demo_writes q = (rs, q') \<and>
     spec_run demo_writes rs Map.empty M' \<and>
     MySQLCache_Load sealed_codec demo_server (Some demo_mc) False None demo_key q' = Inr (M' demo_key)"
proof -
  let ?q = "snd demo_migrated"
  obtain p where p: "NewMySQLCache sealed_codec (\<lambda>_. None) demo_server None demo_mysql_options (empty_db, None) = (Inr (demo_mc, p), ?q)"
    using demo_opened by blast
  have up: "sv_up demo_server ?q" using demo_migrated_value by (simp add: demo_server_def)
  have t: "mc_table demo_mc \<noteq> mysqlSchemaVersionTbl" by (simp add: demo_mc_def mysqlSchemaVersionTbl_def)
  obtain dg where dg: "Digest sealed_codec demo_key = Inr dg" using demo_digest by blast
  have disk: "represents (FileCache_Load sealed_codec (Some demo_cache) False) {demo_key} demo_disk Map.empty"
    using dg by (simp add: represents_def FileCache_Load_def cache_path_def demo_disk_def)
  have mem: "represents (MemoryStore_Load sealed_codec) {demo_key} NewMemoryStore Map.empty"
    using dg by (simp add: represents_def MemoryStore_Load_def NewMemoryStore_def)
  obtain rs1 d' where s1: "store_all (FileCache_Store sealed_codec (Some demo_cache)) demo_writes demo_disk = (rs1, d')"
    by (rule prod.exhaust)
  obtain rs2 m' where s2: "store_all (MemoryStore_Store sealed_codec) demo_writes NewMemoryStore = (rs2, m')"
    by (rule prod.exhaust)
  obtain rs3 q' where s3: "store_all (MySQLCache_Store sealed_codec demo_server 0 (Some demo_mc)) demo_writes ?q = (rs3, q')"
    by (rule prod.exhaust)
  have ws: "\<forall>(c, k, v) \<in> set demo_writes. k \<in> {demo_key} \<and> json_law sealed_codec k v"
    using demo_json_law by (simp add: demo_writes_def)
  from stores_refine_map [OF _ ws demo_disk_ok disk mem demo_server_law p t up
      demo_opened_empty s1 s2 s3]
  obtain M' where "spec_run demo_writes rs3 Map.empty M'"
    "represents (MySQLCache_Load sealed_codec demo_server (Some demo_mc) False) {demo_key} q' M'" by auto
  then have "spec_run demo_writes rs3 Map.empty M' \<and>
      MySQLCache_Load sealed_codec demo_server (Some demo_mc) False None demo_key q' = Inr (M' demo_key)"
    by (simp add: represents_def)
  with p s3 show ?thesis by blast
qed

end
