(* ===== verification/Cached_Map.thy ===== *)
theory Cached_Map
  imports Bounded_Map Store_Interface File_Cache "HOL-Library.AList"
begin

text \<open>
  The cached parallel map, \<open>MapCached\<close> of \<open>src/execution/cached_map.go\<close>.

  It groups the inputs by key digest, loads every group from the cache, and maps a closure
  over the groups that missed: the closure calls the work function, stores the result and
  notifies the caller for each input of the group. The state its goroutines share is
  \<open>cm_state\<close>: the cache, the outcomes of the report, the two atomic counters and the state
  \<open>'u\<close> of the caller's functions (work, callback, limiter). The closure is one move of
  \<open>Bounded_Map\<close>; its schedule is the argument \<open>evs\<close>. A result slot that was not filled
  is \<open>None\<close> (the zero value).
\<close>

type_synonym CacheState = string

definition CacheHit :: CacheState where "CacheHit = ''hit''"
definition CacheStored :: CacheState where "CacheStored = ''stored''"
definition CachePending :: CacheState where "CachePending = ''pending''"

lemmas cache_state_defs = CacheHit_def CacheStored_def CachePending_def

record CacheOutcome =
  co_KeyDigest :: string
  co_State :: CacheState

record CacheReport =
  cr_Hits :: nat
  cr_Misses :: nat
  cr_Writes :: nat
  cr_WorkCalls :: nat
  cr_Outcomes :: "CacheOutcome list"

record 't keyGroup =
  kg_key :: Key
  kg_item :: 't
  kg_indexes :: "nat list"

record ('s, 'u) cm_state =
  cm_cache :: 's
  cm_outcomes :: "CacheOutcome list"
  cm_writes :: nat
  cm_workCalls :: nat
  cm_user :: 'u

type_synonym ('r, 'u) notify = "nat \<Rightarrow> 'r \<Rightarrow> CacheOutcome \<Rightarrow> 'u \<Rightarrow> err option \<times> 'u"

definition zero_outcome :: CacheOutcome where
  "zero_outcome = \<lparr>co_KeyDigest = [], co_State = []\<rparr>"

definition set_state :: "CacheState \<Rightarrow> nat \<Rightarrow> CacheOutcome list \<Rightarrow> CacheOutcome list" where
  "set_state st i os = os[i := (os ! i)\<lparr>co_State := st\<rparr>]"

definition call_notify :: "('r, 'u) notify option \<Rightarrow> nat \<Rightarrow> 'r \<Rightarrow> CacheOutcome list \<Rightarrow> 'u \<Rightarrow> err option \<times> 'u" where
  "call_notify notify i v os u = (case notify of None \<Rightarrow> (None, u) | Some f \<Rightarrow> f i v (os ! i) u)"

section \<open>Grouping\<close>

text \<open>One step per item: the outcomes, the groups and the map from digests to groups.\<close>

fun group_loop :: "'v codec \<Rightarrow> ('t \<Rightarrow> Key result) \<Rightarrow> nat \<Rightarrow> 't list \<Rightarrow>
    CacheOutcome list \<times> 't keyGroup list \<times> (string \<times> nat) list \<Rightarrow>
    err option \<times> CacheOutcome list \<times> 't keyGroup list" where
  "group_loop C key i [] (os, gs, bd) = (None, os, gs)"
| "group_loop C key i (x # xs) (os, gs, bd) =
     (case key x of
        Inl e \<Rightarrow> (Some (Errorf ''item %d: build cache key: %w'' [FInt (int i)] (Some e)), os, gs)
      | Inr k \<Rightarrow>
          (case Digest C k of
             Inl e \<Rightarrow> (Some (Errorf ''item %d: validate cache key: %w'' [FInt (int i)] (Some e)), os, gs)
           | Inr d \<Rightarrow>
               let os' = os[i := \<lparr>co_KeyDigest = d, co_State = CachePending\<rparr>] in
               (case map_of bd d of
                  Some j \<Rightarrow> group_loop C key (Suc i) xs
                    (os', gs[j := (gs ! j)\<lparr>kg_indexes := kg_indexes (gs ! j) @ [i]\<rparr>], bd)
                | None \<Rightarrow> group_loop C key (Suc i) xs
                    (os', gs @ [\<lparr>kg_key = k, kg_item = x, kg_indexes = [i]\<rparr>],
                     AList.update d (length gs) bd))))"

section \<open>Loading\<close>

record 'r load_state =
  ls_results :: "'r option list"
  ls_outcomes :: "CacheOutcome list"
  ls_hits :: nat
  ls_misses :: nat

text \<open>The loop over the indexes of a group that was found.\<close>

fun hit_loop :: "('r, 'u) notify option \<Rightarrow> 'r \<Rightarrow> nat list \<Rightarrow> 'r load_state \<Rightarrow> 'u \<Rightarrow>
    err option \<times> 'r load_state \<times> 'u" where
  "hit_loop notify v [] ls u = (None, ls, u)"
| "hit_loop notify v (i # is) ls u =
     (let ls' = ls\<lparr>ls_results := (ls_results ls)[i := Some v],
                   ls_outcomes := set_state CacheHit i (ls_outcomes ls), ls_hits := Suc (ls_hits ls)\<rparr>
      in case call_notify notify i v (ls_outcomes ls') u of
          (Some e, u') \<Rightarrow> (Some (Errorf ''notify cached result %d: %w'' [FInt (int i)] (Some e)), ls', u')
        | (None, u') \<Rightarrow> hit_loop notify v is ls' u')"

fun load_loop :: "(ctx \<Rightarrow> Key \<Rightarrow> 's \<Rightarrow> 'r option result) \<Rightarrow> ('r, 'u) notify option \<Rightarrow> ctx \<Rightarrow> 's \<Rightarrow>
    't keyGroup list \<Rightarrow> 't keyGroup list \<Rightarrow> 'r load_state \<Rightarrow> 'u \<Rightarrow>
    err option \<times> 't keyGroup list \<times> 'r load_state \<times> 'u" where
  "load_loop load notify c s [] misses ls u = (None, misses, ls, u)"
| "load_loop load notify c s (g # gs) misses ls u =
     (case load c (kg_key g) s of
        Inl e \<Rightarrow> (Some (Errorf ''load cache item %d: %w'' [FInt (int (kg_indexes g ! 0))] (Some e)), misses, ls, u)
      | Inr None \<Rightarrow>
          load_loop load notify c s gs (misses @ [g])
            (ls\<lparr>ls_misses := ls_misses ls + length (kg_indexes g)\<rparr>) u
      | Inr (Some v) \<Rightarrow>
          (case hit_loop notify v (kg_indexes g) ls u of
             (Some e, ls', u') \<Rightarrow> (Some e, misses, ls', u')
           | (None, ls', u') \<Rightarrow> load_loop load notify c s gs misses ls' u'))"

section \<open>Working on the misses\<close>

fun stored_loop :: "('r, 'u) notify option \<Rightarrow> 'r \<Rightarrow> nat list \<Rightarrow> ('s, 'u) cm_state \<Rightarrow>
    err option \<times> ('s, 'u) cm_state" where
  "stored_loop notify v [] S = (None, S)"
| "stored_loop notify v (i # is) S =
     (let S1 = S\<lparr>cm_outcomes := set_state CacheStored i (cm_outcomes S)\<rparr>
      in case call_notify notify i v (cm_outcomes S1) (cm_user S1) of
          (Some e, u') \<Rightarrow> (Some (Errorf ''notify stored result %d: %w'' [FInt (int i)] (Some e)), S1\<lparr>cm_user := u'\<rparr>)
        | (None, u') \<Rightarrow> stored_loop notify v is (S1\<lparr>cm_user := u'\<rparr>))"

text \<open>The store runs under \<open>context.WithoutCancel\<close>.\<close>

definition miss_work :: "(ctx \<Rightarrow> Key \<Rightarrow> 'r \<Rightarrow> 's \<Rightarrow> err option \<times> 's) \<Rightarrow> ('t, 'r, 'u) work \<Rightarrow>
    ('r, 'u) notify option \<Rightarrow> ('t keyGroup, 'r \<times> nat list, ('s, 'u) cm_state) work" where
  "miss_work store f notify c g S =
     (let S1 = S\<lparr>cm_workCalls := Suc (cm_workCalls S)\<rparr> in
      case f c (kg_item g) (cm_user S1) of
        (Inl e, u') \<Rightarrow> (Inl e, S1\<lparr>cm_user := u'\<rparr>)
      | (Inr v, u') \<Rightarrow>
          (case store None (kg_key g) v (cm_cache S1) of
             (Some e, s') \<Rightarrow>
               (Inl (Errorf ''store cache result: %w'' [] (Some e)), S1\<lparr>cm_user := u', cm_cache := s'\<rparr>)
           | (None, s') \<Rightarrow>
               (case stored_loop notify v (kg_indexes g)
                       (S1\<lparr>cm_user := u', cm_cache := s', cm_writes := Suc (cm_writes S1)\<rparr>) of
                  (Some e, S2) \<Rightarrow> (Inl e, S2)
                | (None, S2) \<Rightarrow> (Inr (v, kg_indexes g), S2))))"

definition miss_options :: "('t, 'u) map_options \<Rightarrow> ('t keyGroup, ('s, 'u) cm_state) map_options" where
  "miss_options mo =
     \<lparr>mo_workers = mo_workers mo,
      mo_limiter = (case mo_limiter mo of
          None \<Rightarrow> None
        | Some lim \<Rightarrow> Some (\<lambda>c k S. case lim c k (cm_user S) of
              None \<Rightarrow> None | Some (r, u') \<Rightarrow> Some (r, S\<lparr>cm_user := u'\<rparr>))),
      mo_cost = Some (\<lambda>g. case mo_cost mo of None \<Rightarrow> 1 | Some cost \<Rightarrow> cost (kg_item g))\<rparr>"

fun fill_one :: "'r \<Rightarrow> nat list \<Rightarrow> 'r option list \<Rightarrow> 'r option list" where
  "fill_one v [] rs = rs"
| "fill_one v (i # is) rs = fill_one v is (rs[i := Some v])"

fun fill_results :: "('r \<times> nat list) option list \<Rightarrow> 'r option list \<Rightarrow> 'r option list" where
  "fill_results [] rs = rs"
| "fill_results (None # cs) rs = fill_results cs rs"
| "fill_results (Some (v, is) # cs) rs = fill_results cs (fill_one v is rs)"

section \<open>MapCached\<close>

record ('t, 'r, 's, 'u) cached_options =
  cmo_Map :: "('t, 'u) map_options"
  cmo_Load :: "(ctx \<Rightarrow> Key \<Rightarrow> 's \<Rightarrow> 'r option result) option"
  cmo_Store :: "ctx \<Rightarrow> Key \<Rightarrow> 'r \<Rightarrow> 's \<Rightarrow> err option \<times> 's"
  cmo_Key :: "('t \<Rightarrow> Key result) option"

text \<open>The outcome: the results or the error, the report, the cache and the caller's state.\<close>

type_synonym ('r, 's, 'u) cached_outcome = "'r option list result \<times> CacheReport \<times> 's \<times> 'u"

definition mk_report :: "nat \<Rightarrow> nat \<Rightarrow> nat \<Rightarrow> nat \<Rightarrow> CacheOutcome list \<Rightarrow> CacheReport" where
  "mk_report h m w c os = \<lparr>cr_Hits = h, cr_Misses = m, cr_Writes = w, cr_WorkCalls = c, cr_Outcomes = os\<rparr>"

definition map_misses :: "errgroup \<Rightarrow> ('t, 'r, 's, 'u) cached_options \<Rightarrow> ('t, 'r, 'u) work \<Rightarrow>
    ('r, 'u) notify option \<Rightarrow> ctx \<Rightarrow> 't keyGroup list \<Rightarrow> map_event list \<Rightarrow> 'r load_state \<Rightarrow> 's \<Rightarrow> 'u \<Rightarrow>
    ('r, 's, 'u) cached_outcome option" where
  "map_misses eg opts f notify c misses evs ls s u =
     (case bounded_Map eg (miss_options (cmo_Map opts)) (Some (miss_work (cmo_Store opts) f notify))
             c misses evs
             \<lparr>cm_cache = s, cm_outcomes = ls_outcomes ls, cm_writes = 0, cm_workCalls = 0, cm_user = u\<rparr> of
        None \<Rightarrow> None
      | Some (r, S) \<Rightarrow>
          let rep = mk_report (ls_hits ls) (ls_misses ls) (cm_writes S) (cm_workCalls S) (cm_outcomes S) in
          Some (case r of
              Inl e \<Rightarrow> Inl e
            | Inr completed \<Rightarrow> Inr (fill_results completed (ls_results ls)),
            rep, cm_cache S, cm_user S))"

text \<open>The variadic callback argument: at most one, and not \<open>nil\<close>.\<close>

definition bad_callbacks :: "'f option list \<Rightarrow> bool" where
  "bad_callbacks onResult \<longleftrightarrow> length onResult > 1 \<or> (length onResult = 1 \<and> hd onResult = None)"

definition MapCached :: "'v codec \<Rightarrow> errgroup \<Rightarrow> ('t, 'r, 's, 'u) cached_options \<Rightarrow> ('t, 'r, 'u) work option \<Rightarrow>
    ('r, 'u) notify option list \<Rightarrow> ctx \<Rightarrow> 't list \<Rightarrow> map_event list \<Rightarrow> 's \<Rightarrow> 'u \<Rightarrow>
    ('r, 's, 'u) cached_outcome option" where
  "MapCached C eg opts fo onResult c items evs s u =
     (let os0 = replicate (length items) zero_outcome;
          rep0 = mk_report 0 0 0 0 os0 in
      case cmo_Load opts of
        None \<Rightarrow> Some (Inl (Errorf ''cache is required'' [] None), rep0, s, u)
      | Some load \<Rightarrow>
     (case cmo_Key opts of
        None \<Rightarrow> Some (Inl (Errorf ''cache key function is required'' [] None), rep0, s, u)
      | Some key \<Rightarrow>
     (case fo of
        None \<Rightarrow> Some (Inl (Errorf ''work function is required'' [] None), rep0, s, u)
      | Some f \<Rightarrow>
          if bad_callbacks onResult
          then Some (Inl (Errorf ''at most one non-nil result callback is allowed'' [] None), rep0, s, u)
          else let notify = (case onResult of [] \<Rightarrow> None | n # _ \<Rightarrow> n) in
            if items = [] then Some (Inr [], rep0, s, u)
            else case group_loop C key 0 items (os0, [], []) of
                (Some e, os, gs) \<Rightarrow> Some (Inl e, mk_report 0 0 0 0 os, s, u)
              | (None, os, gs) \<Rightarrow>
                  (case load_loop load notify c s gs []
                          \<lparr>ls_results = replicate (length items) None, ls_outcomes = os, ls_hits = 0, ls_misses = 0\<rparr> u of
                     (Some e, misses, ls, u') \<Rightarrow>
                       Some (Inl e, mk_report (ls_hits ls) (ls_misses ls) 0 0 (ls_outcomes ls), s, u')
                   | (None, misses, ls, u') \<Rightarrow>
                       if misses = []
                       then Some (Inr (ls_results ls), mk_report (ls_hits ls) (ls_misses ls) 0 0 (ls_outcomes ls), s, u')
                       else map_misses eg opts f notify c misses evs ls s u'))))"

section \<open>The closure as a client of the map\<close>

lemma set_state_frame [engine_simps]:
  "length (set_state st i os) = length os"
  "map co_KeyDigest (set_state st i os) = map co_KeyDigest os"
  by (auto simp: set_state_def map_update list_update_id intro: nth_equalityI) 
     (metis CacheOutcome.select_convs(1) CacheOutcome.surjective CacheOutcome.update_convs(2)
       list_update_id list_update_same_conv map_update nth_map linorder_not_less list_update_beyond length_map)

lemma set_state_nth [engine_simps]:
  "j < length os \<Longrightarrow> co_State (set_state st i os ! j) = (if j = i then st else co_State (os ! j))"
  by (auto simp: set_state_def nth_list_update)

text \<open>What the loop over the indexes of a stored group changes.\<close>

lemma stored_loop_frame:
  "stored_loop notify v is S = (r, S') \<Longrightarrow>
     cm_cache S' = cm_cache S \<and> cm_workCalls S' = cm_workCalls S \<and> cm_writes S' = cm_writes S \<and>
     length (cm_outcomes S') = length (cm_outcomes S) \<and>
     map co_KeyDigest (cm_outcomes S') = map co_KeyDigest (cm_outcomes S) \<and>
     (\<forall>j < length (cm_outcomes S).
        co_State (cm_outcomes S' ! j) = co_State (cm_outcomes S ! j)
        \<or> (j \<in> set is \<and> co_State (cm_outcomes S' ! j) = CacheStored)) \<and>
     (r = None \<longrightarrow> (\<forall>j < length (cm_outcomes S). j \<in> set is \<longrightarrow> co_State (cm_outcomes S' ! j) = CacheStored))"
proof (induction "is" arbitrary: S)
  case (Cons i "is")
  let ?S1 = "S\<lparr>cm_outcomes := set_state CacheStored i (cm_outcomes S)\<rparr>"
  obtain e u' where n: "call_notify notify i v (cm_outcomes ?S1) (cm_user ?S1) = (e, u')" by fastforce
  show ?case
  proof (cases e)
    case None
    with Cons.prems n have "stored_loop notify v is (?S1\<lparr>cm_user := u'\<rparr>) = (r, S')"
      by (simp add: Let_def)
    from Cons.IH [OF this] show ?thesis by (auto simp: engine_simps) (metis set_state_nth)+
  next
    case (Some d)
    with Cons.prems n show ?thesis by (auto simp: Let_def engine_simps split: if_splits)
  qed
qed auto

text \<open>A result that the work function gave for an item, and that a later load gives.\<close>

definition worked :: "('t, 'r, 'u) work \<Rightarrow> 't \<Rightarrow> 'r \<Rightarrow> bool" where
  "worked f x v \<longleftrightarrow> (\<exists>c t t'. f c x t = (Inr v, t'))"

definition published :: "(ctx \<Rightarrow> Key \<Rightarrow> 's \<Rightarrow> 'r option result) \<Rightarrow> ('t, 'r, 'u) work \<Rightarrow> 't keyGroup \<Rightarrow>
    's \<Rightarrow> 'r \<Rightarrow> bool" where
  "published load f g s v \<longleftrightarrow> load None (kg_key g) s = Inr (Some v) \<and> worked f (kg_item g) v"

text \<open>The fact about the calls on the groups \<open>ms\<close> and the shared state, for outcomes \<open>os0\<close>
  at the start.\<close>

definition miss_inv :: "(ctx \<Rightarrow> Key \<Rightarrow> 's \<Rightarrow> 'r option result) \<Rightarrow> ('s \<Rightarrow> bool) \<Rightarrow> ('t, 'r, 'u) work \<Rightarrow>
    't keyGroup list \<Rightarrow> CacheOutcome list \<Rightarrow> (nat \<times> ('r \<times> nat list) result) list \<Rightarrow> ('s, 'u) cm_state \<Rightarrow> bool" where
  "miss_inv load sound f ms os0 cs S \<longleftrightarrow>
     sound (cm_cache S) \<and> cm_workCalls S = length cs \<and>
     length (cm_outcomes S) = length os0 \<and> map co_KeyDigest (cm_outcomes S) = map co_KeyDigest os0 \<and>
     (\<forall>j < length os0. co_State (cm_outcomes S ! j) = co_State (os0 ! j) \<or>
        co_State (cm_outcomes S ! j) = CacheStored \<and>
        (\<exists>i v. i \<in> fst ` set cs \<and> j \<in> set (kg_indexes (ms ! i)) \<and> published load f (ms ! i) (cm_cache S) v)) \<and>
     (\<forall>i v is. (i, Inr (v, is)) \<in> set cs \<longrightarrow>
        is = kg_indexes (ms ! i) \<and> published load f (ms ! i) (cm_cache S) v \<and>
        (\<forall>j \<in> set is. j < length os0 \<longrightarrow> co_State (cm_outcomes S ! j) = CacheStored)) \<and>
     ((\<forall>c \<in> set cs. \<not> isl (snd c)) \<longrightarrow> cm_writes S = length cs)"

lemma miss_inv_user [engine_simps]:
  "miss_inv load sound f ms os0 cs (S\<lparr>cm_user := u\<rparr>) = miss_inv load sound f ms os0 cs S"
  by (simp add: miss_inv_def)

text \<open>A call that ends in an error before it sets an outcome.\<close>

lemma miss_inv_fail:
  assumes inv: "miss_inv load sound f ms os0 cs S" and "sound (cm_cache S')"
    and "cm_workCalls S' = Suc (cm_workCalls S)" and os: "cm_outcomes S' = cm_outcomes S"
    and kept: "\<And>j w. published load f (ms ! j) (cm_cache S) w \<Longrightarrow> j \<in> fst ` set cs \<Longrightarrow>
      published load f (ms ! j) (cm_cache S') w"
  shows "miss_inv load sound f ms os0 (cs @ [(i, Inl e)]) S'"
proof -
  have states: "co_State (cm_outcomes S' ! j) = co_State (os0 ! j) \<or>
      co_State (cm_outcomes S' ! j) = CacheStored \<and>
      (\<exists>i' v. i' \<in> fst ` set (cs @ [(i, Inl e)]) \<and> j \<in> set (kg_indexes (ms ! i')) \<and>
         published load f (ms ! i') (cm_cache S') v)" if "j < length os0" for j
  proof -
    from inv that consider "co_State (cm_outcomes S ! j) = co_State (os0 ! j)"
      | i' w where "co_State (cm_outcomes S ! j) = CacheStored" "i' \<in> fst ` set cs"
        "j \<in> set (kg_indexes (ms ! i'))" "published load f (ms ! i') (cm_cache S) w"
      unfolding miss_inv_def by blast
    then show ?thesis
    proof cases
      case 2
      then show ?thesis using kept [OF 2(4,2)] os by auto
    qed (simp add: os)
  qed
  have calls: "is = kg_indexes (ms ! i') \<and> published load f (ms ! i') (cm_cache S') v \<and>
      (\<forall>j \<in> set is. j < length os0 \<longrightarrow> co_State (cm_outcomes S' ! j) = CacheStored)"
    if "(i', Inr (v, is)) \<in> set (cs @ [(i, Inl e)])" for i' v "is"
  proof -
    from that have mem: "(i', Inr (v, is)) \<in> set cs" by simp
    then have "i' \<in> fst ` set cs" by force
    moreover from mem have "is = kg_indexes (ms ! i')" "published load f (ms ! i') (cm_cache S) v"
        "\<forall>j \<in> set is. j < length os0 \<longrightarrow> co_State (cm_outcomes S ! j) = CacheStored"
      using inv unfolding miss_inv_def by blast+
    ultimately show ?thesis using kept by (simp add: os)
  qed
  have "cm_workCalls S' = length (cs @ [(i, Inl e)])" "length (cm_outcomes S') = length os0"
    "map co_KeyDigest (cm_outcomes S') = map co_KeyDigest os0"
    using inv assms(3) by (simp_all add: miss_inv_def os)
  moreover have "\<not> (\<forall>c \<in> set (cs @ [(i, Inl e)]). \<not> isl (snd c))" by simp
  ultimately show ?thesis using assms(2) states calls unfolding miss_inv_def by blast
qed

context cache_store
begin

lemma published_kept:
  assumes "ok s" and "store c k v s = (r, s')" and "\<not> same k (kg_key g)"
    and "published load f g s w"
  shows "published load f g s' w"
  using assms load_other [OF assms(1-3)] by (simp add: published_def)

lemma miss_client:
  fixes f :: "('t, 'v, 'u) work" and ms :: "'t keyGroup list"
  assumes distinct: "\<And>i j. i < length ms \<Longrightarrow> j < length ms \<Longrightarrow> i \<noteq> j \<Longrightarrow> \<not> same (kg_key (ms ! i)) (kg_key (ms ! j))"
    and goods: "\<And>i v. i < length ms \<Longrightarrow> worked f (kg_item (ms ! i)) v \<Longrightarrow> good (kg_key (ms ! i)) v"
  shows "map_client (miss_options mo) (miss_work store f notify) ms
     (\<lambda>cs S. fst ` set cs \<subseteq> {..< length ms} \<and> miss_inv load (\<lambda>s. ok s \<and> healthy s) f ms os0 cs S)"
proof
  show "fst ` set cs \<subseteq> {..< length ms} \<and> miss_inv load (\<lambda>s. ok s \<and> healthy s) f ms os0 cs S'"
    if "mo_limiter (miss_options mo) = Some lim" "lim c k S = Some (r, S')"
      "fst ` set cs \<subseteq> {..< length ms} \<and> miss_inv load (\<lambda>s. ok s \<and> healthy s) f ms os0 cs S" for lim c k S r S' cs
    using that by (auto simp: miss_options_def engine_simps split: option.splits)
next
  fix i cs S c res S'
  assume i: "i < length ms" and fresh: "i \<notin> fst ` set cs"
    and inv0: "fst ` set cs \<subseteq> {..< length ms} \<and> miss_inv load (\<lambda>s. ok s \<and> healthy s) f ms os0 cs S"
    and step: "miss_work store f notify c (ms ! i) S = (res, S')"
  let ?g = "ms ! i" and ?S1 = "S\<lparr>cm_workCalls := Suc (cm_workCalls S)\<rparr>"
  from inv0 have inv: "miss_inv load (\<lambda>s. ok s \<and> healthy s) f ms os0 cs S" and
    bound: "fst ` set cs \<subseteq> {..< length ms}" by auto
  have bound': "fst ` set (cs @ [(i, res)]) \<subseteq> {..< length ms}" using bound i by auto
  have sound: "ok (cm_cache S)" "healthy (cm_cache S)" using inv by (auto simp: miss_inv_def)
  obtain fr u' where fx: "f c (kg_item ?g) (cm_user S) = (fr, u')" by fastforce
  show "fst ` set (cs @ [(i, res)]) \<subseteq> {..< length ms} \<and> miss_inv load (\<lambda>s. ok s \<and> healthy s) f ms os0 (cs @ [(i, res)]) S'"
  proof (cases fr)
    case (Inl e)
    then have "res = Inl e" "S' = ?S1\<lparr>cm_user := u'\<rparr>" using step fx by (auto simp: miss_work_def)
    moreover from this have "miss_inv load (\<lambda>s. ok s \<and> healthy s) f ms os0 (cs @ [(i, res)]) S'"
      using sound by (auto intro!: miss_inv_fail [OF inv])
    ultimately show ?thesis using bound' by simp
  next
    case (Inr v)
    obtain r s' where st: "store None (kg_key ?g) v (cm_cache S) = (r, s')" by fastforce
    have sound': "ok s'" "healthy s'" using store_ok [OF sound(1) st] store_healthy [OF sound(1) st] sound(2) by auto
    have kept: "published load f (ms ! j) s' w" if "published load f (ms ! j) (cm_cache S) w" "j \<in> fst ` set cs" for j w
    proof -
      have "j < length ms" "j \<noteq> i" using that(2) bound fresh by auto
      then show ?thesis using published_kept [OF sound(1) st _ that(1)] distinct [OF i] by blast
    qed
    have w: "worked f (kg_item ?g) v" using fx Inr by (auto simp: worked_def)
    show ?thesis
    proof (cases r)
      case (Some e)
      then have "res = Inl (Errorf ''store cache result: %w'' [] (Some e))"
        "S' = ?S1\<lparr>cm_user := u', cm_cache := s'\<rparr>"
        using step fx Inr st by (auto simp: miss_work_def)
      moreover from this have "miss_inv load (\<lambda>s. ok s \<and> healthy s) f ms os0 (cs @ [(i, res)]) S'"
        using sound' kept by (simp add: miss_inv_fail [OF inv])
      ultimately show ?thesis using bound' by simp
    next
      case None
      have new: "published load f ?g s' v"
        using load_stored_healthy [OF sound(1) goods [OF i w] st [unfolded None] sound(2)] w
        by (simp add: published_def)
      obtain r2 S2 where loop: "stored_loop notify v (kg_indexes ?g)
          (?S1\<lparr>cm_user := u', cm_cache := s', cm_writes := Suc (cm_writes S)\<rparr>) = (r2, S2)" by fastforce
      note frame = stored_loop_frame [OF loop]
      have S': "S' = S2" and res: "res = (case r2 of Some e \<Rightarrow> Inl e | None \<Rightarrow> Inr (v, kg_indexes ?g))"
        using step fx Inr st None loop by (auto simp: miss_work_def split: option.splits)
      have cache: "cm_cache S2 = s'" using frame by simp
      have states: "co_State (cm_outcomes S2 ! j) = co_State (os0 ! j) \<or>
          co_State (cm_outcomes S2 ! j) = CacheStored \<and>
          (\<exists>i' w. i' \<in> fst ` set (cs @ [(i, res)]) \<and> j \<in> set (kg_indexes (ms ! i')) \<and>
             published load f (ms ! i') s' w)" if j: "j < length os0" for j
      proof -
        have "j < length (cm_outcomes S)" using inv j by (simp add: miss_inv_def)
        then have "co_State (cm_outcomes S2 ! j) = co_State (cm_outcomes S ! j) \<or>
            (j \<in> set (kg_indexes ?g) \<and> co_State (cm_outcomes S2 ! j) = CacheStored)"
          using frame by simp
        then show ?thesis
        proof
          assume same: "co_State (cm_outcomes S2 ! j) = co_State (cm_outcomes S ! j)"
          from inv j consider "co_State (cm_outcomes S ! j) = co_State (os0 ! j)"
            | i' w where "co_State (cm_outcomes S ! j) = CacheStored" "i' \<in> fst ` set cs"
              "j \<in> set (kg_indexes (ms ! i'))" "published load f (ms ! i') (cm_cache S) w"
            unfolding miss_inv_def by blast
          then show ?thesis
          proof cases
            case 2
            then have "published load f (ms ! i') s' w" using kept by blast
            then show ?thesis using 2 same by auto
          qed (use same in simp)
        next
          assume "j \<in> set (kg_indexes ?g) \<and> co_State (cm_outcomes S2 ! j) = CacheStored"
          then show ?thesis using new by auto
        qed
      qed
      have stays: "co_State (cm_outcomes S2 ! j) = CacheStored"
        if "j < length os0" "co_State (cm_outcomes S ! j) = CacheStored" for j
        using frame that inv by (auto simp: miss_inv_def)
      have calls: "is = kg_indexes (ms ! i') \<and> published load f (ms ! i') s' w \<and>
          (\<forall>j \<in> set is. j < length os0 \<longrightarrow> co_State (cm_outcomes S2 ! j) = CacheStored)"
        if "(i', Inr (w, is)) \<in> set (cs @ [(i, res)])" for i' w "is"
      proof (cases "(i', Inr (w, is)) \<in> set cs")
        case True
        then have "is = kg_indexes (ms ! i')" "published load f (ms ! i') (cm_cache S) w"
          "\<forall>j \<in> set is. j < length os0 \<longrightarrow> co_State (cm_outcomes S ! j) = CacheStored"
          using inv unfolding miss_inv_def by blast+
        moreover have "i' \<in> fst ` set cs" using True by force
        ultimately show ?thesis using kept stays by blast
      next
        case False
        then have "r2 = None" "i' = i" "w = v" "is = kg_indexes ?g"
          using that res by (auto split: option.splits)
        then show ?thesis using new frame inv by (auto simp: miss_inv_def)
      qed
      have "cm_workCalls S2 = length (cs @ [(i, res)])" "length (cm_outcomes S2) = length os0"
        "map co_KeyDigest (cm_outcomes S2) = map co_KeyDigest os0"
        "(\<forall>c \<in> set (cs @ [(i, res)]). \<not> isl (snd c)) \<longrightarrow> cm_writes S2 = length (cs @ [(i, res)])"
        using frame inv by (simp_all add: miss_inv_def)
      then show ?thesis using bound' sound' states calls unfolding miss_inv_def S' cache by blast
    qed
  qed
qed

end

section \<open>What grouping computes\<close>

definition item_digest :: "'v codec \<Rightarrow> ('t \<Rightarrow> Key result) \<Rightarrow> 't \<Rightarrow> string option" where
  "item_digest C key x =
     (case key x of Inl e \<Rightarrow> None | Inr k \<Rightarrow> (case Digest C k of Inl e \<Rightarrow> None | Inr d \<Rightarrow> Some d))"

text \<open>The group of a digest, among the first \<open>n\<close> items.\<close>

definition group_ok :: "'v codec \<Rightarrow> ('t \<Rightarrow> Key result) \<Rightarrow> 't list \<Rightarrow> nat \<Rightarrow> 't keyGroup \<Rightarrow> bool" where
  "group_ok C key xs n g \<longleftrightarrow>
     key (kg_item g) = Inr (kg_key g) \<and> kg_indexes g \<noteq> [] \<and> kg_item g = xs ! hd (kg_indexes g) \<and>
     (\<exists>d. Digest C (kg_key g) = Inr d \<and>
        kg_indexes g = filter (\<lambda>j. item_digest C key (xs ! j) = Some d) [0 ..< n])"

definition groups_ok :: "'v codec \<Rightarrow> ('t \<Rightarrow> Key result) \<Rightarrow> 't list \<Rightarrow> nat \<Rightarrow> CacheOutcome list \<Rightarrow> 't keyGroup list \<Rightarrow> bool" where
  "groups_ok C key xs n os gs \<longleftrightarrow>
     length os = length xs \<and>
     (\<forall>j < n. \<exists>d. item_digest C key (xs ! j) = Some d \<and> os ! j = \<lparr>co_KeyDigest = d, co_State = CachePending\<rparr>) \<and>
     (\<forall>g \<in> set gs. group_ok C key xs n g) \<and>
     distinct (map (\<lambda>g. Digest C (kg_key g)) gs) \<and>
     (\<forall>j < n. \<exists>g \<in> set gs. j \<in> set (kg_indexes g))"

definition index_ok :: "'v codec \<Rightarrow> 't keyGroup list \<Rightarrow> (string \<times> nat) list \<Rightarrow> bool" where
  "index_ok C gs bd \<longleftrightarrow>
     (\<forall>d j. map_of bd d = Some j \<longleftrightarrow> j < length gs \<and> Digest C (kg_key (gs ! j)) = Inr d)"

lemma group_ok_skip:
  assumes "group_ok C key xs n g" and "item_digest C key (xs ! n) = Some d" and "Digest C (kg_key g) \<noteq> Inr d"
  shows "group_ok C key xs (Suc n) g"
  using assms by (auto simp: group_ok_def)

lemma group_ok_add:
  assumes "group_ok C key xs n g" and "item_digest C key (xs ! n) = Some d" and "Digest C (kg_key g) = Inr d"
  shows "group_ok C key xs (Suc n) (g\<lparr>kg_indexes := kg_indexes g @ [n]\<rparr>)"
  using assms by (auto simp: group_ok_def)

lemma group_ok_new:
  assumes "item_digest C key (xs ! n) = Some d" and "key (xs ! n) = Inr k" and "Digest C k = Inr d"
    and "\<forall>j < n. item_digest C key (xs ! j) \<noteq> Some d"
  shows "group_ok C key xs (Suc n) \<lparr>kg_key = k, kg_item = xs ! n, kg_indexes = [n]\<rparr>"
proof -
  have "filter (\<lambda>j. item_digest C key (xs ! j) = Some d) [0 ..< n] = []"
    using assms(4) by (simp add: filter_empty_conv)
  then show ?thesis using assms(1-3) by (simp add: group_ok_def)
qed

lemma outcomes_step:
  assumes "length os = length xs" and "n < length xs" and "item_digest C key (xs ! n) = Some d"
    and "\<forall>j < n. \<exists>d. item_digest C key (xs ! j) = Some d \<and> os ! j = \<lparr>co_KeyDigest = d, co_State = CachePending\<rparr>"
  shows "\<forall>j < Suc n. \<exists>d'. item_digest C key (xs ! j) = Some d' \<and>
    os[n := \<lparr>co_KeyDigest = d, co_State = CachePending\<rparr>] ! j = \<lparr>co_KeyDigest = d', co_State = CachePending\<rparr>"
  using assms by (auto simp: less_Suc_eq nth_list_update)

lemma groups_ok_known:
  assumes ok: "groups_ok C key xs n os gs" and ix: "index_ok C gs bd" and n: "n < length xs"
    and d: "item_digest C key (xs ! n) = Some d" and j: "map_of bd d = Some j"
  shows "groups_ok C key xs (Suc n) (os[n := \<lparr>co_KeyDigest = d, co_State = CachePending\<rparr>])
      (gs[j := (gs ! j)\<lparr>kg_indexes := kg_indexes (gs ! j) @ [n]\<rparr>])"
    and "index_ok C (gs[j := (gs ! j)\<lparr>kg_indexes := kg_indexes (gs ! j) @ [n]\<rparr>]) bd"
proof -
  let ?g = "(gs ! j)\<lparr>kg_indexes := kg_indexes (gs ! j) @ [n]\<rparr>"
  have jl: "j < length gs" "Digest C (kg_key (gs ! j)) = Inr d" using ix j by (auto simp: index_ok_def)
  have same: "map (\<lambda>g. Digest C (kg_key g)) (gs[j := ?g]) = map (\<lambda>g. Digest C (kg_key g)) gs"
    using jl by (simp add: map_update list_update_same_conv)
  from same have nth: "Digest C (kg_key (gs[j := ?g] ! i)) = Digest C (kg_key (gs ! i))" if "i < length gs" for i
    using that by (metis (no_types, lifting) length_list_update nth_map)
  show "index_ok C (gs[j := ?g]) bd"
    using ix nth unfolding index_ok_def length_list_update by metis
  have dist: "distinct (map (\<lambda>g. Digest C (kg_key g)) gs)" and all: "\<forall>g \<in> set gs. group_ok C key xs n g"
    and cover: "\<forall>i < n. \<exists>g \<in> set gs. i \<in> set (kg_indexes g)" and os: "length os = length xs"
    and outs: "\<forall>j < n. \<exists>d. item_digest C key (xs ! j) = Some d \<and> os ! j = \<lparr>co_KeyDigest = d, co_State = CachePending\<rparr>"
    using ok unfolding groups_ok_def by blast+
  have "group_ok C key xs (Suc n) (gs[j := ?g] ! i)" if i: "i < length gs" for i
  proof (cases "i = j")
    case True
    then show ?thesis using all jl d group_ok_add by (metis i nth_list_update_eq nth_mem)
  next
    case False
    then have "Digest C (kg_key (gs ! i)) \<noteq> Inr d"
      using dist i jl by (metis (no_types, lifting) distinct_conv_nth length_map nth_map)
    then show ?thesis using False all i d group_ok_skip by (metis nth_list_update_neq nth_mem)
  qed
  then have "\<forall>g \<in> set (gs[j := ?g]). group_ok C key xs (Suc n) g"
    by (metis in_set_conv_nth length_list_update)
  moreover have "\<exists>g \<in> set (gs[j := ?g]). i \<in> set (kg_indexes g)" if i: "i < Suc n" for i
  proof (cases "i = n")
    case True
    have "?g \<in> set (gs[j := ?g])" using jl(1) by (rule set_update_memI)
    then show ?thesis using True by (intro bexI [of _ ?g]) auto
  next
    case False
    then obtain k where k: "k < length gs" "i \<in> set (kg_indexes (gs ! k))"
      using cover i by (metis in_set_conv_nth less_SucE)
    have "i \<in> set (kg_indexes (gs[j := ?g] ! k))" using k by (cases "k = j") auto
    then show ?thesis using k(1) by (metis length_list_update nth_mem)
  qed
  ultimately show "groups_ok C key xs (Suc n) (os[n := \<lparr>co_KeyDigest = d, co_State = CachePending\<rparr>]) (gs[j := ?g])"
    using os dist same outcomes_step [OF os n d outs] unfolding groups_ok_def length_list_update by simp
qed

lemma groups_ok_new:
  assumes ok: "groups_ok C key xs n os gs" and ix: "index_ok C gs bd" and n: "n < length xs"
    and k: "key (xs ! n) = Inr k" "Digest C k = Inr d" and j: "map_of bd d = None"
  shows "groups_ok C key xs (Suc n) (os[n := \<lparr>co_KeyDigest = d, co_State = CachePending\<rparr>])
      (gs @ [\<lparr>kg_key = k, kg_item = xs ! n, kg_indexes = [n]\<rparr>])"
    and "index_ok C (gs @ [\<lparr>kg_key = k, kg_item = xs ! n, kg_indexes = [n]\<rparr>]) (AList.update d (length gs) bd)"
proof -
  let ?g = "\<lparr>kg_key = k, kg_item = xs ! n, kg_indexes = [n]\<rparr>"
  have d: "item_digest C key (xs ! n) = Some d" using k by (simp add: item_digest_def)
  have no: "Digest C (kg_key g) \<noteq> Inr d" if "g \<in> set gs" for g
    using that ix j unfolding index_ok_def by (metis in_set_conv_nth not_None_eq)
  show "index_ok C (gs @ [?g]) (AList.update d (length gs) bd)"
  proof -
    have "map_of bd d' = Some i \<longleftrightarrow> i < length gs \<and> Digest C (kg_key (gs ! i)) = Inr d'" for d' i
      using ix by (simp add: index_ok_def)
    moreover have "Digest C (kg_key (gs ! i)) \<noteq> Inr d" if "i < length gs" for i using no that by simp
    ultimately show ?thesis using k(2)
      unfolding index_ok_def by (auto simp: update_conv' nth_append less_Suc_eq)
  qed
  have dist: "distinct (map (\<lambda>g. Digest C (kg_key g)) gs)" and all: "\<forall>g \<in> set gs. group_ok C key xs n g"
    and cover: "\<forall>i < n. \<exists>g \<in> set gs. i \<in> set (kg_indexes g)" and os: "length os = length xs"
    and outs: "\<forall>j < n. \<exists>d. item_digest C key (xs ! j) = Some d \<and> os ! j = \<lparr>co_KeyDigest = d, co_State = CachePending\<rparr>"
    using ok unfolding groups_ok_def by blast+
  have "item_digest C key (xs ! i) \<noteq> Some d" if "i < n" for i
  proof
    assume i: "item_digest C key (xs ! i) = Some d"
    from cover that obtain g where g: "g \<in> set gs" "i \<in> set (kg_indexes g)" by blast
    with all obtain d' where "Digest C (kg_key g) = Inr d'" "item_digest C key (xs ! i) = Some d'"
      by (auto simp: group_ok_def)
    then show False using no [OF g(1)] i by simp
  qed
  then have "group_ok C key xs (Suc n) ?g" using d k by (intro group_ok_new) auto
  moreover have "group_ok C key xs (Suc n) g" if "g \<in> set gs" for g
    using all that no d by (blast intro: group_ok_skip)
  moreover have "distinct (map (\<lambda>g. Digest C (kg_key g)) (gs @ [?g]))"
  proof -
    have "Inr d \<notin> (\<lambda>g. Digest C (kg_key g)) ` set gs" using no by (metis imageE)
    then show ?thesis using dist k(2) by simp
  qed
  ultimately show "groups_ok C key xs (Suc n) (os[n := \<lparr>co_KeyDigest = d, co_State = CachePending\<rparr>]) (gs @ [?g])"
    using os cover outcomes_step [OF os n d outs] unfolding groups_ok_def
    by (auto simp: less_Suc_eq)
qed

lemma group_loop_ok:
  "group_loop C key n rest (os, gs, bd) = (None, os', gs') \<Longrightarrow> drop n xs = rest \<Longrightarrow> n \<le> length xs \<Longrightarrow>
     groups_ok C key xs n os gs \<Longrightarrow> index_ok C gs bd \<Longrightarrow> groups_ok C key xs (length xs) os' gs'"
proof (induction rest arbitrary: n os gs bd)
  case Nil
  then show ?case by simp
next
  case (Cons x rest)
  have n: "n < length xs" and x: "x = xs ! n" and rest: "drop (Suc n) xs = rest"
  proof -
    show n: "n < length xs" using Cons.prems(2) by (metis drop_all list.discI not_le_imp_less)
    then have "xs ! n # drop (Suc n) xs = x # rest" using Cons.prems(2) by (simp add: Cons_nth_drop_Suc)
    then show "x = xs ! n" "drop (Suc n) xs = rest" by simp_all
  qed
  from Cons.prems(1) obtain k d where k: "key x = Inr k" "Digest C k = Inr d"
    by (auto split: sum.splits)
  have d: "item_digest C key (xs ! n) = Some d" using k x by (simp add: item_digest_def)
  show ?case
  proof (cases "map_of bd d")
    case None
    with Cons.prems(1) k have "group_loop C key (Suc n) rest (os[n := \<lparr>co_KeyDigest = d, co_State = CachePending\<rparr>],
        gs @ [\<lparr>kg_key = k, kg_item = xs ! n, kg_indexes = [n]\<rparr>], AList.update d (length gs) bd) = (None, os', gs')"
      by (simp add: x)
    from Cons.IH [OF this rest _ groups_ok_new [OF Cons.prems(4,5) n _ k(2) None]] k x n
    show ?thesis by simp
  next
    case (Some j)
    with Cons.prems(1) k have "group_loop C key (Suc n) rest (os[n := \<lparr>co_KeyDigest = d, co_State = CachePending\<rparr>],
        gs[j := (gs ! j)\<lparr>kg_indexes := kg_indexes (gs ! j) @ [n]\<rparr>], bd) = (None, os', gs')"
      by simp
    from Cons.IH [OF this rest _ groups_ok_known [OF Cons.prems(4,5) n d Some]] n
    show ?thesis by simp
  qed
qed

lemma groups_partition:
  assumes "groups_ok C key xs n os gs"
  shows "sum_list (map (\<lambda>g. length (kg_indexes g)) gs) = n"
    and "i < length gs \<Longrightarrow> j < length gs \<Longrightarrow> k \<in> set (kg_indexes (gs ! i)) \<Longrightarrow> k \<in> set (kg_indexes (gs ! j)) \<Longrightarrow> i = j"
proof -
  have dist: "distinct (map (\<lambda>g. Digest C (kg_key g)) gs)" and all: "\<forall>g \<in> set gs. group_ok C key xs n g"
    and cover: "\<forall>i < n. \<exists>g \<in> set gs. i \<in> set (kg_indexes g)"
    using assms unfolding groups_ok_def by blast+
  have one: "i = j" if "i < length gs" "j < length gs" "k \<in> set (kg_indexes (gs ! i))" "k \<in> set (kg_indexes (gs ! j))"
    for i j k
  proof -
    have "group_ok C key xs n (gs ! i)" "group_ok C key xs n (gs ! j)" using all that by simp_all
    then have "Digest C (kg_key (gs ! i)) = Digest C (kg_key (gs ! j))"
      using that(3,4) by (auto simp: group_ok_def)
    then show ?thesis using dist that(1,2) by (simp add: distinct_conv_nth) metis
  qed
  then show "i < length gs \<Longrightarrow> j < length gs \<Longrightarrow> k \<in> set (kg_indexes (gs ! i)) \<Longrightarrow> k \<in> set (kg_indexes (gs ! j)) \<Longrightarrow> i = j"
    by blast
  have "set (concat (map kg_indexes gs)) = {0 ..< n}"
  proof
    show "set (concat (map kg_indexes gs)) \<subseteq> {0 ..< n}" using all by (auto simp: group_ok_def)
    show "{0 ..< n} \<subseteq> set (concat (map kg_indexes gs))" using cover by auto
  qed
  moreover have "distinct (concat (map kg_indexes gs))"
  proof (rule distinct_concat)
    show "distinct (map kg_indexes gs)"
    proof (simp add: distinct_conv_nth, intro allI impI)
      fix i j
      assume ij: "i < length gs" "j < length gs" "i \<noteq> j"
      have "group_ok C key xs n (gs ! i)" using all ij by simp
      then have "kg_indexes (gs ! i) \<noteq> []" by (simp add: group_ok_def)
      then obtain k where "k \<in> set (kg_indexes (gs ! i))" by (meson list.set_sel(1))
      then show "kg_indexes (gs ! i) \<noteq> kg_indexes (gs ! j)" using one ij by metis
    qed
    show "distinct ys" if "ys \<in> set (map kg_indexes gs)" for ys
      using that all by (auto simp: group_ok_def)
    show "set ys \<inter> set zs = {}" if "ys \<in> set (map kg_indexes gs)" "zs \<in> set (map kg_indexes gs)" "ys \<noteq> zs" for ys zs
      using that one by (fastforce simp: in_set_conv_nth)
  qed
  ultimately have "length (concat (map kg_indexes gs)) = n"
    by (metis card_atLeastLessThan diff_zero distinct_card)
  then show "sum_list (map (\<lambda>g. length (kg_indexes g)) gs) = n"
    by (simp add: length_concat o_def)
qed

section \<open>What loading computes\<close>

definition ls_frame :: "'r load_state \<Rightarrow> 'r load_state \<Rightarrow> bool" where
  "ls_frame ls ls' \<longleftrightarrow>
     length (ls_results ls') = length (ls_results ls) \<and> length (ls_outcomes ls') = length (ls_outcomes ls) \<and>
     map co_KeyDigest (ls_outcomes ls') = map co_KeyDigest (ls_outcomes ls)"

lemma hit_loop_ok:
  "hit_loop notify v is ls u = (None, ls', u') \<Longrightarrow>
     ls_frame ls ls' \<and> ls_hits ls' = ls_hits ls + length is \<and> ls_misses ls' = ls_misses ls \<and>
     (\<forall>j < length (ls_results ls). ls_results ls' ! j = (if j \<in> set is then Some v else ls_results ls ! j)) \<and>
     (\<forall>j < length (ls_outcomes ls). co_State (ls_outcomes ls' ! j) =
        (if j \<in> set is then CacheHit else co_State (ls_outcomes ls ! j)))"
proof (induction "is" arbitrary: ls u)
  case Nil
  then show ?case by (simp add: ls_frame_def)
next
  case (Cons i "is")
  let ?ls = "ls\<lparr>ls_results := (ls_results ls)[i := Some v],
               ls_outcomes := set_state CacheHit i (ls_outcomes ls), ls_hits := Suc (ls_hits ls)\<rparr>"
  from Cons.prems obtain u1 where "hit_loop notify v is ?ls u1 = (None, ls', u')"
    by (auto simp: Let_def split: option.splits prod.splits)
  from Cons.IH [OF this] show ?case
    by (auto simp: ls_frame_def engine_simps nth_list_update)
qed

definition found :: "(ctx \<Rightarrow> Key \<Rightarrow> 's \<Rightarrow> 'r option result) \<Rightarrow> ctx \<Rightarrow> 's \<Rightarrow> 't keyGroup \<Rightarrow> 'r option" where
  "found load c s g = (case load c (kg_key g) s of Inr (Some v) \<Rightarrow> Some v | _ \<Rightarrow> None)"

lemma load_loop_ok:
  "load_loop load notify c s gs ms0 ls u = (None, ms, ls', u') \<Longrightarrow>
     ms = ms0 @ filter (\<lambda>g. found load c s g = None) gs \<and>
     (\<forall>g \<in> set gs. load c (kg_key g) s = Inr (found load c s g)) \<and> ls_frame ls ls' \<and>
     ls_hits ls' + ls_misses ls' = ls_hits ls + ls_misses ls + sum_list (map (\<lambda>g. length (kg_indexes g)) gs) \<and>
     ls_misses ls' = ls_misses ls
       + sum_list (map (\<lambda>g. length (kg_indexes g)) (filter (\<lambda>g. found load c s g = None) gs)) \<and>
     (length (ls_results ls) = length (ls_outcomes ls) \<longrightarrow> (\<forall>j < length (ls_results ls).
        (\<exists>g \<in> set gs. \<exists>v. found load c s g = Some v \<and> j \<in> set (kg_indexes g) \<and>
           ls_results ls' ! j = Some v \<and> co_State (ls_outcomes ls' ! j) = CacheHit) \<or>
        ((\<forall>g \<in> set gs. j \<in> set (kg_indexes g) \<longrightarrow> found load c s g = None) \<and>
           ls_results ls' ! j = ls_results ls ! j \<and>
           co_State (ls_outcomes ls' ! j) = co_State (ls_outcomes ls ! j))))"
proof (induction gs arbitrary: ms0 ls u)
  case Nil
  then show ?case by (simp add: ls_frame_def)
next
  case (Cons g gs)
  show ?case
  proof (cases "found load c s g")
    case None
    with Cons.prems have l: "load c (kg_key g) s = Inr None"
      and rest: "load_loop load notify c s gs (ms0 @ [g])
        (ls\<lparr>ls_misses := ls_misses ls + length (kg_indexes g)\<rparr>) u = (None, ms, ls', u')"
      by (auto simp: found_def split: sum.splits option.splits prod.splits)
    from Cons.IH [OF rest] None l show ?thesis by (auto simp: ls_frame_def)
  next
    case (Some v)
    with Cons.prems obtain ls1 u1 where l: "load c (kg_key g) s = Inr (Some v)"
      and hit: "hit_loop notify v (kg_indexes g) ls u = (None, ls1, u1)"
      and rest: "load_loop load notify c s gs ms0 ls1 u1 = (None, ms, ls', u')"
      by (auto simp: found_def split: sum.splits option.splits prod.splits)
    note h = hit_loop_ok [OF hit] and r = Cons.IH [OF rest]
    have len: "length (ls_results ls1) = length (ls_results ls)" "length (ls_outcomes ls1) = length (ls_outcomes ls)"
      using h by (auto simp: ls_frame_def)
    have "(\<exists>g' \<in> set (g # gs). \<exists>w. found load c s g' = Some w \<and> j \<in> set (kg_indexes g') \<and>
           ls_results ls' ! j = Some w \<and> co_State (ls_outcomes ls' ! j) = CacheHit) \<or>
        ((\<forall>g' \<in> set (g # gs). j \<in> set (kg_indexes g') \<longrightarrow> found load c s g' = None) \<and>
           ls_results ls' ! j = ls_results ls ! j \<and> co_State (ls_outcomes ls' ! j) = co_State (ls_outcomes ls ! j))"
      if "length (ls_results ls) = length (ls_outcomes ls)" "j < length (ls_results ls)" for j
    proof -
      have "j < length (ls_results ls1)" "length (ls_results ls1) = length (ls_outcomes ls1)" using that len by simp_all
      with r consider g' w where "g' \<in> set gs" "found load c s g' = Some w" "j \<in> set (kg_indexes g')"
          "ls_results ls' ! j = Some w" "co_State (ls_outcomes ls' ! j) = CacheHit"
        | "\<forall>g' \<in> set gs. j \<in> set (kg_indexes g') \<longrightarrow> found load c s g' = None"
          "ls_results ls' ! j = ls_results ls1 ! j" "co_State (ls_outcomes ls' ! j) = co_State (ls_outcomes ls1 ! j)"
        by blast
      then show ?thesis
      proof cases
        case 1
        then show ?thesis by auto
      next
        case 2
        show ?thesis
        proof (cases "j \<in> set (kg_indexes g)")
          case True
          then show ?thesis using 2 h Some that by auto
        next
          case False
          then show ?thesis using 2 h Some that by auto
        qed
      qed
    qed
    moreover have "ls_frame ls ls'" using h r by (auto simp: ls_frame_def)
    ultimately show ?thesis using h r Some l by auto
  qed
qed

lemma fill_one_nth:
  "length (fill_one v is rs) = length rs \<and>
   (\<forall>j < length rs. fill_one v is rs ! j = (if j \<in> set is then Some v else rs ! j))"
  by (induction v "is" rs rule: fill_one.induct) (auto simp: nth_list_update)

definition fills :: "('r \<times> nat list) option list \<Rightarrow> nat \<Rightarrow> 'r \<Rightarrow> bool" where
  "fills cs j v \<longleftrightarrow> (\<exists>is. Some (v, is) \<in> set cs \<and> j \<in> set is)"

lemma fills_simps [engine_simps]:
  "fills [] j v = False" "fills (None # cs) j v = fills cs j v"
  "fills (Some (w, is) # cs) j v = (w = v \<and> j \<in> set is \<or> fills cs j v)"
  by (auto simp: fills_def)

lemma fill_results_length: "length (fill_results cs rs) = length rs"
  using fill_one_nth by (induction cs rs rule: fill_results.induct) fastforce+

lemma fill_results_nth:
  "j < length rs \<Longrightarrow>
     (\<exists>v. fills cs j v \<and> fill_results cs rs ! j = Some v) \<or>
     ((\<forall>v. \<not> fills cs j v) \<and> fill_results cs rs ! j = rs ! j)"
proof (induction cs rs rule: fill_results.induct)
  case (3 v "is" cs rs)
  have one: "length (fill_one v is rs) = length rs"
    "fill_one v is rs ! j = (if j \<in> set is then Some v else rs ! j)"
    using fill_one_nth [of v "is" rs] 3(2) by simp_all
  show ?case
  proof (cases "\<exists>w. fills cs j w \<and> fill_results cs (fill_one v is rs) ! j = Some w")
    case True
    then obtain w where w: "fills cs j w" "fill_results cs (fill_one v is rs) ! j = Some w" by blast
    have "fills (Some (v, is) # cs) j w" using w(1) by (simp only: fills_simps simp_thms)
    then show ?thesis unfolding fill_results.simps using w(2) by blast
  next
    case False
    moreover have "j < length (fill_one v is rs)" using 3(2) one(1) by simp
    ultimately have no: "\<forall>w. \<not> fills cs j w" and eq: "fill_results cs (fill_one v is rs) ! j = fill_one v is rs ! j"
      using 3(1) by blast+
    show ?thesis
    proof (cases "j \<in> set is")
      case True
      then have "fills (Some (v, is) # cs) j v" by (simp only: fills_simps simp_thms)
      moreover have "fill_results (Some (v, is) # cs) rs ! j = Some v" using eq one(2) True by simp
      ultimately show ?thesis by blast
    next
      case False
      then have "\<forall>w. \<not> fills (Some (v, is) # cs) j w" using no by (simp only: fills_simps simp_thms)
      moreover have "fill_results (Some (v, is) # cs) rs ! j = rs ! j" using eq one(2) False by simp
      ultimately show ?thesis by blast
    qed
  qed
qed (simp_all add: engine_simps)

section \<open>What a call computes\<close>

text \<open>The first item with the digest of item \<open>j\<close>: the one whose work or entry it gets.\<close>

definition leader :: "'v codec \<Rightarrow> ('t \<Rightarrow> Key result) \<Rightarrow> 't list \<Rightarrow> nat \<Rightarrow> nat \<Rightarrow> bool" where
  "leader C key xs j i \<longleftrightarrow> i \<le> j \<and> item_digest C key (xs ! i) = item_digest C key (xs ! j) \<and>
     (\<forall>i' < i. item_digest C key (xs ! i') \<noteq> item_digest C key (xs ! j))"

lemma leader_unique: "leader C key xs j i \<Longrightarrow> leader C key xs j i' \<Longrightarrow> i = i'"
  unfolding leader_def by (metis linorder_neqE_nat)

lemma filter_first:
  assumes "filter P [0 ..< n] = i # is"
  shows "P i \<and> (\<forall>k < i. \<not> P k) \<and> (\<forall>j \<in> set (i # is). i \<le> j)"
proof -
  have "sorted (filter P [0 ..< n])" by (intro sorted_wrt_filter) simp
  then have s: "sorted (i # is)" by (simp only: assms)
  have "set (filter P [0 ..< n]) = {j. j < n \<and> P j}" by auto
  then have P: "set (i # is) = {j. j < n \<and> P j}" by (simp only: assms)
  moreover have "\<not> P k" if "k < i" for k
  proof
    assume "P k"
    have "i < n" using P by auto
    then have "k \<in> set (i # is)" using P \<open>P k\<close> that by simp
    then show False using s that by auto
  qed
  ultimately show ?thesis using s by auto
qed

lemma group_leader:
  assumes "group_ok C key xs n g" and "j \<in> set (kg_indexes g)"
  shows "leader C key xs j (hd (kg_indexes g)) \<and> key (xs ! hd (kg_indexes g)) = Inr (kg_key g)
    \<and> kg_item g = xs ! hd (kg_indexes g)"
proof -
  from assms(1) obtain d where g: "key (kg_item g) = Inr (kg_key g)" "kg_item g = xs ! hd (kg_indexes g)"
    and d: "kg_indexes g = filter (\<lambda>j. item_digest C key (xs ! j) = Some d) [0 ..< n]"
    by (auto simp: group_ok_def)
  obtain i "is" where i: "kg_indexes g = i # is" using assms(2) by (cases "kg_indexes g") auto
  from filter_first [OF d [symmetric, unfolded i]] have "item_digest C key (xs ! i) = Some d"
    "\<forall>k < i. item_digest C key (xs ! k) \<noteq> Some d" "i \<le> j"
    using assms(2) i by auto
  moreover have "item_digest C key (xs ! j) = Some d" using assms(2) d by auto
  ultimately show ?thesis using g i by (simp add: leader_def)
qed

text \<open>Nothing is reported as stored before the map runs.\<close>

definition none_stored :: "CacheOutcome list \<Rightarrow> bool" where
  "none_stored os \<longleftrightarrow> (\<forall>oc \<in> set os. co_State oc \<noteq> CacheStored)"

lemma none_stored_update: "none_stored os \<Longrightarrow> co_State oc \<noteq> CacheStored \<Longrightarrow> none_stored (os[i := oc])"
  using set_update_subset_insert [of os i oc] by (auto simp: none_stored_def)

lemma none_stored_hit: "none_stored os \<Longrightarrow> none_stored (set_state CacheHit i os)"
  unfolding set_state_def by (rule none_stored_update) (simp_all add: cache_state_defs)

lemma group_loop_none_stored:
  "group_loop C key n xs (os, gs, bd) = (r, os', gs') \<Longrightarrow> none_stored os \<Longrightarrow> none_stored os'"
proof (induction xs arbitrary: n os gs bd)
  case (Cons x xs)
  have "none_stored (os[n := \<lparr>co_KeyDigest = d, co_State = CachePending\<rparr>])" for d
    using Cons.prems(2) by (rule none_stored_update) (simp add: cache_state_defs)
  then show ?case using Cons.prems(1) Cons.prems(2) Cons.IH
    by (simp add: Let_def split: sum.splits option.splits)
qed simp

lemma hit_loop_none_stored:
  "hit_loop notify v is ls u = (r, ls', u') \<Longrightarrow> none_stored (ls_outcomes ls) \<Longrightarrow> none_stored (ls_outcomes ls')"
proof (induction "is" arbitrary: ls u)
  case (Cons i "is")
  let ?ls = "ls\<lparr>ls_results := (ls_results ls)[i := Some v],
               ls_outcomes := set_state CacheHit i (ls_outcomes ls), ls_hits := Suc (ls_hits ls)\<rparr>"
  have ok: "none_stored (ls_outcomes ?ls)" using none_stored_hit [OF Cons.prems(2), of i] by simp
  obtain e u1 where n: "call_notify notify i v (ls_outcomes ?ls) u = (e, u1)" by fastforce
  show ?case
  proof (cases e)
    case None
    with Cons.prems n have "hit_loop notify v is ?ls u1 = (r, ls', u')" by (simp add: Let_def)
    then show ?thesis using ok by (rule Cons.IH)
  next
    case (Some d)
    with Cons.prems n have "ls' = ?ls" by (simp add: Let_def)
    then show ?thesis using ok by simp
  qed
qed simp

lemma load_loop_none_stored:
  "load_loop load notify c s gs ms ls u = (r, ms', ls', u') \<Longrightarrow> none_stored (ls_outcomes ls) \<Longrightarrow>
     none_stored (ls_outcomes ls')"
proof (induction gs arbitrary: ms ls u)
  case (Cons g gs)
  show ?case
  proof (cases "load c (kg_key g) s")
    case (Inl e)
    then show ?thesis using Cons.prems by auto
  next
    case (Inr o1)
    show ?thesis
    proof (cases o1)
      case None
      with Cons.prems Inr Cons.IH show ?thesis by fastforce
    next
      case (Some v)
      obtain r1 ls1 u1 where h: "hit_loop notify v (kg_indexes g) ls u = (r1, ls1, u1)"
        by (cases "hit_loop notify v (kg_indexes g) ls u")
      have "none_stored (ls_outcomes ls1)" using hit_loop_none_stored [OF h Cons.prems(2)] .
      then show ?thesis using Cons.prems(1) Cons.IH Inr Some h by (cases r1) auto
    qed
  qed
qed simp

text \<open>A call that gets past its checks groups, loads and, when there are misses, maps.\<close>

lemma MapCached_cases:
  assumes "MapCached C eg opts (Some f) cb c items evs s u = Some (r, rep, s', u')"
    and "cmo_Load opts = Some load" and "cmo_Key opts = Some key" and "items \<noteq> []"
  obtains (early) e where "r = Inl e" and "s' = s" and "none_stored (cr_Outcomes rep)"
  | (hits) os gs ls n u1 where "group_loop C key 0 items (replicate (length items) zero_outcome, [], []) = (None, os, gs)"
      and "load_loop load n c s gs []
        \<lparr>ls_results = replicate (length items) None, ls_outcomes = os, ls_hits = 0, ls_misses = 0\<rparr> u = (None, [], ls, u1)"
      and "r = Inr (ls_results ls)" and "s' = s"
      and "rep = mk_report (ls_hits ls) (ls_misses ls) 0 0 (ls_outcomes ls)" and "none_stored (ls_outcomes ls)"
  | (misses) os gs ls n u1 ms where "group_loop C key 0 items (replicate (length items) zero_outcome, [], []) = (None, os, gs)"
      and "load_loop load n c s gs []
        \<lparr>ls_results = replicate (length items) None, ls_outcomes = os, ls_hits = 0, ls_misses = 0\<rparr> u = (None, ms, ls, u1)"
      and "ms \<noteq> []" and "map_misses eg opts f n c ms evs ls s u1 = Some (r, rep, s', u')"
      and "none_stored (ls_outcomes ls)"
proof -
  let ?os0 = "replicate (length items) zero_outcome"
  have z: "none_stored ?os0" by (simp add: none_stored_def zero_outcome_def cache_state_defs)
  show ?thesis
  proof (cases "bad_callbacks cb")
    case True
    then show ?thesis using assms z early by (auto simp: MapCached_def mk_report_def Let_def)
  next
    case False
    define n where "n = (case cb of [] \<Rightarrow> None | n # _ \<Rightarrow> n)"
    obtain e os gs where g: "group_loop C key 0 items (?os0, [], []) = (e, os, gs)"
      by (cases "group_loop C key 0 items (?os0, [], [])")
    have os: "none_stored os" using group_loop_none_stored [OF g z] .
    show ?thesis
    proof (cases e)
      case (Some d)
      then show ?thesis using assms False g os early by (auto simp: MapCached_def mk_report_def Let_def)
    next
      case None
      let ?ls0 = "\<lparr>ls_results = replicate (length items) None, ls_outcomes = os, ls_hits = 0, ls_misses = 0\<rparr>"
      obtain e2 ms ls u1 where l: "load_loop load n c s gs [] ?ls0 u = (e2, ms, ls, u1)"
        by (cases "load_loop load n c s gs [] ?ls0 u")
      have ls: "none_stored (ls_outcomes ls)" using load_loop_none_stored [OF l] os by simp
      note unfold = assms(1) [unfolded MapCached_def Let_def assms(2,3) option.case, folded n_def]
      show ?thesis
      proof (cases e2)
        case (Some d)
        have "r = Inl d \<and> s' = s \<and> rep = mk_report (ls_hits ls) (ls_misses ls) 0 0 (ls_outcomes ls)"
          using unfold assms(4) False g None l Some by simp
        then show ?thesis using ls early by (simp add: mk_report_def)
      next
        case e2: None
        show ?thesis
        proof (cases "ms = []")
          case True
          have "r = Inr (ls_results ls) \<and> s' = s \<and> rep = mk_report (ls_hits ls) (ls_misses ls) 0 0 (ls_outcomes ls)"
            using unfold assms(4) False g None l e2 True by simp
          then show ?thesis using hits [OF g [unfolded None] l [unfolded e2 True]] ls by blast
        next
          case False
          have "map_misses eg opts f n c ms evs ls s u1 = Some (r, rep, s', u')"
            using unfold assms(4) \<open>\<not> bad_callbacks cb\<close> g None l e2 False by simp
          then show ?thesis using misses [OF g [unfolded None] l [unfolded e2] False] ls by blast
        qed
      qed
    qed
  qed
qed

section \<open>The result of a call\<close>

text \<open>What the report says of item \<open>j\<close> is so: its leader's entry was found under the key, or
  the work on the leader gave the value and it can be loaded now.\<close>

definition item_hit :: "'v codec \<Rightarrow> (ctx \<Rightarrow> Key \<Rightarrow> 's \<Rightarrow> 'r option result) \<Rightarrow> ('t \<Rightarrow> Key result) \<Rightarrow> ctx \<Rightarrow>
    't list \<Rightarrow> 's \<Rightarrow> nat \<Rightarrow> 'r \<Rightarrow> bool" where
  "item_hit C load key c xs s j v \<longleftrightarrow>
     (\<exists>i k. leader C key xs j i \<and> key (xs ! i) = Inr k \<and> load c k s = Inr (Some v))"

definition item_stored :: "'v codec \<Rightarrow> (ctx \<Rightarrow> Key \<Rightarrow> 's \<Rightarrow> 'r option result) \<Rightarrow> ('t \<Rightarrow> Key result) \<Rightarrow>
    ('t, 'r, 'u) work \<Rightarrow> 't list \<Rightarrow> 's \<Rightarrow> nat \<Rightarrow> 'r \<Rightarrow> bool" where
  "item_stored C load key f xs s j v \<longleftrightarrow>
     (\<exists>i k. leader C key xs j i \<and> key (xs ! i) = Inr k \<and> load None k s = Inr (Some v) \<and> worked f (xs ! i) v)"

definition good_results :: "(Key \<Rightarrow> 'r \<Rightarrow> bool) \<Rightarrow> ('t \<Rightarrow> Key result) \<Rightarrow> ('t, 'r, 'u) work \<Rightarrow> 't list \<Rightarrow> bool" where
  "good_results good key f xs \<longleftrightarrow>
     (\<forall>x \<in> set xs. \<forall>k v. key x = Inr k \<longrightarrow> worked f x v \<longrightarrow> good k v)"

text \<open>The groups that missed, as the closure gets them.\<close>

definition misses_ok :: "'v codec \<Rightarrow> ('t \<Rightarrow> Key result) \<Rightarrow> 't list \<Rightarrow> 't keyGroup list \<Rightarrow> bool" where
  "misses_ok C key xs ms \<longleftrightarrow>
     (\<forall>g \<in> set ms. group_ok C key xs (length xs) g) \<and> distinct (map (\<lambda>g. Digest C (kg_key g)) ms)"

lemma misses_ok_filter: "groups_ok C key xs (length xs) os gs \<Longrightarrow> misses_ok C key xs (filter P gs)"
  by (auto simp: groups_ok_def misses_ok_def distinct_map_filter)

lemma group_item:
  assumes "group_ok C key xs n g"
  shows "\<exists>i < n. kg_item g = xs ! i \<and> key (xs ! i) = Inr (kg_key g)"
proof -
  have "hd (kg_indexes g) \<in> set (kg_indexes g)" using assms by (simp add: group_ok_def)
  moreover have "set (kg_indexes g) \<subseteq> {0 ..< n}" using assms by (auto simp: group_ok_def)
  ultimately have "hd (kg_indexes g) < n" by auto
  moreover have "kg_item g = xs ! hd (kg_indexes g)" "key (kg_item g) = Inr (kg_key g)"
    using assms unfolding group_ok_def by blast+
  ultimately show ?thesis by metis
qed

text \<open>The keys that the work is called for: the first item of each digest that is not found.\<close>

definition missing :: "'v codec \<Rightarrow> (ctx \<Rightarrow> Key \<Rightarrow> 's \<Rightarrow> 'r option result) \<Rightarrow> ('t \<Rightarrow> Key result) \<Rightarrow> ctx \<Rightarrow>
    't list \<Rightarrow> 's \<Rightarrow> nat set" where
  "missing C load key c xs s =
     {i. i < length xs \<and> leader C key xs i i \<and> (\<exists>k. key (xs ! i) = Inr k \<and> load c k s = Inr None)}"

lemma group_head:
  assumes "group_ok C key xs n g"
  shows "hd (kg_indexes g) < n \<and> key (xs ! hd (kg_indexes g)) = Inr (kg_key g) \<and>
    leader C key xs (hd (kg_indexes g)) (hd (kg_indexes g))"
proof -
  have "hd (kg_indexes g) \<in> set (kg_indexes g)" using assms by (simp add: group_ok_def)
  moreover have "set (kg_indexes g) \<subseteq> {0 ..< n}" using assms by (auto simp: group_ok_def)
  ultimately show ?thesis using group_leader [OF assms] by auto
qed

lemma missing_card:
  assumes gs: "groups_ok C key xs (length xs) os gs"
    and loads: "\<forall>g \<in> set gs. load c (kg_key g) s = Inr (found load c s g)"
  shows "length (filter (\<lambda>g. found load c s g = None) gs) = card (missing C load key c xs s)"
proof -
  let ?ms = "filter (\<lambda>g. found load c s g = None) gs" and ?h = "\<lambda>g. hd (kg_indexes g)"
  have dist: "distinct (map (\<lambda>g. Digest C (kg_key g)) gs)" and all: "\<forall>g \<in> set gs. group_ok C key xs (length xs) g"
    and cover: "\<forall>i < length xs. \<exists>g \<in> set gs. i \<in> set (kg_indexes g)"
    using gs unfolding groups_ok_def by blast+
  have key: "key (xs ! ?h g) = Inr (kg_key g)" if "g \<in> set gs" for g using group_head all that by blast
  have "inj_on ?h (set ?ms)"
  proof (rule inj_onI)
    fix g g' assume g: "g \<in> set ?ms" "g' \<in> set ?ms" and eq: "?h g = ?h g'"
    then have "kg_key g = kg_key g'" using key(1) by (metis filter_is_subset subsetD sum.inject(2))
    then show "g = g'" using dist g by (auto simp: distinct_map inj_on_def)
  qed
  then have "card (?h ` set ?ms) = length ?ms"
    using dist distinct_card [of ?ms] card_image [of ?h "set ?ms"] by (simp add: distinct_map del: set_filter)
  moreover have "?h ` set ?ms = missing C load key c xs s"
  proof
    show "?h ` set ?ms \<subseteq> missing C load key c xs s"
      using group_head all loads by (fastforce simp: missing_def)
    show "missing C load key c xs s \<subseteq> ?h ` set ?ms"
    proof
      fix i assume i: "i \<in> missing C load key c xs s"
      then obtain k where k: "i < length xs" "leader C key xs i i" "key (xs ! i) = Inr k" "load c k s = Inr None"
        by (auto simp: missing_def)
      then obtain g where g: "g \<in> set gs" "i \<in> set (kg_indexes g)" using cover by blast
      then have "leader C key xs i (?h g)" using group_leader all by blast
      then have h: "?h g = i" using k(2) leader_unique by blast
      then have "kg_key g = k" using key(1) [OF g(1)] k(3) by simp
      then have "found load c s g = None" using k(4) by (simp add: found_def)
      then show "i \<in> ?h ` set ?ms" using g(1) h by force
    qed
  qed
  ultimately show ?thesis by simp
qed

text \<open>What the loops and the map give together: \<open>Q g v\<close> is what the map guarantees of a value
  \<open>v\<close> it gave for a group \<open>g\<close> that missed.\<close>

lemma call_result:
  fixes Q :: "'t keyGroup \<Rightarrow> 'r \<Rightarrow> bool"
  assumes g: "group_loop C key 0 xs (replicate (length xs) zero_outcome, [], []) = (None, os, gs)"
    and l: "load_loop load n c s gs []
        \<lparr>ls_results = replicate (length xs) None, ls_outcomes = os, ls_hits = 0, ls_misses = 0\<rparr> u = (None, ms, ls, u1)"
    and r: "cr_Hits rep = ls_hits ls \<and> cr_Misses rep = ls_misses ls \<and>
      length (cr_Outcomes rep) = length (ls_outcomes ls) \<and>
      map co_KeyDigest (cr_Outcomes rep) = map co_KeyDigest (ls_outcomes ls) \<and> length rs = length (ls_results ls)"
    and per: "\<And>j. j < length xs \<Longrightarrow>
       (if \<exists>g \<in> set ms. j \<in> set (kg_indexes g)
        then co_State (cr_Outcomes rep ! j) = CacheStored \<and>
          (\<exists>v. \<exists>g \<in> set ms. j \<in> set (kg_indexes g) \<and> rs ! j = Some v \<and> Q g v)
        else co_State (cr_Outcomes rep ! j) = co_State (ls_outcomes ls ! j)) \<and>
       ((\<exists>g \<in> set ms. j \<in> set (kg_indexes g)) \<or> rs ! j = ls_results ls ! j)"
  shows "length rs = length xs \<and> length (cr_Outcomes rep) = length xs \<and>
    cr_Hits rep + cr_Misses rep = length xs \<and> length ms = card (missing C load key c xs s) \<and>
    (\<forall>j < length xs. \<exists>v. rs ! j = Some v \<and>
       item_digest C key (xs ! j) = Some (co_KeyDigest (cr_Outcomes rep ! j)) \<and>
       (co_State (cr_Outcomes rep ! j) = CacheHit \<and> item_hit C load key c xs s j v \<or>
        co_State (cr_Outcomes rep ! j) = CacheStored \<and>
          (\<exists>g \<in> set ms. j \<in> set (kg_indexes g) \<and> Q g v) \<and>
          (\<exists>i \<in> missing C load key c xs s. leader C key xs j i)))"
proof -
  have gs: "groups_ok C key xs (length xs) os gs"
    by (rule group_loop_ok [OF g, of xs]) (simp_all add: groups_ok_def index_ok_def)
  have os: "length os = length xs" and cover: "\<forall>j < length xs. \<exists>g \<in> set gs. j \<in> set (kg_indexes g)"
    and all: "\<forall>g \<in> set gs. group_ok C key xs (length xs) g"
    and outs: "\<forall>j < length xs. \<exists>d. item_digest C key (xs ! j) = Some d \<and> os ! j = \<lparr>co_KeyDigest = d, co_State = CachePending\<rparr>"
    using gs unfolding groups_ok_def by blast+
  note L = load_loop_ok [OF l, simplified]
  have ms: "ms = filter (\<lambda>g. found load c s g = None) gs" using L by blast
  have loads: "\<forall>g \<in> set gs. load c (kg_key g) s = Inr (found load c s g)" using L by blast
  have counts: "ls_hits ls + ls_misses ls = length xs" using L groups_partition(1) [OF gs] by simp
  have frame: "length (ls_results ls) = length xs" "length (ls_outcomes ls) = length xs"
    "map co_KeyDigest (ls_outcomes ls) = map co_KeyDigest os"
    using L os by (simp_all add: ls_frame_def)
  have dig: "item_digest C key (xs ! j) = Some (co_KeyDigest (cr_Outcomes rep ! j))" if j: "j < length xs" for j
  proof -
    have eq: "map co_KeyDigest (cr_Outcomes rep) = map co_KeyDigest os" using r frame(3) by presburger
    have len: "j < length (cr_Outcomes rep)" "j < length os" using r frame(2) os j by simp_all
    have "co_KeyDigest (cr_Outcomes rep ! j) = co_KeyDigest (os ! j)"
      using arg_cong [OF eq, of "\<lambda>ds. ds ! j"] by (simp only: nth_map len)
    then show ?thesis using outs j by force
  qed
  have "\<exists>v. rs ! j = Some v \<and>
     (co_State (cr_Outcomes rep ! j) = CacheHit \<and> item_hit C load key c xs s j v \<or>
      co_State (cr_Outcomes rep ! j) = CacheStored \<and> (\<exists>g \<in> set ms. j \<in> set (kg_indexes g) \<and> Q g v) \<and>
        (\<exists>i \<in> missing C load key c xs s. leader C key xs j i))" if j: "j < length xs" for j
  proof (cases "\<exists>g \<in> set ms. j \<in> set (kg_indexes g)")
    case True
    with per [OF j] obtain v g where g: "g \<in> set ms" "j \<in> set (kg_indexes g)" "rs ! j = Some v"
      "Q g v" "co_State (cr_Outcomes rep ! j) = CacheStored" by auto
    have "hd (kg_indexes g) \<in> missing C load key c xs s" "leader C key xs j (hd (kg_indexes g))"
      using g(1,2) ms group_head [of C key xs "length xs" g] group_leader [of C key xs "length xs" g j] all loads
      unfolding missing_def by force+
    then show ?thesis using g by blast
  next
    case False
    obtain g where g: "g \<in> set gs" "j \<in> set (kg_indexes g)" using cover j by blast
    then have "found load c s g \<noteq> None" using False ms by auto
    then obtain g' v where g': "g' \<in> set gs" "found load c s g' = Some v" "j \<in> set (kg_indexes g')"
      "ls_results ls ! j = Some v" "co_State (ls_outcomes ls ! j) = CacheHit"
      using L os j g by fastforce
    have "item_hit C load key c xs s j v"
      using group_leader [OF _ g'(3)] all g'(1,2) loads unfolding item_hit_def by metis
    then show ?thesis using per [OF j] False g' by auto
  qed
  then show ?thesis using r frame counts dig missing_card [OF gs loads] ms by simp
qed

context cache_store
begin

lemma misses_client:
  fixes f :: "('t, 'v, 'u) work"
  assumes same_is: "\<And>k k'. same k k' = same_digest C k k'"
    and ms: "misses_ok C key xs ms"
    and goods: "good_results good key f xs"
  shows "map_client (miss_options mo) (miss_work store f notify) ms
     (\<lambda>cs S. fst ` set cs \<subseteq> {..< length ms} \<and> miss_inv load (\<lambda>s. ok s \<and> healthy s) f ms os0 cs S)"
proof (rule miss_client)
  fix i j
  assume "i < length ms" "j < length ms" "i \<noteq> j"
  then have "Digest C (kg_key (ms ! i)) \<noteq> Digest C (kg_key (ms ! j))"
    using ms by (auto simp: misses_ok_def distinct_conv_nth)
  then show "\<not> same (kg_key (ms ! i)) (kg_key (ms ! j))" by (auto simp: same_is same_digest_def)
next
  fix i v
  assume i: "i < length ms" and w: "worked f (kg_item (ms ! i)) v"
  have "group_ok C key xs (length xs) (ms ! i)" using ms i by (simp add: misses_ok_def)
  from group_item [OF this] obtain k where "k < length xs" "kg_item (ms ! i) = xs ! k"
    "key (xs ! k) = Inr (kg_key (ms ! i))" by blast
  then show "good (kg_key (ms ! i)) v" using goods w unfolding good_results_def by (metis nth_mem)
qed

lemma published_item:
  assumes "misses_ok C key xs ms" and "i < length ms" and "j \<in> set (kg_indexes (ms ! i))"
    and "published load f (ms ! i) s v"
  shows "item_stored C load key f xs s j v"
proof -
  have "group_ok C key xs (length xs) (ms ! i)" using assms(1,2) by (simp add: misses_ok_def)
  from group_leader [OF this assms(3)] assms(4) show ?thesis
    unfolding item_stored_def published_def by metis
qed

text \<open>Whatever comes of the map, what it reports as stored can be loaded.\<close>

lemma map_misses_reported:
  fixes f :: "('t, 'v, 'u) work"
  assumes same_is: "\<And>k k'. same k k' = same_digest C k k'" and eg: "errgroup_spec eg"
    and opts: "cmo_Store opts = store"
    and ms: "misses_ok C key xs ms"
    and goods: "good_results good key f xs"
    and sound: "ok s" "healthy s"
    and run: "map_misses eg opts f n c ms evs ls s u = Some (r, rep, s', u')"
    and none: "none_stored (ls_outcomes ls)"
  shows "ok s' \<and> healthy s' \<and> (\<forall>j < length (cr_Outcomes rep). co_State (cr_Outcomes rep ! j) = CacheStored \<longrightarrow>
      (\<exists>v. item_stored C load key f xs s' j v))"
proof -
  let ?S0 = "\<lparr>cm_cache = s, cm_outcomes = ls_outcomes ls, cm_writes = 0, cm_workCalls = 0, cm_user = u\<rparr>"
  let ?P = "\<lambda>cs S. fst ` set cs \<subseteq> {..< length ms} \<and> miss_inv load (\<lambda>s. ok s \<and> healthy s) f ms (ls_outcomes ls) cs S"
  have client: "map_client (miss_options (cmo_Map opts)) (miss_work store f n) ms ?P"
    by (rule misses_client [OF same_is ms goods])
  from run obtain r1 S where map: "bounded_Map eg (miss_options (cmo_Map opts)) (Some (miss_work store f n)) c ms evs ?S0 = Some (r1, S)"
    and out: "s' = cm_cache S" "cr_Outcomes rep = cm_outcomes S"
    by (auto simp: map_misses_def opts mk_report_def Let_def split: option.splits)
  have start: "?P [] ?S0" using sound by (simp add: miss_inv_def)
  have "\<exists>cs. ?P cs S"
  proof (cases r1)
    case (Inl e)
    from map_client.map_failure [OF client start map [unfolded Inl]] show ?thesis by blast
  next
    case (Inr rs)
    from map_client.map_success [OF client eg start map [unfolded Inr]] show ?thesis by blast
  qed
  then obtain cs where P: "?P cs S" ..
  have "\<exists>v. item_stored C load key f xs s' j v"
    if j: "j < length (cm_outcomes S)" and st: "co_State (cm_outcomes S ! j) = CacheStored" for j
  proof -
    have jl: "j < length (ls_outcomes ls)" using P j by (simp add: miss_inv_def)
    then have "co_State (ls_outcomes ls ! j) \<noteq> CacheStored" using none by (simp add: none_stored_def)
    then obtain i v where "i \<in> fst ` set cs" "j \<in> set (kg_indexes (ms ! i))" "published load f (ms ! i) (cm_cache S) v"
      using P jl st unfolding miss_inv_def by metis
    moreover from this have "i < length ms" using P by auto
    ultimately show ?thesis using published_item [OF ms] out(1) by metis
  qed
  then show ?thesis using P by (simp add: out miss_inv_def)
qed

lemma MapCached_reported:
  fixes f :: "('t, 'v, 'u) work"
  assumes same_is: "\<And>k k'. same k k' = same_digest C k k'" and eg: "errgroup_spec eg"
    and opts: "cmo_Store opts = store" "cmo_Load opts = Some load" "cmo_Key opts = Some key"
    and goods: "good_results good key f xs"
    and sound: "ok s" "healthy s"
    and run: "MapCached C eg opts (Some f) cb c xs evs s u = Some (r, rep, s', u')"
  shows "ok s' \<and> healthy s' \<and> (\<forall>j < length (cr_Outcomes rep). co_State (cr_Outcomes rep ! j) = CacheStored \<longrightarrow>
      (\<exists>v. item_stored C load key f xs s' j v))"
proof (cases "xs = []")
  case True
  then have "cr_Outcomes rep = [] \<and> s' = s"
    using run by (auto simp: MapCached_def mk_report_def opts Let_def split: if_splits)
  then show ?thesis using sound by simp
next
  case False
  show ?thesis
  proof (cases rule: MapCached_cases [OF run opts(2,3) False])
    case (1 e)
    then show ?thesis using sound by (simp add: none_stored_def)
  next
    case (2 os gs ls n u1)
    then show ?thesis using sound by (simp add: none_stored_def mk_report_def)
  next
    case (3 os gs ls n u1 ms)
    have gs: "groups_ok C key xs (length xs) os gs"
      by (rule group_loop_ok [OF 3(1), of xs]) (simp_all add: groups_ok_def index_ok_def)
    have "misses_ok C key xs ms" using load_loop_ok [OF 3(2)] misses_ok_filter [OF gs] by simp
    from map_misses_reported [OF same_is eg opts(1) this goods sound 3(4,5)] show ?thesis by blast
  qed
qed

text \<open>A call without an error: where each result comes from, and what the report counts.\<close>

lemma map_misses_result:
  fixes f :: "('t, 'v, 'u) work"
  assumes same_is: "\<And>k k'. same k k' = same_digest C k k'" and eg: "errgroup_spec eg"
    and opts: "cmo_Store opts = store"
    and ms: "misses_ok C key xs ms"
    and goods: "good_results good key f xs"
    and sound: "ok s" "healthy s"
    and run: "map_misses eg opts f n c ms evs ls s u = Some (Inr rs, rep, s', u')"
  shows "cr_Hits rep = ls_hits ls \<and> cr_Misses rep = ls_misses ls \<and> cr_Writes rep = length ms \<and>
    cr_WorkCalls rep = length ms \<and> length (cr_Outcomes rep) = length (ls_outcomes ls) \<and>
    map co_KeyDigest (cr_Outcomes rep) = map co_KeyDigest (ls_outcomes ls) \<and>
    length rs = length (ls_results ls) \<and>
    (\<forall>j < length (ls_results ls). j < length (ls_outcomes ls) \<longrightarrow>
       (if \<exists>g \<in> set ms. j \<in> set (kg_indexes g)
        then co_State (cr_Outcomes rep ! j) = CacheStored \<and>
          (\<exists>v. \<exists>g \<in> set ms. j \<in> set (kg_indexes g) \<and> rs ! j = Some v \<and> published load f g s' v)
        else co_State (cr_Outcomes rep ! j) = co_State (ls_outcomes ls ! j)) \<and>
       ((\<exists>g \<in> set ms. j \<in> set (kg_indexes g)) \<or> rs ! j = ls_results ls ! j))"
proof -
  let ?S0 = "\<lparr>cm_cache = s, cm_outcomes = ls_outcomes ls, cm_writes = 0, cm_workCalls = 0, cm_user = u\<rparr>"
  let ?P = "\<lambda>cs S. fst ` set cs \<subseteq> {..< length ms} \<and> miss_inv load (\<lambda>s. ok s \<and> healthy s) f ms (ls_outcomes ls) cs S"
  have client: "map_client (miss_options (cmo_Map opts)) (miss_work store f n) ms ?P"
    by (rule misses_client [OF same_is ms goods])
  from run obtain completed S where map: "bounded_Map eg (miss_options (cmo_Map opts)) (Some (miss_work store f n)) c ms evs ?S0 = Some (Inr completed, S)"
    and out: "s' = cm_cache S" "rep = mk_report (ls_hits ls) (ls_misses ls) (cm_writes S) (cm_workCalls S) (cm_outcomes S)"
    and rs: "rs = fill_results completed (ls_results ls)"
    by (auto simp: map_misses_def opts Let_def split: option.splits sum.splits)
  have start: "?P [] ?S0" using sound by (simp add: miss_inv_def)
  from map_client.map_success [OF client eg start map] obtain cs where P: "?P cs S"
    and len: "length completed = length ms" and all: "mset (map fst cs) = mset [0 ..< length ms]"
    and good: "\<forall>c \<in> set cs. \<not> isl (snd c)" "outs_ok completed cs" by blast
  have n: "length cs = length ms" using all by (metis length_map length_upt diff_zero mset_eq_length)
  have slot: "\<exists>v. completed ! i = Some (v, kg_indexes (ms ! i)) \<and> published load f (ms ! i) s' v \<and>
      (\<forall>j \<in> set (kg_indexes (ms ! i)). j < length (ls_outcomes ls) \<longrightarrow> co_State (cm_outcomes S ! j) = CacheStored)"
    if "i < length ms" for i
  proof -
    from outs_filled [OF good(2,1) len all that] obtain r where "completed ! i = Some r" "(i, Inr r) \<in> set cs" by blast
    moreover obtain v "is" where "r = (v, is)" by (cases r)
    ultimately show ?thesis using P out(1) unfolding miss_inv_def by metis
  qed
  have fills: "fills completed j v \<longleftrightarrow> (\<exists>i < length ms. j \<in> set (kg_indexes (ms ! i)) \<and> completed ! i = Some (v, kg_indexes (ms ! i)))" for j v
  proof
    assume "fills completed j v"
    then obtain "is" i where i: "i < length ms" "completed ! i = Some (v, is)" "j \<in> set is"
      unfolding fills_def in_set_conv_nth len by blast
    moreover from slot [OF i(1)] i(2) have "is = kg_indexes (ms ! i)" by auto
    ultimately show "\<exists>i < length ms. j \<in> set (kg_indexes (ms ! i)) \<and> completed ! i = Some (v, kg_indexes (ms ! i))"
      by blast
  next
    assume "\<exists>i < length ms. j \<in> set (kg_indexes (ms ! i)) \<and> completed ! i = Some (v, kg_indexes (ms ! i))"
    then show "fills completed j v" unfolding fills_def using len by (metis nth_mem)
  qed
  have per: "(if \<exists>g \<in> set ms. j \<in> set (kg_indexes g)
        then co_State (cm_outcomes S ! j) = CacheStored \<and>
          (\<exists>v. \<exists>g \<in> set ms. j \<in> set (kg_indexes g) \<and> rs ! j = Some v \<and> published load f g s' v)
        else co_State (cm_outcomes S ! j) = co_State (ls_outcomes ls ! j)) \<and>
       ((\<exists>g \<in> set ms. j \<in> set (kg_indexes g)) \<or> rs ! j = ls_results ls ! j)"
    if j: "j < length (ls_results ls)" "j < length (ls_outcomes ls)" for j
  proof (cases "\<exists>g \<in> set ms. j \<in> set (kg_indexes g)")
    case True
    then obtain i where i: "i < length ms" "j \<in> set (kg_indexes (ms ! i))" by (metis in_set_conv_nth)
    from slot [OF i(1)] obtain v where "fills completed j v" and st: "co_State (cm_outcomes S ! j) = CacheStored"
      using i j(2) fills by blast
    with fill_results_nth [OF j(1), of completed] obtain w where "fills completed j w" "rs ! j = Some w"
      unfolding rs by blast
    then obtain i' where "i' < length ms" "j \<in> set (kg_indexes (ms ! i'))" "completed ! i' = Some (w, kg_indexes (ms ! i'))"
      using fills by blast
    moreover from this slot have "published load f (ms ! i') s' w" by fastforce
    ultimately show ?thesis using True st \<open>rs ! j = Some w\<close> by (metis nth_mem)
  next
    case False
    then have "\<not> fills completed j v" for v using fills by (metis nth_mem)
    then have "rs ! j = ls_results ls ! j" using fill_results_nth [OF j(1), of completed] rs by blast
    moreover have "co_State (cm_outcomes S ! j) = co_State (ls_outcomes ls ! j)"
    proof (rule ccontr)
      assume "co_State (cm_outcomes S ! j) \<noteq> co_State (ls_outcomes ls ! j)"
      then obtain i where "i \<in> fst ` set cs" "j \<in> set (kg_indexes (ms ! i))"
        using P j(2) unfolding miss_inv_def by blast
      moreover from this(1) have "i < length ms" using P by auto
      ultimately show False using False by (metis nth_mem)
    qed
    ultimately show ?thesis using False by simp
  qed
  have "length rs = length (ls_results ls)" by (simp add: rs fill_results_length)
  then show ?thesis using per P n good(1) by (simp add: out(2) mk_report_def miss_inv_def)
qed

lemma MapCached_result:
  fixes f :: "('t, 'v, 'u) work"
  assumes same_is: "\<And>k k'. same k k' = same_digest C k k'" and eg: "errgroup_spec eg"
    and opts: "cmo_Store opts = store" "cmo_Load opts = Some load" "cmo_Key opts = Some key"
    and goods: "good_results good key f xs"
    and sound: "ok s" "healthy s"
    and run: "MapCached C eg opts (Some f) cb c xs evs s u = Some (Inr rs, rep, s', u')"
  shows "length rs = length xs \<and> length (cr_Outcomes rep) = length xs \<and>
    cr_Hits rep + cr_Misses rep = length xs \<and>
    cr_WorkCalls rep = card (missing C load key c xs s) \<and> cr_Writes rep = cr_WorkCalls rep \<and>
    (\<forall>j < length xs. \<exists>v. rs ! j = Some v \<and>
       item_digest C key (xs ! j) = Some (co_KeyDigest (cr_Outcomes rep ! j)) \<and>
       (co_State (cr_Outcomes rep ! j) = CacheHit \<and> item_hit C load key c xs s j v \<or>
        co_State (cr_Outcomes rep ! j) = CacheStored \<and> item_stored C load key f xs s' j v \<and>
          (\<exists>i \<in> missing C load key c xs s. leader C key xs j i)))"
proof (cases "xs = []")
  case True
  then have "rs = [] \<and> rep = mk_report 0 0 0 0 []"
    using run by (auto simp: MapCached_def opts Let_def split: if_splits)
  then show ?thesis using True by (simp add: mk_report_def missing_def)
next
  case False
  show ?thesis
  proof (cases rule: MapCached_cases [OF run opts(2,3) False])
    case (1 e)
    then show ?thesis by simp
  next
    case (2 os gs ls n u1)
    have "cr_WorkCalls rep = 0" "cr_Writes rep = 0" using 2(5) by (simp_all add: mk_report_def)
    moreover note call_result [OF 2(1,2), of rep rs "\<lambda>_ _. False"]
    ultimately show ?thesis using 2 by (simp add: mk_report_def) blast
  next
    case (3 os gs ls n u1 ms)
    have gs: "groups_ok C key xs (length xs) os gs"
      by (rule group_loop_ok [OF 3(1), of xs]) (simp_all add: groups_ok_def index_ok_def)
    have ok: "misses_ok C key xs ms" using load_loop_ok [OF 3(2)] misses_ok_filter [OF gs] by simp
    note res = map_misses_result [OF same_is eg opts(1) ok goods sound 3(4)]
    have len: "length (ls_results ls) = length xs" "length (ls_outcomes ls) = length xs"
      using load_loop_ok [OF 3(2)] gs by (simp_all add: ls_frame_def groups_ok_def)
    have stored: "item_stored C load key f xs s' j v"
      if "g \<in> set ms" "j \<in> set (kg_indexes g)" "published load f g s' v" for g j v
      using published_item [OF ok] that by (metis in_set_conv_nth)
    have "length rs = length xs \<and> length (cr_Outcomes rep) = length xs \<and>
      cr_Hits rep + cr_Misses rep = length xs \<and> length ms = card (missing C load key c xs s) \<and>
      (\<forall>j < length xs. \<exists>v. rs ! j = Some v \<and>
         item_digest C key (xs ! j) = Some (co_KeyDigest (cr_Outcomes rep ! j)) \<and>
         (co_State (cr_Outcomes rep ! j) = CacheHit \<and> item_hit C load key c xs s j v \<or>
          co_State (cr_Outcomes rep ! j) = CacheStored \<and>
            (\<exists>g \<in> set ms. j \<in> set (kg_indexes g) \<and> published load f g s' v) \<and>
            (\<exists>i \<in> missing C load key c xs s. leader C key xs j i)))"
      by (rule call_result [OF 3(1,2)]) (use res len in auto)
    with res stored show ?thesis by (metis (no_types, lifting))
  qed
qed

end

section \<open>Properties\<close>

text \<open>The options of a call on a file cache, and what is asked of the disk, of the group and of
  the results' JSON form.\<close>

definition on_file_cache :: "'v codec \<Rightarrow> FileCache \<Rightarrow> ('t \<Rightarrow> Key result) \<Rightarrow> ('t, 'v, disk, 'u) cached_options \<Rightarrow> bool" where
  "on_file_cache C fc key opts \<longleftrightarrow> cmo_Store opts = FileCache_Store C (Some fc) \<and>
     cmo_Load opts = Some (FileCache_Load C (Some fc) False) \<and> cmo_Key opts = Some key"

text \<open>C28. A call of \<open>MapCached\<close> on a file cache that returns without an error, under every
  interleaving: it returns one result per input, at the input's index. Each was loaded from
  the entry of the input's key, or the work function gave it for the first input with that
  key's digest and it is now in the cache; the report says which. Hits and misses add up to
  the inputs, and the work is called exactly once for every digest that was not found.\<close>

theorem mapcached_aligned:
  fixes f :: "('t, 'v, 'u) work"
  assumes "errgroup_spec eg" and "on_file_cache C fc key opts" and "good_results (json_law C) key f xs"
    and "disk_ok C d" and "disk_healthy fc d"
    and "MapCached C eg opts (Some f) cb c xs evs d u = Some (Inr rs, rep, d', u')"
  shows "length rs = length xs \<and> length (cr_Outcomes rep) = length xs \<and>
    cr_Hits rep + cr_Misses rep = length xs \<and>
    cr_WorkCalls rep = card (missing C (FileCache_Load C (Some fc) False) key c xs d) \<and>
    cr_Writes rep = cr_WorkCalls rep \<and>
    (\<forall>j < length xs. \<exists>v. rs ! j = Some v \<and>
       item_digest C key (xs ! j) = Some (co_KeyDigest (cr_Outcomes rep ! j)) \<and>
       (co_State (cr_Outcomes rep ! j) = CacheHit \<and>
          item_hit C (FileCache_Load C (Some fc) False) key c xs d j v \<or>
        co_State (cr_Outcomes rep ! j) = CacheStored \<and>
          item_stored C (FileCache_Load C (Some fc) False) key f xs d' j v))"
  using file_cache.MapCached_result [OF refl assms(1) _ _ _ assms(3-6)] assms(2)
  unfolding on_file_cache_def by blast

definition demo_cached :: "(string, string, disk, nat) cached_options" where
  "demo_cached = \<lparr>cmo_Map = \<lparr>mo_workers = 2, mo_limiter = None, mo_cost = None\<rparr>,
     cmo_Load = Some (FileCache_Load sealed_codec (Some demo_cache) False),
     cmo_Store = FileCache_Store sealed_codec (Some demo_cache), cmo_Key = Some (\<lambda>x. Inr demo_key)\<rparr>"

definition echo_work :: "(string, string, nat) work" where
  "echo_work c x n = (Inr x, Suc n)"

text \<open>A callback that fails on the second item.\<close>

definition picky :: "(string, nat) notify" where
  "picky i v oc n = (if i = 1 then Some (ErrorsNew ''refused'') else None, n)"

lemma demo_cached_on: "on_file_cache sealed_codec demo_cache (\<lambda>x. Inr demo_key) demo_cached"
  by (simp add: on_file_cache_def demo_cached_def)

lemma demo_good_results: "good_results (json_law sealed_codec) (\<lambda>x. Inr demo_key) f xs"
  using demo_json_law by (simp add: good_results_def)

lemma demo_calls:
  shows "\<exists>rep d'. MapCached sealed_codec first_group demo_cached (Some echo_work) [] None [''a'', ''b'']
        [FeedTo 0, Admit 0, Finish 0, FeedClose, Drain 0] demo_disk 0 = Some (Inr [Some ''a'', Some ''a''], rep, d', 1)"
    and "\<exists>e rep d' rep2 d2. MapCached sealed_codec first_group demo_cached (Some echo_work) [Some picky] None [''a'', ''b'']
        [FeedTo 0, Admit 0, Finish 0, FeedClose] demo_disk 0 = Some (Inl e, rep, d', 1) \<and>
      co_State (cr_Outcomes rep ! 1) = CacheStored \<and> length (cr_Outcomes rep) = 2 \<and>
      MapCached sealed_codec first_group demo_cached (Some echo_work) [] None [''a'', ''b''] [] d' 0
        = Some (Inr [Some ''a'', Some ''a''], rep2, d2, 0) \<and> cr_WorkCalls rep2 = 0"
proof -
  have "map_option (\<lambda>(r, rep, d', u'). (r, u')) (MapCached sealed_codec first_group demo_cached (Some echo_work) [] None
        [''a'', ''b''] [FeedTo 0, Admit 0, Finish 0, FeedClose, Drain 0] demo_disk 0) = Some (Inr [Some ''a'', Some ''a''], 1)"
    by code_simp
  then show "\<exists>rep d'. MapCached sealed_codec first_group demo_cached (Some echo_work) [] None [''a'', ''b'']
        [FeedTo 0, Admit 0, Finish 0, FeedClose, Drain 0] demo_disk 0 = Some (Inr [Some ''a'', Some ''a''], rep, d', 1)"
    by auto
  have "case MapCached sealed_codec first_group demo_cached (Some echo_work) [Some picky] None [''a'', ''b'']
        [FeedTo 0, Admit 0, Finish 0, FeedClose] demo_disk 0 of
      Some (Inl e, rep, d', u) \<Rightarrow> u = 1 \<and> co_State (cr_Outcomes rep ! 1) = CacheStored \<and> length (cr_Outcomes rep) = 2 \<and>
        map_option (\<lambda>(r, rep, d', u'). (r, cr_WorkCalls rep, u')) (MapCached sealed_codec first_group demo_cached
          (Some echo_work) [] None [''a'', ''b''] [] d' 0) = Some (Inr [Some ''a'', Some ''a''], 0, 0)
    | _ \<Rightarrow> False"
    by code_simp
  then show "\<exists>e rep d' rep2 d2. MapCached sealed_codec first_group demo_cached (Some echo_work) [Some picky] None [''a'', ''b'']
        [FeedTo 0, Admit 0, Finish 0, FeedClose] demo_disk 0 = Some (Inl e, rep, d', 1) \<and>
      co_State (cr_Outcomes rep ! 1) = CacheStored \<and> length (cr_Outcomes rep) = 2 \<and>
      MapCached sealed_codec first_group demo_cached (Some echo_work) [] None [''a'', ''b''] [] d' 0
        = Some (Inr [Some ''a'', Some ''a''], rep2, d2, 0) \<and> cr_WorkCalls rep2 = 0"
    by (fastforce split: option.splits prod.splits sum.splits)
qed

theorem mapcached_aligned_witness:
  "\<exists>rep d'. MapCached sealed_codec first_group demo_cached (Some echo_work) [] None [''a'', ''b'']
      [FeedTo 0, Admit 0, Finish 0, FeedClose, Drain 0] demo_disk 0 = Some (Inr [Some ''a'', Some ''a''], rep, d', 1)
    \<and> cr_Hits rep + cr_Misses rep = 2 \<and> co_State (cr_Outcomes rep ! 1) \<in> {CacheHit, CacheStored}"
proof -
  obtain rep d' where run: "MapCached sealed_codec first_group demo_cached (Some echo_work) [] None [''a'', ''b'']
      [FeedTo 0, Admit 0, Finish 0, FeedClose, Drain 0] demo_disk 0 = Some (Inr [Some ''a'', Some ''a''], rep, d', 1)"
    using demo_calls(1) by blast
  note all = mapcached_aligned [OF first_group_spec demo_cached_on demo_good_results demo_disk_ok run]
  then have "cr_Hits rep + cr_Misses rep = 2" by simp
  moreover have "co_State (cr_Outcomes rep ! 1) \<in> {CacheHit, CacheStored}"
    using all by (metis (no_types, lifting) One_nat_def Suc_less_eq insert_iff length_Cons zero_less_Suc)
  ultimately show ?thesis using run by blast
qed

text \<open>C29. Work is never paid for twice: whatever a call of \<open>MapCached\<close> ended in (a failure of
  the work, the store or the callback, or a cancellation), a later call over the same inputs
  on the cache it left that returns without an error answers every input that the first call
  reported as stored from the cache, with a value that the first call's work gave.\<close>

theorem mapcached_resumes:
  fixes f :: "('t, 'v, 'u) work" and f' :: "('t, 'v, 'w) work"
  assumes "errgroup_spec eg" and "on_file_cache C fc key opts" and "on_file_cache C fc key opts'"
    and "good_results (json_law C) key f xs" and "good_results (json_law C) key f' xs"
    and "disk_ok C d" and "disk_healthy fc d"
    and first: "MapCached C eg opts (Some f) cb c xs evs d u = Some (r, rep, d1, u1)"
    and second: "MapCached C eg opts' (Some f') cb' None xs evs' d1 w = Some (Inr rs, rep', d2, w')"
    and stored: "j < length (cr_Outcomes rep)" "co_State (cr_Outcomes rep ! j) = CacheStored" "j < length xs"
  shows "co_State (cr_Outcomes rep' ! j) = CacheHit \<and>
    (\<exists>i v. leader C key xs j i \<and> rs ! j = Some v \<and> worked f (xs ! i) v)"
proof -
  let ?load = "FileCache_Load C (Some fc) False"
  have opts: "cmo_Store opts = FileCache_Store C (Some fc)" "cmo_Load opts = Some ?load" "cmo_Key opts = Some key"
    "cmo_Store opts' = FileCache_Store C (Some fc)" "cmo_Load opts' = Some ?load" "cmo_Key opts' = Some key"
    using assms(2,3) by (simp_all add: on_file_cache_def)
  from file_cache.MapCached_reported [OF refl assms(1) opts(1-3) assms(4,6,7) first]
  obtain i k v where d1: "disk_ok C d1" "disk_healthy fc d1" and i: "leader C key xs j i" "key (xs ! i) = Inr k"
    "?load None k d1 = Inr (Some v)" "worked f (xs ! i) v"
    using stored unfolding item_stored_def by blast
  have lead: "i' = i" if "leader C key xs j i'" for i' using leader_unique [OF that i(1)] .
  from file_cache.MapCached_result [OF refl assms(1) opts(4-6) assms(5) d1 second] stored(3)
  obtain v' where v': "rs ! j = Some v'" and
    or: "co_State (cr_Outcomes rep' ! j) = CacheHit \<and> item_hit C ?load key None xs d1 j v' \<or>
      (\<exists>i \<in> missing C ?load key None xs d1. leader C key xs j i)"
    by blast
  have "i \<notin> missing C ?load key None xs d1" using i(2,3) by (simp add: missing_def)
  then have hit: "co_State (cr_Outcomes rep' ! j) = CacheHit" "item_hit C ?load key None xs d1 j v'"
    using or lead by blast+
  then obtain i' k' where i': "leader C key xs j i'" "key (xs ! i') = Inr k'" "?load None k' d1 = Inr (Some v')"
    unfolding item_hit_def by blast
  have "v' = v" using lead [OF i'(1)] i'(2,3) i(2,3) by simp
  then show ?thesis using hit(1) v' i(1,4) by blast
qed

theorem mapcached_resumes_witness:
  "\<exists>e rep d' rep2 d2. MapCached sealed_codec first_group demo_cached (Some echo_work) [Some picky] None [''a'', ''b'']
        [FeedTo 0, Admit 0, Finish 0, FeedClose] demo_disk 0 = Some (Inl e, rep, d', 1) \<and>
      MapCached sealed_codec first_group demo_cached (Some echo_work) [] None [''a'', ''b''] [] d' 0
        = Some (Inr [Some ''a'', Some ''a''], rep2, d2, 0) \<and> co_State (cr_Outcomes rep2 ! 1) = CacheHit"
proof -
  obtain e rep d' rep2 d2 where
    first: "MapCached sealed_codec first_group demo_cached (Some echo_work) [Some picky] None [''a'', ''b'']
        [FeedTo 0, Admit 0, Finish 0, FeedClose] demo_disk 0 = Some (Inl e, rep, d', 1)" and
    st: "co_State (cr_Outcomes rep ! 1) = CacheStored" "length (cr_Outcomes rep) = 2" and
    second: "MapCached sealed_codec first_group demo_cached (Some echo_work) [] None [''a'', ''b''] [] d' 0
        = Some (Inr [Some ''a'', Some ''a''], rep2, d2, 0)"
    using demo_calls(2) by blast
  have "1 < length (cr_Outcomes rep)" "1 < length [''a'', ''b'']" using st by simp_all
  from mapcached_resumes [OF first_group_spec demo_cached_on demo_cached_on demo_good_results demo_good_results
      demo_disk_ok first second this(1) st(1) this(2)] first second
  show ?thesis by blast
qed

end
