(* ===== verification/Cached_Batch_Map.thy ===== *)
theory Cached_Batch_Map
  imports Cached_Map
begin

text \<open>
  The batched cached map, \<open>MapCachedBatches\<close> of \<open>src/execution/cached_batch_map.go\<close>.

  It groups and loads as \<open>MapCached\<close> does, cuts the groups that missed into batches of at
  most \<open>BatchSize\<close>, and maps a closure over the batches: one work call for the whole batch,
  then one store per group. The grouping and loading loops are the same text in both files
  and are the definitions of \<open>Cached_Map\<close>, here without a callback. \<open>Panics\<close> is the run-time
  panic of \<open>make\<close> for a negative capacity: the capacity is computed in 64-bit integers.
\<close>

datatype 'a call = Panics string | Returns 'a

record 't batch =
  bt_groups :: "'t keyGroup list"
  bt_cost :: int

record ('t, 'r, 's, 'u) batch_options =
  bo_Workers :: int
  bo_Limiter :: "(ctx \<Rightarrow> int \<Rightarrow> 'u \<Rightarrow> (err option \<times> 'u) option) option"
  bo_Cost :: "('t \<Rightarrow> int) option"
  bo_BatchSize :: int
  bo_Load :: "(ctx \<Rightarrow> Key \<Rightarrow> 's \<Rightarrow> 'r option result) option"
  bo_Store :: "ctx \<Rightarrow> Key \<Rightarrow> 'r \<Rightarrow> 's \<Rightarrow> err option \<times> 's"
  bo_Key :: "('t \<Rightarrow> Key result) option"

section \<open>Cutting the misses into batches\<close>

fun batch_costs :: "('t \<Rightarrow> int) option \<Rightarrow> 't keyGroup list \<Rightarrow> int \<Rightarrow> int result" where
  "batch_costs cost [] acc = Inr acc"
| "batch_costs cost (g # gs) acc =
     (let c = (case cost of None \<Rightarrow> 1 | Some f \<Rightarrow> f (kg_item g)) in
      if c < 1 then Inl (Errorf ''item %d: resource cost must be positive'' [FInt (int (kg_indexes g ! 0))] None)
      else batch_costs cost gs (wrap64 (acc + c)))"

text \<open>The loop from \<open>start\<close>. The size is at least one where the code runs it.\<close>

function batch_loop :: "('t \<Rightarrow> int) option \<Rightarrow> nat \<Rightarrow> 't keyGroup list \<Rightarrow> nat \<Rightarrow> 't batch list \<Rightarrow> 't batch list result" where
  "batch_loop cost sz misses start acc =
     (if start \<ge> length misses \<or> sz = 0 then Inr acc
      else let current = take sz (drop start misses) in
        case batch_costs cost current 0 of
          Inl e \<Rightarrow> Inl e
        | Inr c \<Rightarrow> batch_loop cost sz misses (start + sz) (acc @ [\<lparr>bt_groups = current, bt_cost = c\<rparr>]))"
  by pat_completeness auto
termination
  by (relation "measure (\<lambda>(_, _, misses, start, _). length misses - start)") auto

declare batch_loop.simps [simp del]

text \<open>The capacity of the slice of batches, with Go's truncating division.\<close>

definition batches_cap :: "int \<Rightarrow> nat \<Rightarrow> int" where
  "batches_cap sz n =
     (let x = wrap64 (wrap64 (int n + sz) - 1) in if x < 0 then - ((- x) div sz) else x div sz)"

section \<open>Working on a batch\<close>

fun batch_store :: "(ctx \<Rightarrow> Key \<Rightarrow> 'r \<Rightarrow> 's \<Rightarrow> err option \<times> 's) \<Rightarrow> ('t keyGroup \<times> 'r) list \<Rightarrow>
    ('s, 'u) cm_state \<Rightarrow> err option \<times> ('s, 'u) cm_state" where
  "batch_store store [] S = (None, S)"
| "batch_store store ((g, v) # ps) S =
     (case store None (kg_key g) v (cm_cache S) of
        (Some e, s') \<Rightarrow>
          (Some (Errorf ''store cache result %d: %w'' [FInt (int (kg_indexes g ! 0))] (Some e)), S\<lparr>cm_cache := s'\<rparr>)
      | (None, s') \<Rightarrow>
          batch_store store ps
            (S\<lparr>cm_cache := s', cm_writes := Suc (cm_writes S),
               cm_outcomes := fold (set_state CacheStored) (kg_indexes g) (cm_outcomes S)\<rparr>))"

definition batch_work :: "(ctx \<Rightarrow> Key \<Rightarrow> 'r \<Rightarrow> 's \<Rightarrow> err option \<times> 's) \<Rightarrow> ('t list, 'r list, 'u) work \<Rightarrow>
    ('t batch, 't keyGroup list \<times> 'r list, ('s, 'u) cm_state) work" where
  "batch_work store f c b S =
     (let S1 = S\<lparr>cm_workCalls := Suc (cm_workCalls S)\<rparr> in
      case f c (map kg_item (bt_groups b)) (cm_user S1) of
        (Inl e, u') \<Rightarrow> (Inl e, S1\<lparr>cm_user := u'\<rparr>)
      | (Inr vs, u') \<Rightarrow>
          if length vs \<noteq> length (bt_groups b)
          then (Inl (Errorf ''batch work returned %d results for %d items''
                  [FInt (int (length vs)), FInt (int (length (bt_groups b)))] None), S1\<lparr>cm_user := u'\<rparr>)
          else (case batch_store store (zip (bt_groups b) vs) (S1\<lparr>cm_user := u'\<rparr>) of
                  (Some e, S2) \<Rightarrow> (Inl e, S2)
                | (None, S2) \<Rightarrow> (Inr (bt_groups b, vs), S2)))"

definition batch_options_of :: "('t, 'r, 's, 'u) batch_options \<Rightarrow> ('t batch, ('s, 'u) cm_state) map_options" where
  "batch_options_of opts =
     \<lparr>mo_workers = bo_Workers opts,
      mo_limiter = (case bo_Limiter opts of
          None \<Rightarrow> None
        | Some lim \<Rightarrow> Some (\<lambda>c k S. case lim c k (cm_user S) of
              None \<Rightarrow> None | Some (r, u') \<Rightarrow> Some (r, S\<lparr>cm_user := u'\<rparr>))),
      mo_cost = Some bt_cost\<rparr>"

fun fill_batch :: "('t keyGroup \<times> 'r) list \<Rightarrow> 'r option list \<Rightarrow> 'r option list" where
  "fill_batch [] rs = rs"
| "fill_batch ((g, v) # ps) rs = fill_batch ps (fill_one v (kg_indexes g) rs)"

fun fill_batches :: "('t keyGroup list \<times> 'r list) option list \<Rightarrow> 'r option list \<Rightarrow> 'r option list" where
  "fill_batches [] rs = rs"
| "fill_batches (None # cs) rs = fill_batches cs rs"
| "fill_batches (Some (gs, vs) # cs) rs = fill_batches cs (fill_batch (zip gs vs) rs)"

section \<open>MapCachedBatches\<close>

definition map_batches :: "errgroup \<Rightarrow> ('t, 'r, 's, 'u) batch_options \<Rightarrow> ('t list, 'r list, 'u) work \<Rightarrow>
    ctx \<Rightarrow> 't batch list \<Rightarrow> map_event list \<Rightarrow> 'r load_state \<Rightarrow> 's \<Rightarrow> 'u \<Rightarrow> ('r, 's, 'u) cached_outcome option" where
  "map_batches eg opts f c bs evs ls s u =
     (case bounded_Map eg (batch_options_of opts) (Some (batch_work (bo_Store opts) f)) c bs evs
             \<lparr>cm_cache = s, cm_outcomes = ls_outcomes ls, cm_writes = 0, cm_workCalls = 0, cm_user = u\<rparr> of
        None \<Rightarrow> None
      | Some (r, S) \<Rightarrow>
          let rep = mk_report (ls_hits ls) (ls_misses ls) (cm_writes S) (cm_workCalls S) (cm_outcomes S) in
          Some (case r of
              Inl e \<Rightarrow> Inl e
            | Inr completed \<Rightarrow> Inr (fill_batches completed (ls_results ls)),
            rep, cm_cache S, cm_user S))"

definition MapCachedBatches :: "'v codec \<Rightarrow> errgroup \<Rightarrow> ('t, 'r, 's, 'u) batch_options \<Rightarrow>
    ('t list, 'r list, 'u) work option \<Rightarrow> ctx \<Rightarrow> 't list \<Rightarrow> map_event list \<Rightarrow> 's \<Rightarrow> 'u \<Rightarrow>
    ('r, 's, 'u) cached_outcome call option" where
  "MapCachedBatches C eg opts fo c items evs s u =
     (let os0 = replicate (length items) zero_outcome;
          rep0 = mk_report 0 0 0 0 os0;
          stop = (\<lambda>text. Some (Returns (Inl (Errorf text [] None), rep0, s, u))) in
      case bo_Load opts of
        None \<Rightarrow> stop ''cache is required''
      | Some load \<Rightarrow>
     (case bo_Key opts of
        None \<Rightarrow> stop ''cache key function is required''
      | Some key \<Rightarrow>
     (case fo of
        None \<Rightarrow> stop ''batch work function is required''
      | Some f \<Rightarrow>
          if bo_BatchSize opts < 1 then stop ''batch size must be positive''
          else if items = [] then Some (Returns (Inr [], rep0, s, u))
          else case group_loop C key 0 items (os0, [], []) of
              (Some e, os, gs) \<Rightarrow> Some (Returns (Inl e, mk_report 0 0 0 0 os, s, u))
            | (None, os, gs) \<Rightarrow>
                (case load_loop load None c s gs []
                        \<lparr>ls_results = replicate (length items) None, ls_outcomes = os, ls_hits = 0, ls_misses = 0\<rparr> u of
                   (Some e, misses, ls, u') \<Rightarrow>
                     Some (Returns (Inl e, mk_report (ls_hits ls) (ls_misses ls) 0 0 (ls_outcomes ls), s, u'))
                 | (None, misses, ls, u') \<Rightarrow>
                     let rep = mk_report (ls_hits ls) (ls_misses ls) 0 0 (ls_outcomes ls) in
                     if misses = [] then Some (Returns (Inr (ls_results ls), rep, s, u'))
                     else if batches_cap (bo_BatchSize opts) (length misses) < 0
                     then Some (Panics ''makeslice: cap out of range'')
                     else (case batch_loop (bo_Cost opts) (nat (bo_BatchSize opts)) misses 0 [] of
                             Inl e \<Rightarrow> Some (Returns (Inl e, rep, s, u'))
                           | Inr bs \<Rightarrow>
                               map_option Returns (map_batches eg opts f c bs evs ls s u'))))))"

section \<open>What the batches are\<close>

text \<open>The batches hold the misses in order, each batch but the last has \<open>sz\<close> groups, and
  each cost is the sum of its groups' costs, which are positive.\<close>

definition group_cost :: "('t \<Rightarrow> int) option \<Rightarrow> 't keyGroup \<Rightarrow> int" where
  "group_cost cost g = (case cost of None \<Rightarrow> 1 | Some f \<Rightarrow> f (kg_item g))"

lemma batch_costs_sum:
  "batch_costs cost gs acc = Inr c \<Longrightarrow> int64_range acc \<Longrightarrow>
     c = wrap64 (acc + sum_list (map (group_cost cost) gs)) \<and> (\<forall>g \<in> set gs. 1 \<le> group_cost cost g)"
proof (induction gs arbitrary: acc)
  case (Cons g gs)
  then have pos: "1 \<le> group_cost cost g"
    and rest: "batch_costs cost gs (wrap64 (acc + group_cost cost g)) = Inr c"
    by (simp_all add: Let_def group_cost_def not_less split: if_splits)
  from Cons.IH [OF rest] have "c = wrap64 (wrap64 (acc + group_cost cost g) + sum_list (map (group_cost cost) gs))"
    and all: "\<forall>g \<in> set gs. 1 \<le> group_cost cost g" by simp_all
  moreover have "wrap64 (wrap64 (a :: int) + b) = wrap64 (a + b)" for a b
    unfolding wrap64_def by (simp add: mod_simps algebra_simps)
  ultimately show ?case using pos by (simp add: add.assoc)
qed simp

lemma batch_loop_ok:
  "batch_loop cost sz misses start acc = Inr bs \<Longrightarrow> 0 < sz \<Longrightarrow>
     \<exists>bs'. bs = acc @ bs' \<and> concat (map bt_groups bs') = drop start misses \<and>
       (\<forall>b \<in> set bs'. bt_groups b \<noteq> [] \<and> length (bt_groups b) \<le> sz \<and>
          bt_cost b = wrap64 (sum_list (map (group_cost cost) (bt_groups b))) \<and>
          (\<forall>g \<in> set (bt_groups b). 1 \<le> group_cost cost g)) \<and>
       length bs' = (length misses - start + sz - 1) div sz"
proof (induction cost sz misses start acc rule: batch_loop.induct)
  case (1 cost sz misses start acc)
  show ?case
  proof (cases "length misses \<le> start")
    case True
    then show ?thesis using 1(2,3) by (auto simp: batch_loop.simps)
  next
    case False
    let ?cur = "take sz (drop start misses)"
    obtain c where c: "batch_costs cost ?cur 0 = Inr c" using 1(2,3) False
      by (auto simp: batch_loop.simps [of cost sz misses start] Let_def split: sum.splits)
    then have rest: "batch_loop cost sz misses (start + sz) (acc @ [\<lparr>bt_groups = ?cur, bt_cost = c\<rparr>]) = Inr bs"
      using 1(2,3) False by (simp add: batch_loop.simps [of cost sz misses start] Let_def)
    have nf: "\<not> (length misses \<le> start \<or> sz = 0)" using False 1(3) by simp
    from 1(1) [OF nf refl c rest 1(3)] obtain bs' where bs': "bs = (acc @ [\<lparr>bt_groups = ?cur, bt_cost = c\<rparr>]) @ bs'"
      "concat (map bt_groups bs') = drop (start + sz) misses"
      "\<forall>b \<in> set bs'. bt_groups b \<noteq> [] \<and> length (bt_groups b) \<le> sz \<and>
          bt_cost b = wrap64 (sum_list (map (group_cost cost) (bt_groups b))) \<and>
          (\<forall>g \<in> set (bt_groups b). 1 \<le> group_cost cost g)"
      "length bs' = (length misses - (start + sz) + sz - 1) div sz"
      by blast
    have "(length misses - start + sz - 1) div sz = Suc (length bs')"
    proof (cases "length misses - start \<le> sz")
      case True
      then have "length bs' = 0" unfolding bs'(4) using 1(3) by (simp add: less_imp_diff_less)
      moreover have "(length misses - start + sz - 1) div sz = 1"
        using True False 1(3) by (intro div_nat_eqI) auto
      ultimately show ?thesis by simp
    next
      case F: False
      then have "length misses - start + sz - 1 = (length misses - (start + sz) + sz - 1) + sz" using 1(3) by simp
      then show ?thesis unfolding bs'(4) using 1(3) by (metis Suc_eq_plus1 div_add_self2 neq0_conv)
    qed
    moreover have "drop start misses = ?cur @ drop (start + sz) misses"
      by (metis append_take_drop_id drop_drop add.commute)
    moreover have "?cur \<noteq> []" using False 1(3) by simp
    moreover have "int64_range 0" by (simp add: int64_range_def)
    ultimately show ?thesis using bs' batch_costs_sum [OF c]
      by (intro exI [of _ "\<lparr>bt_groups = ?cur, bt_cost = c\<rparr> # bs'"]) auto
  qed
qed

section \<open>What storing a batch does\<close>

lemma fold_set_state:
  "length (fold (set_state st) is os) = length os \<and>
   map co_KeyDigest (fold (set_state st) is os) = map co_KeyDigest os \<and>
   (\<forall>j < length os. co_State (fold (set_state st) is os ! j) = (if j \<in> set is then st else co_State (os ! j)))"
  by (induction "is" arbitrary: os) (simp_all add: engine_simps)

text \<open>The store loop against a cache: entries of other digests are kept, and an outcome that
  changed is one whose value can be loaded.\<close>

definition batch_stored :: "(ctx \<Rightarrow> Key \<Rightarrow> 's \<Rightarrow> 'r option result) \<Rightarrow> ('t keyGroup \<times> 'r) list \<Rightarrow>
    CacheOutcome list \<Rightarrow> CacheOutcome list \<Rightarrow> 's \<Rightarrow> bool" where
  "batch_stored load ps os os' s \<longleftrightarrow>
     length os' = length os \<and> map co_KeyDigest os' = map co_KeyDigest os \<and>
     (\<forall>j < length os. co_State (os' ! j) = co_State (os ! j) \<or>
        co_State (os' ! j) = CacheStored \<and>
        (\<exists>g v. (g, v) \<in> set ps \<and> j \<in> set (kg_indexes g) \<and> load None (kg_key g) s = Inr (Some v)))"

definition batch_done :: "(ctx \<Rightarrow> Key \<Rightarrow> 's \<Rightarrow> 'r option result) \<Rightarrow> ('t keyGroup \<times> 'r) list \<Rightarrow>
    CacheOutcome list \<Rightarrow> 's \<Rightarrow> bool" where
  "batch_done load ps os' s \<longleftrightarrow>
     (\<forall>g v. (g, v) \<in> set ps \<longrightarrow> load None (kg_key g) s = Inr (Some v) \<and>
        (\<forall>j \<in> set (kg_indexes g). j < length os' \<longrightarrow> co_State (os' ! j) = CacheStored))"

context cache_store
begin

lemma batch_store_ok:
  "batch_store store ps S = (r, S') \<Longrightarrow> ok (cm_cache S) \<Longrightarrow> healthy (cm_cache S) \<Longrightarrow>
     sorted_wrt (\<lambda>p q. \<not> same (kg_key (fst q)) (kg_key (fst p))) ps \<Longrightarrow>
     \<forall>(g, v) \<in> set ps. good (kg_key g) v \<Longrightarrow>
     ok (cm_cache S') \<and> healthy (cm_cache S') \<and> cm_workCalls S' = cm_workCalls S \<and>
     (\<forall>k. (\<forall>(g, v) \<in> set ps. \<not> same (kg_key g) k) \<longrightarrow> load None k (cm_cache S') = load None k (cm_cache S)) \<and>
     batch_stored load ps (cm_outcomes S) (cm_outcomes S') (cm_cache S') \<and>
     (r = None \<longrightarrow> cm_writes S' = cm_writes S + length ps \<and> batch_done load ps (cm_outcomes S') (cm_cache S'))"
proof (induction ps arbitrary: S)
  case Nil
  then show ?case by (simp add: batch_stored_def batch_done_def)
next
  case (Cons p ps)
  obtain g v where p: "p = (g, v)" by (cases p)
  obtain r1 s1 where st: "store None (kg_key g) v (cm_cache S) = (r1, s1)" by fastforce
  have sound: "ok s1" "healthy s1" using store_ok [OF Cons.prems(2) st] store_healthy [OF Cons.prems(2) st] Cons.prems(3) by auto
  have other: "load None k s1 = load None k (cm_cache S)" if "\<not> same (kg_key g) k" for k
    using load_other [OF Cons.prems(2) st that] .
  show ?case
  proof (cases r1)
    case (Some e)
    then have "S' = S\<lparr>cm_cache := s1\<rparr>" "r \<noteq> None" using Cons.prems(1) st p by auto
    then show ?thesis using sound other p by (auto simp: batch_stored_def)
  next
    case None
    let ?S1 = "S\<lparr>cm_cache := s1, cm_writes := Suc (cm_writes S),
               cm_outcomes := fold (set_state CacheStored) (kg_indexes g) (cm_outcomes S)\<rparr>"
    have rest: "batch_store store ps ?S1 = (r, S')" using Cons.prems(1) st p None by simp
    have srt: "sorted_wrt (\<lambda>p q. \<not> same (kg_key (fst q)) (kg_key (fst p))) ps"
      and apart: "\<forall>(g', v') \<in> set ps. \<not> same (kg_key g') (kg_key g)" using Cons.prems(4) p by auto
    have "ok (cm_cache ?S1)" "healthy (cm_cache ?S1)" "\<forall>(g, v) \<in> set ps. good (kg_key g) v"
      using sound Cons.prems(5) by simp_all
    note ih = Cons.IH [OF rest this(1,2) srt this(3)]
    note fo = fold_set_state [of CacheStored "kg_indexes g" "cm_outcomes S"]
    have "good (kg_key g) v" using Cons.prems(5) p by simp
    from load_stored_healthy [OF Cons.prems(2) this st [unfolded None] Cons.prems(3)]
    have new: "load None (kg_key g) (cm_cache S') = Inr (Some v)" using ih apart by simp
    have len: "length (cm_outcomes S') = length (cm_outcomes S)"
      "map co_KeyDigest (cm_outcomes S') = map co_KeyDigest (cm_outcomes S)"
      using ih fo by (simp_all add: batch_stored_def)
    have "batch_stored load (p # ps) (cm_outcomes S) (cm_outcomes S') (cm_cache S')"
      unfolding batch_stored_def
    proof (intro conjI allI impI len)
      fix j assume j: "j < length (cm_outcomes S)"
      with ih fo have "co_State (cm_outcomes S' ! j) = co_State (fold (set_state CacheStored) (kg_indexes g) (cm_outcomes S) ! j) \<or>
        co_State (cm_outcomes S' ! j) = CacheStored \<and>
        (\<exists>g v. (g, v) \<in> set ps \<and> j \<in> set (kg_indexes g) \<and> load None (kg_key g) (cm_cache S') = Inr (Some v))"
        unfolding batch_stored_def by simp
      then show "co_State (cm_outcomes S' ! j) = co_State (cm_outcomes S ! j) \<or>
        co_State (cm_outcomes S' ! j) = CacheStored \<and>
        (\<exists>g v. (g, v) \<in> set (p # ps) \<and> j \<in> set (kg_indexes g) \<and> load None (kg_key g) (cm_cache S') = Inr (Some v))"
      proof
        assume "co_State (cm_outcomes S' ! j) = co_State (fold (set_state CacheStored) (kg_indexes g) (cm_outcomes S) ! j)"
        then show ?thesis using fo j new p by (cases "j \<in> set (kg_indexes g)") auto
      qed auto
    qed
    moreover have "batch_done load (p # ps) (cm_outcomes S') (cm_cache S')" if "r = None"
    proof -
      have d: "batch_done load ps (cm_outcomes S') (cm_cache S')" using ih that by simp
      have "co_State (cm_outcomes S' ! j) = CacheStored" if "j \<in> set (kg_indexes g)" "j < length (cm_outcomes S')" for j
      proof -
        have "j < length (cm_outcomes ?S1)" using that(2) len fo by simp
        then have "co_State (cm_outcomes S' ! j) = co_State (cm_outcomes ?S1 ! j) \<or> co_State (cm_outcomes S' ! j) = CacheStored"
          using ih unfolding batch_stored_def by blast
        then show ?thesis using fo that len by auto
      qed
      then show ?thesis using d new p unfolding batch_done_def by auto
    qed
    ultimately show ?thesis using ih other p by auto
  qed
qed

end

section \<open>The closure as a client of the map\<close>

text \<open>A value that the batch work gave for an item, at the item's position in the batch.\<close>

definition batch_worked :: "('t list, 'r list, 'u) work \<Rightarrow> 't \<Rightarrow> 'r \<Rightarrow> bool" where
  "batch_worked f x v \<longleftrightarrow> (\<exists>c items t vs t' p. f c items t = (Inr vs, t') \<and> length vs = length items \<and>
     p < length items \<and> items ! p = x \<and> vs ! p = v)"

definition batch_published :: "(ctx \<Rightarrow> Key \<Rightarrow> 's \<Rightarrow> 'r option result) \<Rightarrow> ('t list, 'r list, 'u) work \<Rightarrow>
    's \<Rightarrow> 't keyGroup \<Rightarrow> 'r \<Rightarrow> bool" where
  "batch_published load f s g v \<longleftrightarrow> load None (kg_key g) s = Inr (Some v) \<and> batch_worked f (kg_item g) v"

definition batch_inv :: "(ctx \<Rightarrow> Key \<Rightarrow> 's \<Rightarrow> 'r option result) \<Rightarrow> ('s \<Rightarrow> bool) \<Rightarrow> ('t list, 'r list, 'u) work \<Rightarrow>
    't batch list \<Rightarrow> CacheOutcome list \<Rightarrow> (nat \<times> ('t keyGroup list \<times> 'r list) result) list \<Rightarrow> ('s, 'u) cm_state \<Rightarrow> bool" where
  "batch_inv load sound f bs os0 cs S \<longleftrightarrow>
     fst ` set cs \<subseteq> {..< length bs} \<and>
     sound (cm_cache S) \<and> cm_workCalls S = length cs \<and>
     length (cm_outcomes S) = length os0 \<and> map co_KeyDigest (cm_outcomes S) = map co_KeyDigest os0 \<and>
     (\<forall>j < length os0. co_State (cm_outcomes S ! j) = co_State (os0 ! j) \<or>
        co_State (cm_outcomes S ! j) = CacheStored \<and>
        (\<exists>b g v. b \<in> fst ` set cs \<and> g \<in> set (bt_groups (bs ! b)) \<and> j \<in> set (kg_indexes g) \<and>
           batch_published load f (cm_cache S) g v)) \<and>
     (\<forall>b gs vs. (b, Inr (gs, vs)) \<in> set cs \<longrightarrow> gs = bt_groups (bs ! b) \<and> length vs = length gs \<and>
        (\<forall>g v. (g, v) \<in> set (zip gs vs) \<longrightarrow> batch_published load f (cm_cache S) g v \<and>
           (\<forall>j \<in> set (kg_indexes g). j < length os0 \<longrightarrow> co_State (cm_outcomes S ! j) = CacheStored))) \<and>
     ((\<forall>c \<in> set cs. \<not> isl (snd c)) \<longrightarrow>
        cm_writes S = sum_list (map (\<lambda>c. length (bt_groups (bs ! fst c))) cs))"

lemma batch_inv_user [engine_simps]:
  "batch_inv load sound f bs os0 cs (S\<lparr>cm_user := u\<rparr>) = batch_inv load sound f bs os0 cs S"
  by (simp add: batch_inv_def)

lemma batch_inv_step:
  assumes inv: "batch_inv load sound f bs os0 cs S" and i: "i < length bs" and sound: "sound (cm_cache S')"
    and calls: "cm_workCalls S' = Suc (cm_workCalls S)"
    and kept: "\<And>b g v. b \<in> fst ` set cs \<Longrightarrow> g \<in> set (bt_groups (bs ! b)) \<Longrightarrow>
      batch_published load f (cm_cache S) g v \<Longrightarrow> batch_published load f (cm_cache S') g v"
    and bst: "batch_stored load ps (cm_outcomes S) (cm_outcomes S') (cm_cache S')"
    and ps: "\<And>g v. (g, v) \<in> set ps \<Longrightarrow> g \<in> set (bt_groups (bs ! i)) \<and> batch_worked f (kg_item g) v"
    and res: "isl res \<or> (\<exists>vs. res = Inr (bt_groups (bs ! i), vs) \<and> length vs = length (bt_groups (bs ! i)) \<and>
      ps = zip (bt_groups (bs ! i)) vs \<and> batch_done load ps (cm_outcomes S') (cm_cache S') \<and>
      cm_writes S' = cm_writes S + length ps)"
  shows "batch_inv load sound f bs os0 (cs @ [(i, res)]) S'"
proof -
  have len: "length (cm_outcomes S) = length os0" "length (cm_outcomes S') = length os0"
    "map co_KeyDigest (cm_outcomes S') = map co_KeyDigest os0"
    using inv bst by (simp_all add: batch_inv_def batch_stored_def)
  have pub: "batch_published load f (cm_cache S') g v"
    if "(g, v) \<in> set ps" "load None (kg_key g) (cm_cache S') = Inr (Some v)" for g v
    using that ps by (simp add: batch_published_def)
  have moved: "co_State (cm_outcomes S' ! j) = co_State (cm_outcomes S ! j) \<or>
      co_State (cm_outcomes S' ! j) = CacheStored \<and> (\<exists>g v. (g, v) \<in> set ps \<and> j \<in> set (kg_indexes g) \<and>
        load None (kg_key g) (cm_cache S') = Inr (Some v))" if "j < length os0" for j
    using bst that len unfolding batch_stored_def by simp
  have states: "co_State (cm_outcomes S' ! j) = co_State (os0 ! j) \<or>
        co_State (cm_outcomes S' ! j) = CacheStored \<and>
        (\<exists>b g v. b \<in> fst ` set (cs @ [(i, res)]) \<and> g \<in> set (bt_groups (bs ! b)) \<and> j \<in> set (kg_indexes g) \<and>
           batch_published load f (cm_cache S') g v)" if j: "j < length os0" for j
    using moved [OF j]
  proof
    assume same: "co_State (cm_outcomes S' ! j) = co_State (cm_outcomes S ! j)"
    from inv j consider "co_State (cm_outcomes S ! j) = co_State (os0 ! j)"
      | b g v where "co_State (cm_outcomes S ! j) = CacheStored" "b \<in> fst ` set cs"
        "g \<in> set (bt_groups (bs ! b))" "j \<in> set (kg_indexes g)" "batch_published load f (cm_cache S) g v"
      unfolding batch_inv_def by blast
    then show ?thesis
    proof cases
      case 2
      then have "batch_published load f (cm_cache S') g v" using kept by blast
      then show ?thesis using 2 same by auto
    qed (use same in simp)
  next
    assume "co_State (cm_outcomes S' ! j) = CacheStored \<and> (\<exists>g v. (g, v) \<in> set ps \<and> j \<in> set (kg_indexes g) \<and>
        load None (kg_key g) (cm_cache S') = Inr (Some v))"
    then obtain g v where "co_State (cm_outcomes S' ! j) = CacheStored" "(g, v) \<in> set ps" "j \<in> set (kg_indexes g)"
        "load None (kg_key g) (cm_cache S') = Inr (Some v)" by blast
    moreover from this have "batch_published load f (cm_cache S') g v" "g \<in> set (bt_groups (bs ! i))"
      using pub ps by blast+
    moreover have "i \<in> fst ` set (cs @ [(i, res)])" by simp
    ultimately show ?thesis by blast
  qed
  have stays: "co_State (cm_outcomes S' ! j) = CacheStored"
    if "j < length os0" "co_State (cm_outcomes S ! j) = CacheStored" for j
    using moved [OF that(1)] that(2) by auto
  have finished: "gs = bt_groups (bs ! b) \<and> length vs = length gs \<and>
        (\<forall>g v. (g, v) \<in> set (zip gs vs) \<longrightarrow> batch_published load f (cm_cache S') g v \<and>
           (\<forall>j \<in> set (kg_indexes g). j < length os0 \<longrightarrow> co_State (cm_outcomes S' ! j) = CacheStored))"
    if mem: "(b, Inr (gs, vs)) \<in> set (cs @ [(i, res)])" for b gs vs
  proof (cases "(b, Inr (gs, vs)) \<in> set cs")
    case True
    then have b: "b \<in> fst ` set cs" by force
    from True inv have old: "gs = bt_groups (bs ! b)" "length vs = length gs"
      "\<forall>g v. (g, v) \<in> set (zip gs vs) \<longrightarrow> batch_published load f (cm_cache S) g v \<and>
           (\<forall>j \<in> set (kg_indexes g). j < length os0 \<longrightarrow> co_State (cm_outcomes S ! j) = CacheStored)"
      unfolding batch_inv_def by blast+
    then have "batch_published load f (cm_cache S') g v" if "(g, v) \<in> set (zip gs vs)" for g v
      using kept [OF b] that by (metis set_zip_leftD)
    then show ?thesis using old stays by blast
  next
    case False
    then have "b = i" "res = Inr (gs, vs)" using mem by auto
    then show ?thesis using res pub len(2) unfolding batch_done_def by auto
  qed
  have writes: "cm_writes S' = sum_list (map (\<lambda>c. length (bt_groups (bs ! fst c))) (cs @ [(i, res)]))"
    if "\<forall>c \<in> set (cs @ [(i, res)]). \<not> isl (snd c)"
    using that res inv unfolding batch_inv_def by auto
  have "fst ` set (cs @ [(i, res)]) \<subseteq> {..< length bs}" "cm_workCalls S' = length (cs @ [(i, res)])"
    using inv i calls unfolding batch_inv_def by auto
  then show ?thesis using sound len states finished writes unfolding batch_inv_def by blast
qed

lemma zip_apart: "distinct (map h gs) \<Longrightarrow> sorted_wrt (\<lambda>p q. h (fst q) \<noteq> h (fst p)) (zip gs vs)"
proof (induction gs arbitrary: vs)
  case (Cons g gs)
  show ?case
  proof (cases vs)
    case (Cons v ws)
    have "h g \<notin> h ` set gs" using Cons.prems by simp
    then have "\<forall>q \<in> set (zip gs ws). h (fst q) \<noteq> h g" by (metis imageI prod.collapse set_zip_leftD)
    then show ?thesis using Cons Cons.IH Cons.prems by simp
  qed simp
qed simp

text \<open>Batches whose groups have pairwise different digests.\<close>

definition batches_apart :: "'v codec \<Rightarrow> 't batch list \<Rightarrow> bool" where
  "batches_apart C bs \<longleftrightarrow> distinct (map (\<lambda>g. Digest C (kg_key g)) (concat (map bt_groups bs)))"

lemma batches_apart_one:
  assumes "batches_apart C bs" and "i < length bs"
  shows "distinct (map (\<lambda>g. Digest C (kg_key g)) (bt_groups (bs ! i)))"
proof -
  have "bs = take i bs @ bs ! i # drop (Suc i) bs" using assms(2) by (rule id_take_nth_drop)
  then have "concat (map bt_groups bs) = concat (map bt_groups (take i bs)) @ bt_groups (bs ! i) @
      concat (map bt_groups (drop (Suc i) bs))"
    by (metis concat.simps(2) concat_append list.simps(9) map_append)
  then show ?thesis using assms(1) by (simp add: batches_apart_def)
qed

lemma batches_apart_two:
  assumes apart: "batches_apart C bs" and i: "i < length bs" and j: "j < length bs" and ij: "i \<noteq> j"
    and g: "g \<in> set (bt_groups (bs ! i))" and g': "g' \<in> set (bt_groups (bs ! j))"
  shows "Digest C (kg_key g) \<noteq> Digest C (kg_key g')"
proof -
  have two: "Digest C (kg_key g) \<noteq> Digest C (kg_key g')"
    if "i < j" "j < length bs" "g \<in> set (bt_groups (bs ! i))" "g' \<in> set (bt_groups (bs ! j))" for i j g g'
  proof -
    have "bs = take j bs @ bs ! j # drop (Suc j) bs" using that(2) by (rule id_take_nth_drop)
    then have "concat (map bt_groups bs) = concat (map bt_groups (take j bs)) @ bt_groups (bs ! j) @
        concat (map bt_groups (drop (Suc j) bs))"
      by (metis concat.simps(2) concat_append list.simps(9) map_append)
    moreover have "bs ! i \<in> set (take j bs)" using that(1,2) by (simp add: in_set_conv_nth) (metis min.absorb4 nth_take)
    then have "g \<in> set (concat (map bt_groups (take j bs)))" using that(3) by auto
    ultimately show ?thesis using apart that(4) unfolding batches_apart_def by fastforce
  qed
  from ij have "i < j \<or> j < i" by linarith
  then show ?thesis using two [OF _ j g g'] two [OF _ i g' g] by fastforce
qed

context cache_store
begin

lemma batch_client:
  fixes f :: "('t list, 'v list, 'u) work"
  assumes same_is: "\<And>k k'. same k k' = same_digest C k k'" and apart: "batches_apart C bs"
    and goods: "\<And>i g v. i < length bs \<Longrightarrow> g \<in> set (bt_groups (bs ! i)) \<Longrightarrow> batch_worked f (kg_item g) v \<Longrightarrow> good (kg_key g) v"
  shows "map_client (batch_options_of opts) (batch_work store f) bs
     (batch_inv load (\<lambda>s. ok s \<and> healthy s) f bs os0)"
proof
  show "batch_inv load (\<lambda>s. ok s \<and> healthy s) f bs os0 cs S'"
    if "mo_limiter (batch_options_of opts) = Some lim" "lim c k S = Some (r, S')"
      "batch_inv load (\<lambda>s. ok s \<and> healthy s) f bs os0 cs S" for lim c k S r S' cs
    using that by (auto simp: batch_options_of_def engine_simps split: option.splits)
next
  fix i cs S c res S'
  assume i: "i < length bs" and fresh: "i \<notin> fst ` set cs"
    and inv: "batch_inv load (\<lambda>s. ok s \<and> healthy s) f bs os0 cs S"
    and step: "batch_work store f c (bs ! i) S = (res, S')"
  let ?gs = "bt_groups (bs ! i)" and ?S1 = "S\<lparr>cm_workCalls := Suc (cm_workCalls S)\<rparr>"
  have sound: "ok (cm_cache S)" "healthy (cm_cache S)" using inv by (auto simp: batch_inv_def)
  obtain fr u' where fx: "f c (map kg_item ?gs) (cm_user S) = (fr, u')" by fastforce
  have fail: "batch_inv load (\<lambda>s. ok s \<and> healthy s) f bs os0 (cs @ [(i, Inl e)]) (?S1\<lparr>cm_user := u'\<rparr>)" for e
    by (rule batch_inv_step [OF inv i, of _ "[]"]) (use sound in \<open>simp_all add: batch_stored_def\<close>)
  show "batch_inv load (\<lambda>s. ok s \<and> healthy s) f bs os0 (cs @ [(i, res)]) S'"
  proof (cases fr)
    case (Inl e)
    then have "res = Inl e" "S' = ?S1\<lparr>cm_user := u'\<rparr>" using step fx by (auto simp: batch_work_def)
    then show ?thesis using fail by simp
  next
    case (Inr vs)
    show ?thesis
    proof (cases "length vs = length ?gs")
      case False
      then have "isl res" "S' = ?S1\<lparr>cm_user := u'\<rparr>" using step fx Inr by (auto simp: batch_work_def)
      then show ?thesis using fail by (metis sum.collapse(1))
    next
      case True
      let ?ps = "zip ?gs vs"
      obtain r S2 where loop: "batch_store store ?ps (?S1\<lparr>cm_user := u'\<rparr>) = (r, S2)" by fastforce
      have S': "S' = S2" and res: "res = (case r of Some e \<Rightarrow> Inl e | None \<Rightarrow> Inr (?gs, vs))"
        using step fx Inr True loop by (auto simp: batch_work_def split: option.splits)
      have worked: "g \<in> set ?gs \<and> batch_worked f (kg_item g) v" if "(g, v) \<in> set ?ps" for g v
      proof -
        from that obtain p where p: "p < length ?gs" "?gs ! p = g" "vs ! p = v"
          using True by (auto simp: in_set_zip)
        have "f c (map kg_item ?gs) (cm_user S) = (Inr vs, u')" using fx Inr by simp
        moreover have "length vs = length (map kg_item ?gs)" "p < length (map kg_item ?gs)"
          "map kg_item ?gs ! p = kg_item g" using p True by auto
        ultimately have "batch_worked f (kg_item g) v" unfolding batch_worked_def using p(3) by blast
        then show ?thesis using p by auto
      qed
      have neq: "\<not> same k k'" if "Digest C k \<noteq> Digest C k'" for k k'
        using that by (auto simp: same_is same_digest_def)
      have srt: "sorted_wrt (\<lambda>p q. \<not> same (kg_key (fst q)) (kg_key (fst p))) ?ps"
        by (rule sorted_wrt_mono_rel [OF _ zip_apart [OF batches_apart_one [OF apart i]]]) (use neq in blast)
      have good: "\<forall>(g, v) \<in> set ?ps. good (kg_key g) v" using goods [OF i] worked by blast
      have pre: "ok (cm_cache (?S1\<lparr>cm_user := u'\<rparr>))" "healthy (cm_cache (?S1\<lparr>cm_user := u'\<rparr>))" using sound by simp_all
      note all = batch_store_ok [OF loop pre srt good]
      have kept: "batch_published load f (cm_cache S2) g v"
        if "b \<in> fst ` set cs" "g \<in> set (bt_groups (bs ! b))" "batch_published load f (cm_cache S) g v" for b g v
      proof -
        have b: "b < length bs" "i \<noteq> b" using inv that(1) fresh unfolding batch_inv_def by auto
        have "\<forall>(g', v') \<in> set ?ps. \<not> same (kg_key g') (kg_key g)"
          using batches_apart_two [OF apart i b _ that(2)] neq worked by blast
        then have "load None (kg_key g) (cm_cache S2) = load None (kg_key g) (cm_cache S)" using all by simp
        then show ?thesis using that(3) by (simp add: batch_published_def)
      qed
      show ?thesis unfolding S'
      proof (rule batch_inv_step [OF inv i, of _ ?ps])
        show "isl res \<or> (\<exists>vs. res = Inr (?gs, vs) \<and> length vs = length ?gs \<and> ?ps = zip ?gs vs \<and>
            batch_done load ?ps (cm_outcomes S2) (cm_cache S2) \<and> cm_writes S2 = cm_writes S + length ?ps)"
          using res all True by (cases r) auto
      qed (use all kept worked in auto)
    qed
  qed
qed

end

section \<open>The result of a call\<close>

definition flat_batches :: "('t keyGroup list \<times> 'r list) option list \<Rightarrow> ('r \<times> nat list) option list" where
  "flat_batches cs = concat (map (\<lambda>c. case c of None \<Rightarrow> []
     | Some (gs, vs) \<Rightarrow> map (\<lambda>(g, v). Some (v, kg_indexes g)) (zip gs vs)) cs)"

lemma fill_results_append: "fill_results (xs @ ys) rs = fill_results ys (fill_results xs rs)"
  by (induction xs rs rule: fill_results.induct) auto

lemma fill_batch_results: "fill_batch ps rs = fill_results (map (\<lambda>(g, v). Some (v, kg_indexes g)) ps) rs"
  by (induction ps rs rule: fill_batch.induct) auto

lemma fill_batches_results: "fill_batches cs rs = fill_results (flat_batches cs) rs"
  by (induction cs rs rule: fill_batches.induct)
     (simp_all add: flat_batches_def fill_results_append fill_batch_results)

lemma fills_flat:
  "fills (flat_batches cs) j v \<longleftrightarrow>
     (\<exists>gs vs g. Some (gs, vs) \<in> set cs \<and> (g, v) \<in> set (zip gs vs) \<and> j \<in> set (kg_indexes g))"
  by (fastforce simp: fills_def flat_batches_def split: option.splits prod.splits)

context cache_store
begin

lemma map_batches_result:
  fixes f :: "('t list, 'v list, 'u) work"
  assumes same_is: "\<And>k k'. same k k' = same_digest C k k'" and eg: "errgroup_spec eg"
    and opts: "bo_Store opts = store" and apart: "batches_apart C bs"
    and goods: "\<And>i g v. i < length bs \<Longrightarrow> g \<in> set (bt_groups (bs ! i)) \<Longrightarrow> batch_worked f (kg_item g) v \<Longrightarrow> good (kg_key g) v"
    and sound: "ok s" "healthy s"
    and run: "map_batches eg opts f c bs evs ls s u = Some (Inr rs, rep, s', u')"
    and ms: "ms = concat (map bt_groups bs)"
  shows "cr_Hits rep = ls_hits ls \<and> cr_Misses rep = ls_misses ls \<and> cr_Writes rep = length ms \<and>
    cr_WorkCalls rep = length bs \<and> length (cr_Outcomes rep) = length (ls_outcomes ls) \<and>
    map co_KeyDigest (cr_Outcomes rep) = map co_KeyDigest (ls_outcomes ls) \<and>
    length rs = length (ls_results ls) \<and>
    (\<forall>j < length (ls_results ls). j < length (ls_outcomes ls) \<longrightarrow>
       (if \<exists>g \<in> set ms. j \<in> set (kg_indexes g)
        then co_State (cr_Outcomes rep ! j) = CacheStored \<and>
          (\<exists>v. \<exists>g \<in> set ms. j \<in> set (kg_indexes g) \<and> rs ! j = Some v \<and> batch_published load f s' g v)
        else co_State (cr_Outcomes rep ! j) = co_State (ls_outcomes ls ! j)) \<and>
       ((\<exists>g \<in> set ms. j \<in> set (kg_indexes g)) \<or> rs ! j = ls_results ls ! j))"
proof -
  let ?S0 = "\<lparr>cm_cache = s, cm_outcomes = ls_outcomes ls, cm_writes = 0, cm_workCalls = 0, cm_user = u\<rparr>"
  let ?P = "batch_inv load (\<lambda>s. ok s \<and> healthy s) f bs (ls_outcomes ls)"
  have client: "map_client (batch_options_of opts) (batch_work store f) bs ?P"
    by (rule batch_client [OF same_is apart goods])
  from run obtain completed S where map: "bounded_Map eg (batch_options_of opts) (Some (batch_work store f)) c bs evs ?S0 = Some (Inr completed, S)"
    and out: "s' = cm_cache S" "rep = mk_report (ls_hits ls) (ls_misses ls) (cm_writes S) (cm_workCalls S) (cm_outcomes S)"
    and rs: "rs = fill_results (flat_batches completed) (ls_results ls)"
    by (auto simp: map_batches_def opts Let_def fill_batches_results split: option.splits sum.splits)
  have start: "?P [] ?S0" using sound by (simp add: batch_inv_def)
  from map_client.map_success [OF client eg start map] obtain cs where P: "?P cs S"
    and len: "length completed = length bs" and all: "mset (map fst cs) = mset [0 ..< length bs]"
    and good: "\<forall>c \<in> set cs. \<not> isl (snd c)" "outs_ok completed cs" by blast
  have n: "length cs = length bs" using all by (metis length_map length_upt diff_zero mset_eq_length)
  have "sum_list (map (\<lambda>c. length (bt_groups (bs ! fst c))) cs)
      = sum_list (map (\<lambda>b. length (bt_groups (bs ! b))) [0 ..< length bs])"
  proof -
    have "mset (map (\<lambda>b. length (bt_groups (bs ! b))) (map fst cs))
        = mset (map (\<lambda>b. length (bt_groups (bs ! b))) [0 ..< length bs])"
      using arg_cong [OF all, of "image_mset (\<lambda>b. length (bt_groups (bs ! b)))"] by (simp only: mset_map)
    from arg_cong [OF this, of sum_mset] show ?thesis by (simp only: sum_mset_sum_list map_map comp_def)
  qed
  also have "\<dots> = length ms" 
  proof -
    have "map (\<lambda>b. length (bt_groups (bs ! b))) [0 ..< length bs] = map (\<lambda>b. length (bt_groups b)) bs"
      by (rule nth_equalityI) simp_all
    then show ?thesis by (simp only: ms length_concat map_map comp_def)
  qed
  finally have writes: "cm_writes S = length ms" using P good(1) by (simp add: batch_inv_def)
  have slot: "\<exists>vs. completed ! i = Some (bt_groups (bs ! i), vs) \<and> length vs = length (bt_groups (bs ! i)) \<and>
      (\<forall>g v. (g, v) \<in> set (zip (bt_groups (bs ! i)) vs) \<longrightarrow> batch_published load f s' g v \<and>
        (\<forall>j \<in> set (kg_indexes g). j < length (ls_outcomes ls) \<longrightarrow> co_State (cm_outcomes S ! j) = CacheStored))"
    if "i < length bs" for i
  proof -
    from outs_filled [OF good(2,1) len all that] obtain r where "completed ! i = Some r" "(i, Inr r) \<in> set cs" by blast
    moreover obtain gs vs where "r = (gs, vs)" by (cases r)
    ultimately show ?thesis using P out(1) unfolding batch_inv_def by metis
  qed
  have filled: "\<exists>g \<in> set ms. j \<in> set (kg_indexes g) \<and> batch_published load f s' g v"
    if "fills (flat_batches completed) j v" for j v
  proof -
    from that obtain gs vs g where m: "Some (gs, vs) \<in> set completed" and
      z: "(g, v) \<in> set (zip gs vs)" "j \<in> set (kg_indexes g)" unfolding fills_flat by blast
    from m obtain i where "i < length bs" "completed ! i = Some (gs, vs)" using len by (metis in_set_conv_nth)
    note i = this z
    with slot [OF i(1)] have "gs = bt_groups (bs ! i)" "batch_published load f s' g v" by auto
    moreover have "g \<in> set gs" using i(3) by (rule set_zip_leftD)
    ultimately show ?thesis using i(1,4) by (auto simp: ms)
  qed
  have per: "(if \<exists>g \<in> set ms. j \<in> set (kg_indexes g)
        then co_State (cm_outcomes S ! j) = CacheStored \<and>
          (\<exists>v. \<exists>g \<in> set ms. j \<in> set (kg_indexes g) \<and> rs ! j = Some v \<and> batch_published load f s' g v)
        else co_State (cm_outcomes S ! j) = co_State (ls_outcomes ls ! j)) \<and>
       ((\<exists>g \<in> set ms. j \<in> set (kg_indexes g)) \<or> rs ! j = ls_results ls ! j)"
    if j: "j < length (ls_results ls)" "j < length (ls_outcomes ls)" for j
  proof (cases "\<exists>g \<in> set ms. j \<in> set (kg_indexes g)")
    case True
    then obtain i g where i: "i < length bs" "g \<in> set (bt_groups (bs ! i))" "j \<in> set (kg_indexes g)"
    proof -
      from True obtain b g where "b \<in> set bs" "g \<in> set (bt_groups b)" "j \<in> set (kg_indexes g)" unfolding ms by auto
      then show ?thesis using that by (metis in_set_conv_nth)
    qed
    from slot [OF i(1)] obtain vs where vs: "completed ! i = Some (bt_groups (bs ! i), vs)"
      "length vs = length (bt_groups (bs ! i))" and st: "\<And>g v. (g, v) \<in> set (zip (bt_groups (bs ! i)) vs) \<Longrightarrow>
        (\<forall>j \<in> set (kg_indexes g). j < length (ls_outcomes ls) \<longrightarrow> co_State (cm_outcomes S ! j) = CacheStored)" by blast
    obtain p where "p < length (bt_groups (bs ! i))" "bt_groups (bs ! i) ! p = g" using i(2) by (metis in_set_conv_nth)
    then have mem: "(g, vs ! p) \<in> set (zip (bt_groups (bs ! i)) vs)" using vs(2) by (auto simp: in_set_zip)
    have "Some (bt_groups (bs ! i), vs) \<in> set completed" using vs(1) i(1) len by (metis nth_mem)
    then have "fills (flat_batches completed) j (vs ! p)" unfolding fills_flat using mem i(3) by blast
    with fill_results_nth [OF j(1), of "flat_batches completed"] obtain w where
      w: "fills (flat_batches completed) j w" "rs ! j = Some w" unfolding rs by blast
    have "co_State (cm_outcomes S ! j) = CacheStored" using st [OF mem] i(3) j(2) by blast
    then show ?thesis using True filled [OF w(1)] w(2) by auto
  next
    case False
    then have "\<not> fills (flat_batches completed) j v" for v using filled by blast
    then have "rs ! j = ls_results ls ! j" using fill_results_nth [OF j(1), of "flat_batches completed"] rs by blast
    moreover have "co_State (cm_outcomes S ! j) = co_State (ls_outcomes ls ! j)"
    proof (rule ccontr)
      assume "co_State (cm_outcomes S ! j) \<noteq> co_State (ls_outcomes ls ! j)"
      then obtain b g where "b \<in> fst ` set cs" "g \<in> set (bt_groups (bs ! b))" "j \<in> set (kg_indexes g)"
        using P j(2) unfolding batch_inv_def by blast
      moreover from this(1) have "b < length bs" using P unfolding batch_inv_def by auto
      ultimately show False using False by (auto simp: ms)
    qed
    ultimately show ?thesis using False by simp
  qed
  have "length rs = length (ls_results ls)" by (simp add: rs fill_results_length)
  then show ?thesis using per P n writes by (simp add: out(2) mk_report_def batch_inv_def)
qed

text \<open>A call without an error, for a batch size that is a 64-bit integer and at least one.\<close>

lemma MapCachedBatches_result:
  fixes f :: "('t list, 'v list, 'u) work"
  assumes same_is: "\<And>k k'. same k k' = same_digest C k k'" and eg: "errgroup_spec eg"
    and opts: "bo_Store opts = store" "bo_Load opts = Some load" "bo_Key opts = Some key"
    and goods: "\<forall>x \<in> set xs. \<forall>k v. key x = Inr k \<longrightarrow> batch_worked f x v \<longrightarrow> good k v"
    and sound: "ok s" "healthy s"
    and run: "MapCachedBatches C eg opts (Some f) c xs evs s u = Some (Returns (Inr rs, rep, s', u'))"
  shows "length rs = length xs \<and> length (cr_Outcomes rep) = length xs \<and>
    cr_Hits rep + cr_Misses rep = length xs \<and>
    cr_Writes rep = card (missing C load key c xs s) \<and>
    cr_WorkCalls rep = (card (missing C load key c xs s) + nat (bo_BatchSize opts) - 1) div nat (bo_BatchSize opts) \<and>
    (\<forall>j < length xs. \<exists>v. rs ! j = Some v \<and>
       item_digest C key (xs ! j) = Some (co_KeyDigest (cr_Outcomes rep ! j)) \<and>
       (co_State (cr_Outcomes rep ! j) = CacheHit \<and> item_hit C load key c xs s j v \<or>
        co_State (cr_Outcomes rep ! j) = CacheStored \<and>
          (\<exists>i k. leader C key xs j i \<and> key (xs ! i) = Inr k \<and> load None k s' = Inr (Some v) \<and>
             batch_worked f (xs ! i) v)))"
proof -
  let ?sz = "nat (bo_BatchSize opts)" and ?os0 = "replicate (length xs) zero_outcome"
  have sz: "0 < ?sz" using run by (auto simp: MapCachedBatches_def opts Let_def split: if_splits)
  show ?thesis
  proof (cases "xs = []")
    case True
    then have "rs = [] \<and> rep = mk_report 0 0 0 0 []"
      using run by (auto simp: MapCachedBatches_def opts Let_def split: if_splits)
    then show ?thesis using True sz by (simp add: mk_report_def missing_def)
  next
    case False
    have size1: "\<not> bo_BatchSize opts < 1" using sz by simp
    obtain e os gs where g: "group_loop C key 0 xs (?os0, [], []) = (e, os, gs)" by (cases "group_loop C key 0 xs (?os0, [], [])")
    note unfold = run [unfolded MapCachedBatches_def Let_def opts option.case if_not_P [OF size1] if_not_P [OF False] g prod.case]
    have e: "e = None" using unfold by (cases e) simp_all
    let ?ls0 = "\<lparr>ls_results = replicate (length xs) None, ls_outcomes = os, ls_hits = 0, ls_misses = 0\<rparr>"
    obtain e2 ms ls u1 where l: "load_loop load None c s gs [] ?ls0 u = (e2, ms, ls, u1)"
      by (cases "load_loop load None c s gs [] ?ls0 u")
    note unfold2 = unfold [unfolded e option.case l prod.case]
    have e2: "e2 = None" using unfold2 by (cases e2) simp_all
    note unfold3 = unfold2 [unfolded e2 option.case] and G = g [unfolded e] and L = l [unfolded e2]
    have gs: "groups_ok C key xs (length xs) os gs"
      by (rule group_loop_ok [OF G, of xs]) (simp_all add: groups_ok_def index_ok_def)
    have ok: "misses_ok C key xs ms" using load_loop_ok [OF L] misses_ok_filter [OF gs] by simp
    have len: "length (ls_results ls) = length xs" "length (ls_outcomes ls) = length xs"
      using load_loop_ok [OF L] gs by (simp_all add: ls_frame_def groups_ok_def)
    show ?thesis
    proof (cases "ms = []")
      case True
      then have r: "rs = ls_results ls" "rep = mk_report (ls_hits ls) (ls_misses ls) 0 0 (ls_outcomes ls)"
        using unfold3 by simp_all
      note call_result [OF G L, of rep rs "\<lambda>_ _. False"]
      then show ?thesis using r True sz by (simp add: mk_report_def) blast
    next
      case ne: False
      then obtain bs where bl: "batch_loop (bo_Cost opts) ?sz ms 0 [] = Inr bs"
        and mb: "map_batches eg opts f c bs evs ls s u1 = Some (Inr rs, rep, s', u')"
        using unfold3 by (auto split: if_splits sum.splits)
      from batch_loop_ok [OF bl sz] have cc: "ms = concat (map bt_groups bs)"
        and nb: "length bs = (length ms + ?sz - 1) div ?sz" by auto
      have apart: "batches_apart C bs" using ok by (simp add: batches_apart_def misses_ok_def flip: cc)
      have grp: "\<exists>i < length xs. kg_item g = xs ! i \<and> key (xs ! i) = Inr (kg_key g)" if "g \<in> set ms" for g
        by (rule group_item [of C]) (use that ok in \<open>simp add: misses_ok_def\<close>)
      have gd: "good (kg_key g) v" if "i < length bs" "g \<in> set (bt_groups (bs ! i))" "batch_worked f (kg_item g) v" for i g v
      proof -
        have "g \<in> set ms" using that(1,2) by (auto simp: cc)
        from grp [OF this] obtain k where "k < length xs" "kg_item g = xs ! k" "key (xs ! k) = Inr (kg_key g)" by blast
        then show ?thesis using goods that(3) by (metis nth_mem)
      qed
      note res = map_batches_result [OF same_is eg opts(1) apart gd sound mb cc]
      have stored: "\<exists>i k. leader C key xs j i \<and> key (xs ! i) = Inr k \<and> load None k s' = Inr (Some v) \<and> batch_worked f (xs ! i) v"
        if "g \<in> set ms" "j \<in> set (kg_indexes g)" "batch_published load f s' g v" for g j v
      proof -
        have "group_ok C key xs (length xs) g" using ok that(1) by (simp add: misses_ok_def)
        from group_leader [OF this that(2)] that(3) show ?thesis unfolding batch_published_def by metis
      qed
      have "length rs = length xs \<and> length (cr_Outcomes rep) = length xs \<and>
        cr_Hits rep + cr_Misses rep = length xs \<and> length ms = card (missing C load key c xs s) \<and>
        (\<forall>j < length xs. \<exists>v. rs ! j = Some v \<and>
           item_digest C key (xs ! j) = Some (co_KeyDigest (cr_Outcomes rep ! j)) \<and>
           (co_State (cr_Outcomes rep ! j) = CacheHit \<and> item_hit C load key c xs s j v \<or>
            co_State (cr_Outcomes rep ! j) = CacheStored \<and>
              (\<exists>g \<in> set ms. j \<in> set (kg_indexes g) \<and> batch_published load f s' g v) \<and>
              (\<exists>i \<in> missing C load key c xs s. leader C key xs j i)))"
        by (rule call_result [OF G L]) (use res len in auto)
      note cr = this
      have "\<exists>v. rs ! j = Some v \<and>
       item_digest C key (xs ! j) = Some (co_KeyDigest (cr_Outcomes rep ! j)) \<and>
       (co_State (cr_Outcomes rep ! j) = CacheHit \<and> item_hit C load key c xs s j v \<or>
        co_State (cr_Outcomes rep ! j) = CacheStored \<and>
          (\<exists>i k. leader C key xs j i \<and> key (xs ! i) = Inr k \<and> load None k s' = Inr (Some v) \<and>
             batch_worked f (xs ! i) v))" if "j < length xs" for j
        using cr stored that by blast
      then show ?thesis using cr res nb by simp
    qed
  qed
qed

end

section \<open>Properties\<close>

definition batches_on_file_cache :: "'v codec \<Rightarrow> FileCache \<Rightarrow> ('t \<Rightarrow> Key result) \<Rightarrow> ('t, 'v, disk, 'u) batch_options \<Rightarrow> bool" where
  "batches_on_file_cache C fc key opts \<longleftrightarrow> bo_Store opts = FileCache_Store C (Some fc) \<and>
     bo_Load opts = Some (FileCache_Load C (Some fc) False) \<and> bo_Key opts = Some key"

text \<open>C30. A call of \<open>MapCachedBatches\<close> on a file cache that returns without an error, under
  every interleaving: every input gets the value of its key's entry, or the value the batch
  work gave at the position of the first input with that key's digest, and that value is in
  the cache afterwards. Every digest that was not found is stored once, and the number of
  work calls is the least that batches of that size allow.\<close>

theorem batches_aligned:
  fixes f :: "('t list, 'v list, 'u) work"
  assumes "errgroup_spec eg" and "batches_on_file_cache C fc key opts"
    and "\<forall>x \<in> set xs. \<forall>k v. key x = Inr k \<longrightarrow> batch_worked f x v \<longrightarrow> json_law C k v"
    and "disk_ok C d" and "disk_healthy fc d"
    and "MapCachedBatches C eg opts (Some f) c xs evs d u = Some (Returns (Inr rs, rep, d', u'))"
  shows "length rs = length xs \<and> length (cr_Outcomes rep) = length xs \<and>
    cr_Hits rep + cr_Misses rep = length xs \<and>
    cr_Writes rep = card (missing C (FileCache_Load C (Some fc) False) key c xs d) \<and>
    cr_WorkCalls rep = (cr_Writes rep + nat (bo_BatchSize opts) - 1) div nat (bo_BatchSize opts) \<and>
    (\<forall>j < length xs. \<exists>v. rs ! j = Some v \<and>
       item_digest C key (xs ! j) = Some (co_KeyDigest (cr_Outcomes rep ! j)) \<and>
       (co_State (cr_Outcomes rep ! j) = CacheHit \<and>
          item_hit C (FileCache_Load C (Some fc) False) key c xs d j v \<or>
        co_State (cr_Outcomes rep ! j) = CacheStored \<and>
          (\<exists>i k. leader C key xs j i \<and> key (xs ! i) = Inr k \<and>
             FileCache_Load C (Some fc) False None k d' = Inr (Some v) \<and> batch_worked f (xs ! i) v)))"
  using file_cache.MapCachedBatches_result [OF refl assms(1) _ _ _ assms(3-6)] assms(2)
  unfolding batches_on_file_cache_def by simp

definition demo_batched :: "int \<Rightarrow> (string, string, disk, nat) batch_options" where
  "demo_batched n = \<lparr>bo_Workers = 2, bo_Limiter = None, bo_Cost = None, bo_BatchSize = n,
     bo_Load = Some (FileCache_Load sealed_codec (Some demo_cache) False),
     bo_Store = FileCache_Store sealed_codec (Some demo_cache), bo_Key = Some (\<lambda>x. Inr demo_key)\<rparr>"

definition echo_batch :: "(string list, string list, nat) work" where
  "echo_batch c xs n = (Inr xs, Suc n)"

theorem batches_aligned_witness:
  "\<exists>rep d'. MapCachedBatches sealed_codec first_group (demo_batched 3) (Some echo_batch) None [''a'', ''b'']
      [FeedTo 0, Admit 0, Finish 0, FeedClose, Drain 0] demo_disk 0 = Some (Returns (Inr [Some ''a'', Some ''a''], rep, d', 1))
    \<and> cr_Hits rep + cr_Misses rep = 2 \<and> cr_WorkCalls rep = (cr_Writes rep + 2) div 3"
proof -
  have "case MapCachedBatches sealed_codec first_group (demo_batched 3) (Some echo_batch) None
        [''a'', ''b''] [FeedTo 0, Admit 0, Finish 0, FeedClose, Drain 0] demo_disk 0 of
      Some (Returns (r, rep, d', u')) \<Rightarrow> (r, u') = (Inr [Some ''a'', Some ''a''], 1) | _ \<Rightarrow> False"
    by code_simp
  then obtain rep d' where run: "MapCachedBatches sealed_codec first_group (demo_batched 3) (Some echo_batch) None
      [''a'', ''b''] [FeedTo 0, Admit 0, Finish 0, FeedClose, Drain 0] demo_disk 0
        = Some (Returns (Inr [Some ''a'', Some ''a''], rep, d', 1))"
    by (auto split: option.splits call.splits prod.splits)
  have on: "batches_on_file_cache sealed_codec demo_cache (\<lambda>x. Inr demo_key) (demo_batched 3)"
    by (simp add: batches_on_file_cache_def demo_batched_def)
  have good: "\<forall>x \<in> set [''a'', ''b'']. \<forall>k v. Inr demo_key = Inr k \<longrightarrow> batch_worked echo_batch x v \<longrightarrow> json_law sealed_codec k v"
    using demo_json_law by auto
  have "bo_BatchSize (demo_batched 3) = 3" by (simp add: demo_batched_def)
  then show ?thesis using batches_aligned [OF first_group_spec on good demo_disk_ok run] run by simp
qed

text \<open>The capacity overflows for the largest batch sizes: two missing keys and the largest
  \<open>int\<close> as the batch size panic, where one batch would do.\<close>

lemma batches_cap_overflow: "batches_cap (2 ^ 63 - 1) 2 < 0"
  by code_simp

end
