(* ===== verification/Observe.thy ===== *)
theory Observe
  imports Report "HOL-Library.Word"
begin

text \<open>
  Observation of a run: \<open>src/flow/observe.go\<close> and the types \<open>Snapshot\<close>, \<open>Reporter\<close>,
  \<open>Event\<close> and \<open>Ledger\<close> of \<open>src/flow/report.go\<close>.

  The reporter, the ledger and the clocks are the caller's: functions on the caller's state
  \<open>'u\<close>. The \<open>observationState\<close> that the copies of \<open>Options\<close> share by pointer is passed
  along; \<open>None\<close> is the \<open>nil\<close> pointer. A time is its instant in nanoseconds, and the zero
  time of an event is \<open>None\<close>. The goroutine of \<open>startPeriodicReporter\<close> is the list of the
  reports it finds at its ticks before it is stopped.
\<close>

type_synonym time = int

record Snapshot =
  sn_Sequence :: "64 word"
  sn_StartedAt :: time
  sn_UpdatedAt :: time
  sn_Total :: int
  sn_Terminal :: bool
  sn_Report :: report

type_synonym EventType = string

definition EventRunStarted :: EventType where "EventRunStarted = ''run_started''"
definition EventStepStarted :: EventType where "EventStepStarted = ''step_started''"
definition EventStepCompleted :: EventType where "EventStepCompleted = ''step_completed''"
definition EventRunCompleted :: EventType where "EventRunCompleted = ''run_completed''"
definition EventRunFailed :: EventType where "EventRunFailed = ''run_failed''"
definition EventHit :: EventType where "EventHit = ''hit''"
definition EventStored :: EventType where "EventStored = ''stored''"
definition EventDone :: EventType where "EventDone = ''done''"
definition EventRetry :: EventType where "EventRetry = ''retry''"
definition EventQuarantined :: EventType where "EventQuarantined = ''quarantined''"
definition EventSkipped :: EventType where "EventSkipped = ''skipped''"

lemmas event_type_defs = EventRunStarted_def EventStepStarted_def EventStepCompleted_def
  EventRunCompleted_def EventRunFailed_def EventHit_def EventStored_def EventDone_def
  EventRetry_def EventQuarantined_def EventSkipped_def

record Event =
  ev_At :: "time option"
  ev_Step :: string
  ev_Index :: int
  ev_Type :: EventType
  ev_Class :: string
  ev_Attempt :: int
  ev_Total :: int
  ev_Error :: "err option"

definition zero_event :: Event where
  "zero_event = \<lparr>ev_At = None, ev_Step = [], ev_Index = 0, ev_Type = [], ev_Class = [],
     ev_Attempt = 0, ev_Total = 0, ev_Error = None\<rparr>"

type_synonym 'u Reporter = "ctx \<Rightarrow> Snapshot \<Rightarrow> 'u \<Rightarrow> err option \<times> 'u"
type_synonym 'u Ledger = "ctx \<Rightarrow> Event \<Rightarrow> 'u \<Rightarrow> err option \<times> 'u"

record observationState =
  ob_sequence :: "64 word"
  ob_startedAt :: time

text \<open>The part of \<open>Options\<close> that observation uses; \<open>oo_wall\<close> is \<open>time.Now\<close>.\<close>

record 'u obs_options =
  oo_Reporter :: "'u Reporter option"
  oo_Ledger :: "'u Ledger option"
  oo_ReportInterval :: duration
  oo_Clock :: "('u \<Rightarrow> time \<times> 'u) option"
  oo_wall :: "'u \<Rightarrow> time \<times> 'u"

section \<open>Operations\<close>

definition now :: "'u obs_options \<Rightarrow> 'u \<Rightarrow> time \<times> 'u" where
  "now opts u = (case oo_Clock opts of Some clock \<Rightarrow> clock u | None \<Rightarrow> oo_wall opts u)"

definition withObservation :: "'u obs_options \<Rightarrow> observationState option \<Rightarrow> 'u \<Rightarrow> observationState option \<times> 'u" where
  "withObservation opts ob u =
     (case ob of
        Some _ \<Rightarrow> (ob, u)
      | None \<Rightarrow> (case now opts u of (t, u') \<Rightarrow> (Some \<lparr>ob_sequence = 0, ob_startedAt = t\<rparr>, u')))"

definition obs_snapshot :: "'u obs_options \<Rightarrow> report \<Rightarrow> int \<Rightarrow> bool \<Rightarrow> observationState option \<Rightarrow> 'u \<Rightarrow>
    Snapshot \<times> observationState option \<times> 'u" where
  "obs_snapshot opts rep tot terminal ob u =
     (let (st, u1) = (case ob of
            Some st \<Rightarrow> (st, u)
          | None \<Rightarrow> (case now opts u of (t, u') \<Rightarrow> (\<lparr>ob_sequence = 0, ob_startedAt = t\<rparr>, u')));
          st' = st\<lparr>ob_sequence := ob_sequence st + 1\<rparr>;
          (t, u2) = now opts u1
      in (\<lparr>sn_Sequence = ob_sequence st', sn_StartedAt = ob_startedAt st', sn_UpdatedAt = t,
           sn_Total = tot, sn_Terminal = terminal, sn_Report = report_Clone rep\<rparr>,
          (case ob of None \<Rightarrow> None | Some _ \<Rightarrow> Some st'), u2))"

definition publish :: "'u obs_options \<Rightarrow> ctx \<Rightarrow> report \<Rightarrow> int \<Rightarrow> bool \<Rightarrow> observationState option \<Rightarrow> 'u \<Rightarrow>
    err option \<times> observationState option \<times> 'u" where
  "publish opts c rep tot terminal ob u =
     (case oo_Reporter opts of
        None \<Rightarrow> (None, ob, u)
      | Some reporter \<Rightarrow>
          (case obs_snapshot opts rep tot terminal ob u of
             (snap, ob', u1) \<Rightarrow>
               (case reporter c snap u1 of
                  (Some e, u2) \<Rightarrow> (Some (Errorf ''progress reporter: %w'' [] (Some e)), ob', u2)
                | (None, u2) \<Rightarrow> (None, ob', u2))))"

text \<open>The terminal report gets a context of its own that is not cancelled.\<close>

definition publishTerminal :: "'u obs_options \<Rightarrow> report \<Rightarrow> int \<Rightarrow> observationState option \<Rightarrow> 'u \<Rightarrow>
    err option \<times> observationState option \<times> 'u" where
  "publishTerminal opts rep tot ob u =
     (case oo_Reporter opts of None \<Rightarrow> (None, ob, u) | Some _ \<Rightarrow> publish opts None rep tot True ob u)"

definition emitLedger :: "'u obs_options \<Rightarrow> ctx \<Rightarrow> Event \<Rightarrow> 'u \<Rightarrow> err option \<times> 'u" where
  "emitLedger opts c ev u =
     (case oo_Ledger opts of
        None \<Rightarrow> (None, u)
      | Some ledger \<Rightarrow>
          (let (ev', u1) = (case ev_At ev of
                 Some _ \<Rightarrow> (ev, u)
               | None \<Rightarrow> (case now opts u of (t, u') \<Rightarrow> (ev\<lparr>ev_At := Some t\<rparr>, u')))
           in case ledger c ev' u1 of
               (Some e, u2) \<Rightarrow> (Some (Errorf ''ledger event: %w'' [] (Some e)), u2)
             | (None, u2) \<Rightarrow> (None, u2)))"

text \<open>The periodic reporter: at each tick it publishes the report of the moment, and an error
  ends it and is what the stop function returns.\<close>

fun report_ticks :: "'u obs_options \<Rightarrow> int \<Rightarrow> report list \<Rightarrow> observationState option \<Rightarrow> 'u \<Rightarrow>
    err option \<times> observationState option \<times> 'u" where
  "report_ticks opts tot [] ob u = (None, ob, u)"
| "report_ticks opts tot (rep # reps) ob u =
     (case publish opts None rep tot False ob u of
        (Some e, ob', u') \<Rightarrow> (Some e, ob', u')
      | (None, ob', u') \<Rightarrow> report_ticks opts tot reps ob' u')"

definition startPeriodicReporter :: "'u obs_options \<Rightarrow> int \<Rightarrow> report list \<Rightarrow> observationState option \<Rightarrow> 'u \<Rightarrow>
    err option \<times> observationState option \<times> 'u" where
  "startPeriodicReporter opts tot reps ob u =
     (if oo_Reporter opts = None \<or> oo_ReportInterval opts \<le> 0 then (None, ob, u)
      else report_ticks opts tot reps ob u)"

section \<open>The snapshots of a run\<close>

text \<open>A reporter that notes the snapshots it is given before it hands them on.\<close>

definition recording :: "'u obs_options \<Rightarrow> (Snapshot list \<times> 'u) obs_options" where
  "recording opts =
     \<lparr>oo_Reporter = map_option (\<lambda>r c snap (log, u). case r c snap u of (e, u') \<Rightarrow> (e, log @ [snap], u')) (oo_Reporter opts),
      oo_Ledger = map_option (\<lambda>l c ev (log, u). case l c ev u of (e, u') \<Rightarrow> (e, log, u')) (oo_Ledger opts),
      oo_ReportInterval = oo_ReportInterval opts,
      oo_Clock = map_option (\<lambda>clock (log, u). case clock u of (t, u') \<Rightarrow> (t, log, u')) (oo_Clock opts),
      oo_wall = (\<lambda>(log, u). case oo_wall opts u of (t, u') \<Rightarrow> (t, log, u'))\<rparr>"

lemma now_recording: "\<exists>t u'. now (recording opts) (log, u) = (t, log, u')"
  by (cases "oo_Clock opts") (auto simp: now_def recording_def split: prod.splits)

text \<open>The log belongs to one run: it is numbered from one, with one start time, and the
  state of the observation is at its last number.\<close>

definition log_of_run :: "time \<Rightarrow> Snapshot list \<Rightarrow> observationState option \<Rightarrow> bool" where
  "log_of_run t log ob \<longleftrightarrow>
     ob = Some \<lparr>ob_sequence = of_nat (length log), ob_startedAt = t\<rparr> \<and>
     map sn_Sequence log = map of_nat [1 ..< Suc (length log)] \<and> (\<forall>s \<in> set log. sn_StartedAt s = t)"

lemma publish_log:
  assumes "publish (recording opts) c rep tot terminal ob (log, u) = (r, ob', log', u')"
    and "oo_Reporter opts \<noteq> None" and "log_of_run t log ob"
  shows "\<exists>snap. log' = log @ [snap] \<and> sn_Report snap = report_Clone rep \<and> sn_Total snap = tot \<and>
    sn_Terminal snap = terminal \<and> log_of_run t log' ob'"
proof -
  obtain f where f: "oo_Reporter opts = Some f" using assms(2) by blast
  obtain t1 u1 where n: "now (recording opts) (log, u) = (t1, log, u1)"
    using now_recording [of opts log u] by auto
  let ?snap = "\<lparr>sn_Sequence = of_nat (length log) + 1, sn_StartedAt = t, sn_UpdatedAt = t1,
    sn_Total = tot, sn_Terminal = terminal, sn_Report = report_Clone rep\<rparr>"
  have ob: "ob = Some \<lparr>ob_sequence = of_nat (length log), ob_startedAt = t\<rparr>" using assms(3) by (simp add: log_of_run_def)
  have "oo_Reporter (recording opts) = Some (\<lambda>c snap (log, u). case f c snap u of (e, u') \<Rightarrow> (e, log @ [snap], u'))"
    by (simp add: recording_def f)
  then have "log' = log @ [?snap] \<and> ob' = Some \<lparr>ob_sequence = of_nat (length log) + 1, ob_startedAt = t\<rparr>"
    using assms(1) n by (auto simp: publish_def obs_snapshot_def ob Let_def split: prod.splits option.splits)
  moreover from this have "log_of_run t log' ob'" using assms(3) by (auto simp: log_of_run_def add.commute)
  ultimately show ?thesis by auto
qed

lemma ticks_log:
  "report_ticks (recording opts) tot reps ob (log, u) = (r, ob', log', u') \<Longrightarrow> oo_Reporter opts \<noteq> None \<Longrightarrow>
     log_of_run t log ob \<Longrightarrow>
     \<exists>new. log' = log @ new \<and> length new \<le> length reps \<and>
       map sn_Report new = map report_Clone (take (length new) reps) \<and>
       (\<forall>s \<in> set new. \<not> sn_Terminal s \<and> sn_Total s = tot) \<and> log_of_run t log' ob'"
proof (induction reps arbitrary: ob log u)
  case (Cons rep reps)
  obtain r1 ob1 log1 u1 where p: "publish (recording opts) None rep tot False ob (log, u) = (r1, ob1, log1, u1)"
    by (cases "publish (recording opts) None rep tot False ob (log, u)") auto
  from publish_log [OF p Cons.prems(2,3)] obtain snap where snap: "log1 = log @ [snap]"
    "sn_Report snap = report_Clone rep" "sn_Total snap = tot" "\<not> sn_Terminal snap" "log_of_run t log1 ob1" by auto
  show ?case
  proof (cases r1)
    case None
    with Cons.prems(1) p have "report_ticks (recording opts) tot reps ob1 (log1, u1) = (r, ob', log', u')" by simp
    from Cons.IH [OF this Cons.prems(2) snap(5)] obtain new where new: "log' = log1 @ new" "length new \<le> length reps"
      "map sn_Report new = map report_Clone (take (length new) reps)"
      "\<forall>s \<in> set new. \<not> sn_Terminal s \<and> sn_Total s = tot" "log_of_run t log' ob'" by blast
    show ?thesis by (rule exI [of _ "snap # new"]) (use snap new in auto)
  next
    case (Some e)
    with Cons.prems(1) p have "log' = log1" "ob' = ob1" by simp_all
    then show ?thesis using snap by (intro exI [of _ "[snap]"]) auto
  qed
qed simp

lemma start_log:
  assumes "withObservation (recording opts) None ([], u) = (ob, log, u')"
  shows "\<exists>t. log = [] \<and> log_of_run t [] ob"
proof -
  obtain t u1 where "now (recording opts) ([], u) = (t, [], u1)"
    using now_recording [of opts "[]" u] by auto
  then show ?thesis using assms by (auto simp: withObservation_def log_of_run_def)
qed


text \<open>The reporter of the witness takes everything; the clock counts its readings.\<close>

definition demo_obs :: "int obs_options" where
  "demo_obs = \<lparr>oo_Reporter = Some (\<lambda>c s u. (None, u)), oo_Ledger = None, oo_ReportInterval = second,
     oo_Clock = None, oo_wall = (\<lambda>n. (n, n + 1))\<rparr>"


end
