(* ===== verification/Step_Runner.thy ===== *)
theory Step_Runner
  imports Cached_Map Run_Env Observe
begin

text \<open>
  The engine of a plain step: \<open>typedRunner\<close> of \<open>src/flow/run.go\<close>, with the type \<open>Step\<close> of
  \<open>src/flow/step.go\<close>.

  One item goes through \<open>process\<close>: uncached work, or one of the two sides of an in-flight
  call (\<open>lead\<close> and \<open>follow\<close>). What the goroutines of a stage share is \<open>flow_state\<close>: the
  counters and meters of the report, the store, the budgets and limiters, and the state
  \<open>'u\<close> of the caller's functions (work, meters, hooks, ledger, clock). The caller's context
  is \<open>lctx\<close> of the limiters' world; what the rest of the program does to it and to the
  limiters meanwhile is a list of \<open>moment\<close>s: one is taken wherever the code reads the
  context or waits, so a result for every list is a result for every interleaving. \<open>m_timer\<close>
  is the choice of a \<open>select\<close> whose cases are both ready. \<open>None\<close> is an admission that does not
  end within its moment. \<open>fl_sleeps\<close> notes the pauses of the retry loop, which last no time
  here. The log line of a failed call is left out.
\<close>

section \<open>Steps and their options\<close>

record ('i, 'o, 'u) step =
  fs_Name :: string
  fs_Identity :: "'i Identity"
  fs_Policy :: "float64 policy"
  fs_Barrier :: bool
  fs_Do :: "(ctx \<Rightarrow> 'i \<Rightarrow> 'u \<Rightarrow> 'o \<times> err option \<times> 'u) option"
  fs_Meter :: "('o \<Rightarrow> meters) option"
  fs_AttemptMeter :: "('o \<Rightarrow> err option \<Rightarrow> meters) option"
  fs_OnResult :: "(ctx \<Rightarrow> int \<Rightarrow> 'o \<Rightarrow> CacheOutcome \<Rightarrow> 'u \<Rightarrow> err option \<times> 'u) option"

record ('o, 's) store_ops =
  so_Load :: "ctx \<Rightarrow> Key \<Rightarrow> 's \<Rightarrow> 'o option result"
  so_Store :: "ctx \<Rightarrow> Key \<Rightarrow> 'o \<Rightarrow> 's \<Rightarrow> err option \<times> 's"

text \<open>The fields of \<open>Options\<close> a runner uses; \<open>fo_int63n\<close> is the source of the jitter.\<close>

record ('o, 's, 'c, 'u) flow_options =
  fo_Store :: "('o, 's) store_ops option"
  fo_obs :: "'u obs_options"
  fo_env :: run_env
  fo_custom :: "'c custom_wait"
  fo_int63n :: "'u \<Rightarrow> int \<Rightarrow> int"

record ('i, 'o, 's, 'c, 'u) typed_runner =
  tr_step :: "('i, 'o, 'u) step"
  tr_options :: "('o, 's, 'c, 'u) flow_options"
  tr_classifier :: "err \<Rightarrow> ErrorClass"
  tr_backoff :: backoff_spec
  tr_attempts :: int
  tr_workers :: int
  tr_resources :: "string list"

definition newTypedRunner :: "('i, 'o, 'u) step \<Rightarrow> ('o, 's, 'c, 'u) flow_options \<Rightarrow>
    ('i, 'o, 's, 'c, 'u) typed_runner result" where
  "newTypedRunner s opts =
     (if fs_Name s = [] then Inl (Errorf ''every step needs a name'' [] None)
      else if fs_Do s = None then Inl (Errorf ''step %q has no Do function'' [FStr (fs_Name s)] None)
      else if fs_Meter s \<noteq> None \<and> fs_AttemptMeter s \<noteq> None
      then Inl (Errorf ''step %q cannot set both Meter and AttemptMeter'' [FStr (fs_Name s)] None)
      else let retry = Retry (fs_Policy s); workers = po_Workers (fs_Policy s) in
        Inr \<lparr>tr_step = s, tr_options = opts,
             tr_classifier = (case Class retry of None \<Rightarrow> (\<lambda>e. DefaultClassifier (Some e)) | Some f \<Rightarrow> f),
             tr_backoff = withDefaults (Backoff retry),
             tr_attempts = (if Attempts retry < 1 then 1 else Attempts retry),
             tr_workers = (if workers < 1 then 1 else workers),
             tr_resources = map rs_Name (Admission (fs_Policy s))\<rparr>)"

section \<open>The shared state\<close>

record moment =
  m_before :: "wait_event list"
  m_waits :: "wait_event list"
  m_timer :: bool

definition quiet :: moment where "quiet = \<lparr>m_before = [], m_waits = [], m_timer = True\<rparr>"

record ('s, 'c, 'u) flow_state =
  fl_counts :: StepReport
  fl_meters :: meters
  fl_store :: 's
  fl_world :: "'c lworld"
  fl_user :: 'u
  fl_moments :: "moment list"
  fl_sleeps :: "duration list"

definition advance :: "('s, 'c, 'u) flow_state \<Rightarrow> moment \<times> ('s, 'c, 'u) flow_state" where
  "advance S =
     (case fl_moments S of
        [] \<Rightarrow> (quiet, S)
      | m # ms \<Rightarrow> (m, S\<lparr>fl_moments := ms, fl_world := fold env_event (m_before m) (fl_world S)\<rparr>))"

text \<open>Reading the context.\<close>

definition observe :: "('s, 'c, 'u) flow_state \<Rightarrow> ctx \<times> ('s, 'c, 'u) flow_state" where
  "observe S = (let S' = snd (advance S) in (lctx (fl_world S'), S'))"

definition update_counts :: "(StepReport \<Rightarrow> StepReport) \<Rightarrow> ('s, 'c, 'u) flow_state \<Rightarrow> ('s, 'c, 'u) flow_state" where
  "update_counts f S = S\<lparr>fl_counts := f (fl_counts S)\<rparr>"

definition runner_report :: "('i, 'o, 's, 'c, 'u) typed_runner \<Rightarrow> ('s, 'c, 'u) flow_state \<Rightarrow> report" where
  "runner_report r S =
     (let counts = fl_counts S;
          counts = (if fl_meters S \<noteq> [] then counts\<lparr>Meters := Meters_Add [] (fl_meters S)\<rparr> else counts)
      in [(fs_Name (tr_step r),
           counts\<lparr>Spend := env_snapshot (fo_env (tr_options r)) (fl_world S) (tr_resources r)\<rparr>)])"

section \<open>Items\<close>

record 'v erasedItem =
  er_index :: int
  er_value :: "'v option"
  er_outcome :: CacheOutcome
  er_quarantined :: "item_error option"
  er_skipped :: bool

definition erased :: "int \<Rightarrow> 'v erasedItem" where
  "erased i = \<lparr>er_index = i, er_value = None, er_outcome = zero_outcome, er_quarantined = None, er_skipped = False\<rparr>"

definition flagged :: "'v erasedItem \<Rightarrow> bool" where
  "flagged it \<longleftrightarrow> er_quarantined it \<noteq> None \<or> er_skipped it"

text \<open>The error texts of a step and an item of it.\<close>

definition step_error :: "('i, 'o, 's, 'c, 'u) typed_runner \<Rightarrow> string \<Rightarrow> int \<Rightarrow> farg list \<Rightarrow> err option \<Rightarrow> err" where
  "step_error r text i args e =
     Errorf (''step %q item %d'' @ text) ([FStr (fs_Name (tr_step r)), FInt i] @ args) e"

section \<open>Hooks and events\<close>

definition notify :: "('i, 'o, 's, 'c, 'u) typed_runner \<Rightarrow> int \<Rightarrow> 'o \<Rightarrow> CacheOutcome \<Rightarrow>
    ('s, 'c, 'u) flow_state \<Rightarrow> err option \<times> ('s, 'c, 'u) flow_state" where
  "notify r i v oc S =
     (case fs_OnResult (tr_step r) of
        None \<Rightarrow> (None, S)
      | Some hook \<Rightarrow>
          (case observe S of (c, S1) \<Rightarrow>
             (case hook c i v oc (fl_user S1) of
                (Some e, u) \<Rightarrow> (Some (step_error r '': result hook: %w'' i [] (Some e)), S1\<lparr>fl_user := u\<rparr>)
              | (None, u) \<Rightarrow> (None, S1\<lparr>fl_user := u\<rparr>))))"

definition event :: "('i, 'o, 's, 'c, 'u) typed_runner \<Rightarrow> Event \<Rightarrow> ('s, 'c, 'u) flow_state \<Rightarrow>
    err option \<times> ('s, 'c, 'u) flow_state" where
  "event r ev S =
     (case observe S of (c, S1) \<Rightarrow>
        (case emitLedger (fo_obs (tr_options r)) c (ev\<lparr>ev_Step := fs_Name (tr_step r)\<rparr>) (fl_user S1) of
           (Some e, u) \<Rightarrow> (Some (Errorf ''step %q: %w'' [FStr (fs_Name (tr_step r))] (Some e)), S1\<lparr>fl_user := u\<rparr>)
         | (None, u) \<Rightarrow> (None, S1\<lparr>fl_user := u\<rparr>)))"

text \<open>Both in the order the code has them: the event, then the hook.\<close>

definition event_then_notify :: "('i, 'o, 's, 'c, 'u) typed_runner \<Rightarrow> Event \<Rightarrow> int \<Rightarrow> 'o \<Rightarrow> CacheOutcome \<Rightarrow>
    ('s, 'c, 'u) flow_state \<Rightarrow> err option \<times> ('s, 'c, 'u) flow_state" where
  "event_then_notify r ev i v oc S =
     (case event r ev S of (Some e, S1) \<Rightarrow> (Some e, S1) | (None, S1) \<Rightarrow> notify r i v oc S1)"

text \<open>The checked addition to the meters of the stage.\<close>

definition meter :: "('i, 'o, 's, 'c, 'u) typed_runner \<Rightarrow> int \<Rightarrow> meters \<Rightarrow> ('s, 'c, 'u) flow_state \<Rightarrow>
    err option \<times> ('s, 'c, 'u) flow_state" where
  "meter r i metered S =
     (case AddChecked (fl_meters S) metered of
        (Some e, ms) \<Rightarrow> (Some (step_error r '': %w'' i [] (Some e)), S\<lparr>fl_meters := ms\<rparr>)
      | (None, ms) \<Rightarrow> (None, S\<lparr>fl_meters := ms\<rparr>))"

section \<open>The end of an item: \<open>success\<close> and \<open>fail\<close>\<close>

text \<open>\<open>key\<close> is \<open>None\<close> for an uncached step. The store runs under \<open>context.WithoutCancel\<close>.\<close>

definition success :: "('i, 'o, 's, 'c, 'u) typed_runner \<Rightarrow> int \<Rightarrow> 'o \<Rightarrow> Key option \<Rightarrow> string \<Rightarrow>
    ('s, 'c, 'u) flow_state \<Rightarrow> 'o erasedItem result \<times> ('s, 'c, 'u) flow_state" where
  "success r i v key dig S =
     (case (case fs_Meter (tr_step r) of None \<Rightarrow> (None, S) | Some f \<Rightarrow> meter r i (f v) S) of
        (Some e, S1) \<Rightarrow> (Inl e, S1)
      | (None, S1) \<Rightarrow>
          let finish = (\<lambda>oc ty S2.
                (case event_then_notify r (zero_event\<lparr>ev_Index := i, ev_Type := ty\<rparr>) i v oc S2 of
                   (Some e, S3) \<Rightarrow> (Inl e, S3)
                 | (None, S3) \<Rightarrow> (Inr ((erased i)\<lparr>er_value := Some v, er_outcome := oc\<rparr>), S3)))
          in (case (key, fo_Store (tr_options r)) of
                (Some k, Some ops) \<Rightarrow>
                  (case so_Store ops None k v (fl_store S1) of
                     (Some e, s') \<Rightarrow>
                       (Inl (step_error r '': store cache entry: %w'' i [] (Some e)), S1\<lparr>fl_store := s'\<rparr>)
                   | (None, s') \<Rightarrow>
                       finish \<lparr>co_KeyDigest = dig, co_State = CacheStored\<rparr> EventStored
                         (update_counts (\<lambda>c. c\<lparr>Stored := Stored c + 1\<rparr>) (S1\<lparr>fl_store := s'\<rparr>)))
              | _ \<Rightarrow> finish zero_outcome EventDone S1))"

definition fail :: "('i, 'o, 's, 'c, 'u) typed_runner \<Rightarrow> int \<Rightarrow> err \<Rightarrow> ErrorClass \<Rightarrow> int \<Rightarrow>
    ('s, 'c, 'u) flow_state \<Rightarrow> 'o erasedItem result \<times> ('s, 'c, 'u) flow_state" where
  "fail r i cause class attempts S =
     (let mode = OnError (fs_Policy (tr_step r));
          ev = zero_event\<lparr>ev_Index := i, ev_Class := class_String class, ev_Error := Some cause\<rparr> in
      if class = Fatal \<or> mode = FailFast
      then (Inl (step_error r '' [%s]: %w'' i [FStr (class_String class)] (Some cause)), S)
      else if mode = Skip_item
      then (case event r (ev\<lparr>ev_Type := EventSkipped\<rparr>) (update_counts (\<lambda>c. c\<lparr>Skipped := Skipped c + 1\<rparr>) S) of
              (Some e, S1) \<Rightarrow> (Inl e, S1)
            | (None, S1) \<Rightarrow> (Inr ((erased i)\<lparr>er_skipped := True\<rparr>), S1))
      else (case event r (ev\<lparr>ev_Type := EventQuarantined\<rparr>) (update_counts (\<lambda>c. c\<lparr>Quarantined := Quarantined c + 1\<rparr>) S) of
              (Some e, S1) \<Rightarrow> (Inl e, S1)
            | (None, S1) \<Rightarrow>
                (Inr ((erased i)\<lparr>er_quarantined := Some \<lparr>ie_Step = fs_Name (tr_step r), ie_Index = i,
                    ie_Class = class, ie_Attempts = attempts, ie_Message = cause\<rparr>\<rparr>), S1)))"

section \<open>The retry loop\<close>

text \<open>The pause before an attempt after the first; it gives the next delay.\<close>

definition retry_pause :: "('i, 'o, 's, 'c, 'u) typed_runner \<Rightarrow> int \<Rightarrow> duration \<Rightarrow> ('s, 'c, 'u) flow_state \<Rightarrow>
    duration result \<times> ('s, 'c, 'u) flow_state" where
  "retry_pause r attempt delay S =
     (if attempt \<le> 1 then (Inr delay, S)
      else let jittered = retryDelay (fo_int63n (tr_options r) (fl_user S)) delay (Cap (tr_backoff r));
               (m, S1) = advance S in
        (case lctx (fl_world S1) of
           Some e \<Rightarrow>
             if m_timer m
             then (Inr (nextRetryDelay delay (Cap (tr_backoff r))), S1\<lparr>fl_sleeps := fl_sleeps S1 @ [jittered]\<rparr>)
             else (Inl e, S1)
         | None \<Rightarrow>
             (Inr (nextRetryDelay delay (Cap (tr_backoff r))), S1\<lparr>fl_sleeps := fl_sleeps S1 @ [jittered]\<rparr>)))"

definition admit_work :: "('i, 'o, 's, 'c, 'u) typed_runner \<Rightarrow> int \<Rightarrow> int \<Rightarrow> ('s, 'c, 'u) flow_state \<Rightarrow>
    (err option \<times> ('s, 'c, 'u) flow_state) option" where
  "admit_work r i attempt S =
     (let (m, S1) = advance S; env = fo_env (tr_options r) in
      case admit (fo_custom (tr_options r)) env (tr_resources r) 1 (fl_world S1) (m_waits m) of
        None \<Rightarrow> None
      | Some ((name, e), w, _) \<Rightarrow>
          (case e of
             None \<Rightarrow> Some (None, S1\<lparr>fl_world := w\<rparr>)
           | Some e \<Rightarrow>
               if errors_is ErrBudgetExceeded e
               then let plan = env_plan env name in
                 Some (Some (step_error r
                   '' attempt %d: resource %q admission refused: %w; stated ceiling %d, admitted budget %d - cache hits are free''
                   i [FInt attempt, FStr name, FInt (rp_Ceiling plan), FInt (rp_Budget plan)] (Some e)), S1\<lparr>fl_world := w\<rparr>)
               else Some (Some (step_error r '' attempt %d: wait for resource %q: %w'' i
                   [FInt attempt, FStr name] (Some e)), S1\<lparr>fl_world := w\<rparr>)))"

text \<open>One call of \<open>Do\<close> with its counters and its attempt meter.\<close>

definition call_Do :: "('i, 'o, 's, 'c, 'u) typed_runner \<Rightarrow> int \<Rightarrow> 'i \<Rightarrow> int \<Rightarrow> ('s, 'c, 'u) flow_state \<Rightarrow>
    ('o \<times> err option) result \<times> ('s, 'c, 'u) flow_state" where
  "call_Do r i item attempt S =
     (let S1 = (if attempt = 1 then update_counts (\<lambda>c. c\<lparr>StartedSequences := StartedSequences c + 1\<rparr>) S else S);
          (c, S2) = observe S1 in
      case fs_Do (tr_step r) of
        None \<Rightarrow> (Inl (Errorf ''nil Do'' [] None), S2)
      | Some f \<Rightarrow>
          (case f c item (fl_user S2) of
             (v, e, u) \<Rightarrow>
               let S3 = update_counts (\<lambda>c. c\<lparr>WorkCalls := WorkCalls c + 1\<rparr>) (S2\<lparr>fl_user := u\<rparr>) in
               (case fs_AttemptMeter (tr_step r) of
                  None \<Rightarrow> (Inr (v, e), S3)
                | Some am \<Rightarrow>
                    (case meter r i (am v e) S3 of
                       (Some me, S4) \<Rightarrow> (Inl me, S4)
                     | (None, S4) \<Rightarrow> (Inr (v, e), S4)))))"

text \<open>What a failed attempt leads to, with \<open>left\<close> attempts left: an error, another attempt or
  the end of the sequence with a class.\<close>

datatype verdict = Stop err | Again | GiveUp ErrorClass

definition judge :: "('i, 'o, 's, 'c, 'u) typed_runner \<Rightarrow> int \<Rightarrow> nat \<Rightarrow> int \<Rightarrow> err \<Rightarrow> ('s, 'c, 'u) flow_state \<Rightarrow>
    verdict \<times> ('s, 'c, 'u) flow_state" where
  "judge r i left attempt e S =
     (case observe S of (c, S1) \<Rightarrow>
        if c \<noteq> None then (Stop (step_error r '': %w'' i [] (Some e)), S1)
        else let class = tr_classifier r e in
          if \<not> valid_class class
          then (Stop (step_error r '': classifier returned unknown error class %d'' i [FInt class] None), S1)
          else if class = Transient \<and> 0 < left
          then (case event r (zero_event\<lparr>ev_Index := i, ev_Type := EventRetry, ev_Class := class_String class,
                        ev_Attempt := attempt, ev_Error := Some e\<rparr>)
                      (update_counts (\<lambda>c. c\<lparr>Retries := Retries c + 1,
                         RetriesByClass := AList.update (class_String class)
                           (lookup0 0 (RetriesByClass c) (class_String class) + 1) (RetriesByClass c)\<rparr>) S1) of
                  (Some d, S2) \<Rightarrow> (Stop d, S2)
                | (None, S2) \<Rightarrow> (Again, S2))
          else (GiveUp class, S1))"

fun work_loop :: "('i, 'o, 's, 'c, 'u) typed_runner \<Rightarrow> int \<Rightarrow> 'i \<Rightarrow> Key option \<Rightarrow> string \<Rightarrow> nat \<Rightarrow> int \<Rightarrow> duration \<Rightarrow>
    ('s, 'c, 'u) flow_state \<Rightarrow> ('o erasedItem result \<times> ('s, 'c, 'u) flow_state) option" where
  "work_loop r i item key dig left attempt delay S =
     (case retry_pause r attempt delay S of
        (Inl e, S1) \<Rightarrow> Some (Inl e, S1)
      | (Inr delay', S1) \<Rightarrow>
     (case admit_work r i attempt S1 of
        None \<Rightarrow> None
      | Some (Some e, S2) \<Rightarrow> Some (Inl e, S2)
      | Some (None, S2) \<Rightarrow>
     (case call_Do r i item attempt S2 of
        (Inl e, S3) \<Rightarrow> Some (Inl e, S3)
      | (Inr (v, None), S3) \<Rightarrow> Some (success r i v key dig S3)
      | (Inr (v, Some e), S3) \<Rightarrow>
     (case judge r i left attempt e S3 of
        (Stop d, S4) \<Rightarrow> Some (Inl d, S4)
      | (GiveUp class, S4) \<Rightarrow> Some (fail r i e class attempt S4)
      | (Again, S4) \<Rightarrow>
          (case left of
             0 \<Rightarrow> None
           | Suc n \<Rightarrow> work_loop r i item key dig n (attempt + 1) delay' S4)))))"

definition work :: "('i, 'o, 's, 'c, 'u) typed_runner \<Rightarrow> int \<Rightarrow> 'i \<Rightarrow> Key option \<Rightarrow> string \<Rightarrow>
    ('s, 'c, 'u) flow_state \<Rightarrow> ('o erasedItem result \<times> ('s, 'c, 'u) flow_state) option" where
  "work r i item key dig S =
     work_loop r i item key dig (nat (tr_attempts r) - 1) 1 (Base (tr_backoff r)) S"

section \<open>One item\<close>

definition lead :: "('i, 'o, 's, 'c, 'u) typed_runner \<Rightarrow> ('o, 's) store_ops \<Rightarrow> int \<Rightarrow> 'i \<Rightarrow> Key \<Rightarrow> string \<Rightarrow>
    ('s, 'c, 'u) flow_state \<Rightarrow> ('o erasedItem result \<times> ('s, 'c, 'u) flow_state) option" where
  "lead r ops i item k dig S =
     (case observe S of (c, S1) \<Rightarrow>
        (case so_Load ops c k (fl_store S1) of
           Inl e \<Rightarrow> Some (Inl (step_error r '': load cache entry: %w'' i [] (Some e)), S1)
         | Inr (Some v) \<Rightarrow>
             let oc = \<lparr>co_KeyDigest = dig, co_State = CacheHit\<rparr> in
             (case event_then_notify r (zero_event\<lparr>ev_Index := i, ev_Type := EventHit\<rparr>) i v oc
                     (update_counts (\<lambda>c. c\<lparr>Hits := Hits c + 1\<rparr>) S1) of
                (Some e, S2) \<Rightarrow> Some (Inl e, S2)
              | (None, S2) \<Rightarrow> Some (Inr ((erased i)\<lparr>er_value := Some v, er_outcome := oc\<rparr>), S2))
         | Inr None \<Rightarrow>
             work r i item (Some k) dig (update_counts (\<lambda>c. c\<lparr>Misses := Misses c + 1\<rparr>) S1)))"

text \<open>The shared record of an in-flight key. \<open>if_done\<close> says that the channel is closed.\<close>

record 'o inflightCall =
  if_done :: bool
  if_value :: "'o option"
  if_state :: CacheState
  if_quarantined :: "item_error option"
  if_skipped :: bool
  if_err :: "err option"

definition open_call :: "'o inflightCall" where
  "open_call = \<lparr>if_done = False, if_value = None, if_state = [], if_quarantined = None, if_skipped = False, if_err = None\<rparr>"

text \<open>Closing the call with the leader's result; a result with an error is the zero item.\<close>

definition closed_call :: "'o erasedItem result \<Rightarrow> 'o inflightCall" where
  "closed_call res =
     (let it = (case res of Inl _ \<Rightarrow> erased 0 | Inr it \<Rightarrow> it) in
      \<lparr>if_done = True, if_value = er_value it, if_state = co_State (er_outcome it),
       if_quarantined = er_quarantined it, if_skipped = er_skipped it,
       if_err = (case res of Inl e \<Rightarrow> Some e | Inr _ \<Rightarrow> None)\<rparr>)"

text \<open>The item of a follower, and the event and the counters for it.\<close>

definition follower_item :: "int \<Rightarrow> 'o inflightCall \<Rightarrow> string \<Rightarrow> 'o erasedItem" where
  "follower_item i call dig =
     (erased i)\<lparr>er_value := if_value call, er_skipped := if_skipped call,
        er_outcome := (if if_state call \<noteq> [] then \<lparr>co_KeyDigest = dig, co_State = if_state call\<rparr> else zero_outcome),
        er_quarantined := map_option (\<lambda>q. q\<lparr>ie_Index := i\<rparr>) (if_quarantined call)\<rparr>"

definition follow_counts :: "'o inflightCall \<Rightarrow> EventType \<times> (StepReport \<Rightarrow> StepReport)" where
  "follow_counts call =
     (if if_quarantined call \<noteq> None
      then (EventQuarantined, \<lambda>c. c\<lparr>Misses := Misses c + 1, Quarantined := Quarantined c + 1\<rparr>)
      else if if_skipped call then (EventSkipped, \<lambda>c. c\<lparr>Misses := Misses c + 1, Skipped := Skipped c + 1\<rparr>)
      else if if_state call = CacheHit then (EventHit, \<lambda>c. c\<lparr>Hits := Hits c + 1\<rparr>)
      else (EventStored, \<lambda>c. c\<lparr>Misses := Misses c + 1\<rparr>))"

text \<open>\<open>None\<close> is a follower that still waits. \<open>zero\<close> is the zero value of the result type, which
  a failed type assertion yields.\<close>

definition follow :: "('i, 'o, 's, 'c, 'u) typed_runner \<Rightarrow> 'o \<Rightarrow> int \<Rightarrow> 'o inflightCall \<Rightarrow> string \<Rightarrow>
    ('s, 'c, 'u) flow_state \<Rightarrow> ('o erasedItem result \<times> ('s, 'c, 'u) flow_state) option" where
  "follow r zero i call dig S =
     (let (m, S1) = advance S; stop = lctx (fl_world S1); it = follower_item i call dig in
      if stop \<noteq> None \<and> (\<not> if_done call \<or> \<not> m_timer m) then Some (Inl (the stop), S1)
      else if \<not> if_done call then None
      else case if_err call of
        Some e \<Rightarrow> Some (Inl e, S1)
      | None \<Rightarrow>
          (case event r (zero_event\<lparr>ev_Index := i, ev_Type := fst (follow_counts call)\<rparr>)
                  (update_counts (snd (follow_counts call)) S1) of
             (Some e, S2) \<Rightarrow> Some (Inl e, S2)
           | (None, S2) \<Rightarrow>
               if flagged it then Some (Inr it, S2)
               else (case notify r i (case er_value it of Some v \<Rightarrow> v | None \<Rightarrow> zero) (er_outcome it) S2 of
                       (Some e, S3) \<Rightarrow> Some (Inl e, S3)
                     | (None, S3) \<Rightarrow> Some (Inr it, S3))))"

end
