(* ===== verification/Step_Accounting.thy ===== *)
theory Step_Accounting
  imports Step_Runner
begin

text \<open>
  What one item costs: the counters, the budgets and the store before and after the
  operations of \<open>Step_Runner\<close>.

  A \<open>tally\<close> is a change of the nine counters of a step report; tallies add up, and
  \<open>effect r t S S'\<close> says that \<open>S'\<close> has the counters of \<open>S\<close> and the tally \<open>t\<close>, and that every
  budget was charged once for each work call in \<open>t\<close>, for each place it stands in the limiters
  of the step's resources.
\<close>

section \<open>Tallies\<close>

datatype tally = Tally (t_items: int) (t_hits: int) (t_misses: int) (t_stored: int) (t_work: int)
  (t_started: int) (t_retries: int) (t_quarantined: int) (t_skipped: int)

instantiation tally :: comm_monoid_add
begin

definition zero_tally :: tally where "0 = Tally 0 0 0 0 0 0 0 0 0"

fun plus_tally :: "tally \<Rightarrow> tally \<Rightarrow> tally" where
  "Tally a b c d e f g h i + Tally a' b' c' d' e' f' g' h' i' =
     Tally (a + a') (b + b') (c + c') (d + d') (e + e') (f + f') (g + g') (h + h') (i + i')"

instance
proof
  fix a b c :: tally
  show "a + b + c = a + (b + c)" by (cases a; cases b; cases c) simp
  show "a + b = b + a" by (cases a; cases b) simp
  show "0 + a = a" by (cases a) (simp add: zero_tally_def)
qed

end

lemma tally_selectors [engine_simps]:
  "t_items (a + b) = t_items a + t_items b" "t_hits (a + b) = t_hits a + t_hits b"
  "t_misses (a + b) = t_misses a + t_misses b" "t_stored (a + b) = t_stored a + t_stored b"
  "t_work (a + b) = t_work a + t_work b" "t_started (a + b) = t_started a + t_started b"
  "t_retries (a + b) = t_retries a + t_retries b" "t_quarantined (a + b) = t_quarantined a + t_quarantined b"
  "t_skipped (a + b) = t_skipped a + t_skipped b"
  by (cases a; cases b; simp)+

lemma tally_zero [engine_simps]:
  "t_items 0 = 0" "t_hits 0 = 0" "t_misses 0 = 0" "t_stored 0 = 0" "t_work 0 = 0" "t_started 0 = 0"
  "t_retries 0 = 0" "t_quarantined 0 = 0" "t_skipped 0 = 0"
  by (simp_all add: zero_tally_def)

definition tally_of :: "StepReport \<Rightarrow> tally" where
  "tally_of c = Tally (Items c) (Hits c) (Misses c) (Stored c) (WorkCalls c) (StartedSequences c) (Retries c)
     (Quarantined c) (Skipped c)"

definition occ :: "('i, 'o, 's, 'c, 'u) typed_runner \<Rightarrow> addr \<Rightarrow> nat" where
  "occ r a = sum_list (map (named_occurrences (fo_env (tr_options r)) a) (tr_resources r))"

definition effect :: "('i, 'o, 's, 'c, 'u) typed_runner \<Rightarrow> tally \<Rightarrow> ('s, 'c, 'u) flow_state \<Rightarrow>
    ('s, 'c, 'u) flow_state \<Rightarrow> bool" where
  "effect r t S S' \<longleftrightarrow> tally_of (fl_counts S') = tally_of (fl_counts S) + t \<and>
     budgets (fl_world S') = charge_budgets (t_work t) (occ r) (budgets (fl_world S)) \<and>
     (budgets_ok (budgets (fl_world S)) \<longrightarrow> budgets_ok (budgets (fl_world S')))"

lemma charge_budgets_twice: "charge_budgets u f (charge_budgets v f m) = charge_budgets (v + u) f m"
  by (auto simp: charge_budgets_def fun_eq_iff option.map_comp o_def algebra_simps)

lemma charge_budgets_none [simp]: "charge_budgets 0 f m = m"
  by (auto simp: charge_budgets_def option.map_ident fun_eq_iff)

lemma effect_refl: "effect r 0 S S"
  by (simp add: effect_def engine_simps)

lemma effect_trans: "effect r t S S1 \<Longrightarrow> effect r t' S1 S2 \<Longrightarrow> effect r (t + t') S S2"
  by (auto simp: effect_def engine_simps charge_budgets_twice add.assoc)

lemma effect_none: "effect r 0 S S1 \<Longrightarrow> effect r t S1 S2 \<Longrightarrow> effect r t S S2"
  using effect_trans [of r 0 S S1 t S2] by simp

lemma effect_end: "effect r t S S1 \<Longrightarrow> effect r 0 S1 S2 \<Longrightarrow> effect r t S S2"
  using effect_trans [of r t S S1 0 S2] by simp

lemma effect_counts:
  "tally_of (f (fl_counts S)) = tally_of (fl_counts S) + t \<Longrightarrow> t_work t = 0 \<Longrightarrow> effect r t S (update_counts f S)"
  by (simp add: effect_def update_counts_def)

lemma effect_same:
  "fl_counts S' = fl_counts S \<Longrightarrow> budgets (fl_world S') = budgets (fl_world S) \<Longrightarrow> effect r 0 S S'"
  by (simp add: effect_def engine_simps)

lemma effect_store [engine_simps]:
  "effect r t S (S'\<lparr>fl_store := s\<rparr>) = effect r t S S'" "effect r t (S\<lparr>fl_store := s\<rparr>) S' = effect r t S S'"
  by (simp_all add: effect_def)

section \<open>Operations that count nothing\<close>

lemma env_events_budgets: "budgets (fold env_event evs w) = budgets w"
  by (induction evs arbitrary: w) (simp_all add: limiter_simps)

lemma advance_same:
  assumes "advance S = (m, S')"
  shows "fl_counts S' = fl_counts S" and "fl_store S' = fl_store S" and "fl_user S' = fl_user S"
    and "fl_meters S' = fl_meters S" and "budgets (fl_world S') = budgets (fl_world S)"
    and "fl_sleeps S' = fl_sleeps S"
  using assms by (auto simp: advance_def env_events_budgets split: list.splits)

lemma observe_same:
  assumes "observe S = (c, S')"
  shows "fl_counts S' = fl_counts S" and "fl_store S' = fl_store S" and "fl_user S' = fl_user S"
    and "fl_meters S' = fl_meters S" and "budgets (fl_world S') = budgets (fl_world S)"
    and "c = lctx (fl_world S')"
  using assms advance_same [of S "fst (advance S)" S'] by (auto simp: observe_def Let_def)

lemma notify_effect:
  assumes "notify r i v oc S = (e, S')"
  shows "effect r 0 S S'" and "fl_store S' = fl_store S"
  using assms by (auto simp: notify_def dest: observe_same intro!: effect_same split: option.splits prod.splits)

lemma event_effect:
  assumes "event r ev S = (e, S')"
  shows "effect r 0 S S'" and "fl_store S' = fl_store S"
  using assms by (auto simp: event_def dest: observe_same intro!: effect_same split: option.splits prod.splits)

lemma event_then_notify_effect:
  assumes "event_then_notify r ev i v oc S = (e, S')"
  shows "effect r 0 S S'" and "fl_store S' = fl_store S"
proof -
  obtain e1 S1 where one: "event r ev S = (e1, S1)" by fastforce
  show "effect r 0 S S'" "fl_store S' = fl_store S"
    using assms one event_effect [OF one] notify_effect [of r i v oc S1 e S']
    by (auto simp: event_then_notify_def intro: effect_none split: option.splits)
qed

lemma meter_effect:
  assumes "meter r i ms S = (e, S')"
  shows "effect r 0 S S'" and "fl_store S' = fl_store S"
  using assms by (auto simp: meter_def intro!: effect_same split: option.splits prod.splits)

lemma retry_pause_effect:
  assumes "retry_pause r attempt delay S = (e, S')"
  shows "effect r 0 S S'" and "fl_store S' = fl_store S"
  using assms by (auto simp: retry_pause_def Let_def dest: advance_same intro!: effect_same
      split: if_splits option.splits prod.splits)

section \<open>One attempt\<close>

lemma admit_work_effect:
  assumes "admit_work r i attempt S = Some (e, S')"
  shows "fl_counts S' = fl_counts S" and "fl_store S' = fl_store S"
    and "e \<noteq> None \<Longrightarrow> effect r 0 S S'"
    and "e = None \<Longrightarrow> budgets (fl_world S') = charge_budgets 1 (occ r) (budgets (fl_world S))
      \<and> (budgets_ok (budgets (fl_world S)) \<longrightarrow> budgets_ok (budgets (fl_world S')))"
proof -
  obtain m S1 where adv: "advance S = (m, S1)" by fastforce
  note same = advance_same [OF adv]
  obtain name e1 w evs where adm: "admit (fo_custom (tr_options r)) (fo_env (tr_options r)) (tr_resources r) 1
      (fl_world S1) (m_waits m) = Some ((name, e1), w, evs)"
    and S': "S' = S1\<lparr>fl_world := w\<rparr>" and e: "e = None \<longleftrightarrow> e1 = None"
    using assms adv by (auto simp: admit_work_def Let_def split: option.splits if_splits)
  show "fl_counts S' = fl_counts S" "fl_store S' = fl_store S" using same by (simp_all add: S')
  show "effect r 0 S S'" if "e \<noteq> None"
  proof -
    from that e obtain d where "e1 = Some d" by blast
    then have "budgets w = budgets (fl_world S1)"
      using admit_loop_refusal [OF _ limiter_lim.undoes_start] adm unfolding admit_def by blast
    then show ?thesis using same by (intro effect_same) (simp_all add: S')
  qed
  show "budgets (fl_world S') = charge_budgets 1 (occ r) (budgets (fl_world S))
      \<and> (budgets_ok (budgets (fl_world S)) \<longrightarrow> budgets_ok (budgets (fl_world S')))" if "e = None"
  proof -
    have o: "occ r = (\<lambda>a. sum_list (map (named_occurrences (fo_env (tr_options r)) a) (tr_resources r)))"
      by (simp add: occ_def [abs_def])
    have w: "fl_world S' = w" by (simp add: S')
    show ?thesis unfolding w o same(5) [symmetric]
      using admit_loop_grant [OF adm [unfolded admit_def e [THEN iffD1, OF that]]] by blast
  qed
qed

text \<open>What \<open>Do\<close> gave for an item.\<close>

definition did :: "('i, 'o, 's, 'c, 'u) typed_runner \<Rightarrow> 'i \<Rightarrow> 'o \<Rightarrow> err option \<Rightarrow> bool" where
  "did r item v e \<longleftrightarrow> (\<exists>f c u u'. fs_Do (tr_step r) = Some f \<and> f c item u = (v, e, u'))"

lemma call_Do_counts:
  assumes "call_Do r i item attempt S = (res, S')" and "fs_Do (tr_step r) \<noteq> None"
  shows "tally_of (fl_counts S') = tally_of (fl_counts S) + Tally 0 0 0 0 1 (if attempt = 1 then 1 else 0) 0 0 0"
    and "budgets (fl_world S') = budgets (fl_world S)" and "fl_store S' = fl_store S"
    and "res = Inr (v, e) \<Longrightarrow> did r item v e"
proof -
  let ?S1 = "if attempt = 1 then update_counts (\<lambda>c. c\<lparr>StartedSequences := StartedSequences c + 1\<rparr>) S else S"
  obtain c S2 where ob: "observe ?S1 = (c, S2)" by fastforce
  obtain f where f: "fs_Do (tr_step r) = Some f" using assms(2) by blast
  obtain v' e' u where fv: "f c item (fl_user S2) = (v', e', u)" by (metis prod_cases3)
  let ?S3 = "update_counts (\<lambda>c. c\<lparr>WorkCalls := WorkCalls c + 1\<rparr>) (S2\<lparr>fl_user := u\<rparr>)"
  have three: "tally_of (fl_counts ?S3) = tally_of (fl_counts S) + Tally 0 0 0 0 1 (if attempt = 1 then 1 else 0) 0 0 0"
    "budgets (fl_world ?S3) = budgets (fl_world S)" "fl_store ?S3 = fl_store S"
    using observe_same [OF ob] by (auto simp: update_counts_def tally_of_def)
  have rest: "effect r 0 ?S3 S' \<and> fl_store S' = fl_store ?S3 \<and> (res = Inr (v, e) \<longrightarrow> v = v' \<and> e = e')"
  proof (cases "fs_AttemptMeter (tr_step r)")
    case None
    then show ?thesis using assms(1) ob f fv by (auto simp: call_Do_def Let_def effect_refl)
  next
    case (Some am)
    obtain me S4 where me: "meter r i (am v' e') ?S3 = (me, S4)" by fastforce
    then have "S' = S4 \<and> (res = Inr (v, e) \<longrightarrow> v = v' \<and> e = e')"
      using assms(1) ob f fv Some by (cases me) (auto simp: call_Do_def Let_def)
    then show ?thesis using meter_effect [OF me] by simp
  qed
  show "tally_of (fl_counts S') = tally_of (fl_counts S) + Tally 0 0 0 0 1 (if attempt = 1 then 1 else 0) 0 0 0"
    using rest three(1) by (simp add: effect_def engine_simps)
  show "budgets (fl_world S') = budgets (fl_world S)" using rest three(2) by (simp add: effect_def engine_simps)
  show "fl_store S' = fl_store S" using rest three(3) by simp
  show "res = Inr (v, e) \<Longrightarrow> did r item v e" using rest f fv unfolding did_def by blast
qed

lemma attempt_effect:
  assumes "admit_work r i attempt S = Some (None, S1)" and "call_Do r i item attempt S1 = (res, S')"
    and "fs_Do (tr_step r) \<noteq> None"
  shows "effect r (Tally 0 0 0 0 1 (if attempt = 1 then 1 else 0) 0 0 0) S S'" and "fl_store S' = fl_store S"
  using admit_work_effect [OF assms(1)] call_Do_counts [OF assms(2,3)] by (auto simp: effect_def)

lemma judge_effect:
  assumes "judge r i left attempt e S = (vd, S')"
  shows "fl_store S' = fl_store S"
    and "\<exists>q. effect r (Tally 0 0 0 0 0 0 q 0 0) S S' \<and> (vd = Again \<longrightarrow> q = 1 \<and> 0 < left) \<and>
      (\<forall>c. vd = GiveUp c \<longrightarrow> q = 0 \<and> valid_class c \<and> c = tr_classifier r e \<and> (c = Transient \<longrightarrow> left = 0)) \<and>
      0 \<le> q \<and> q \<le> 1"
proof -
  obtain c S1 where ob: "observe S = (c, S1)" by fastforce
  note same = observe_same [OF ob]
  have z: "Tally 0 0 0 0 0 0 0 0 0 = 0" by (simp add: zero_tally_def)
  have one: "effect r 0 S S1" using same by (intro effect_same)
  show "fl_store S' = fl_store S"
    using assms ob same(2) by (auto simp: judge_def Let_def update_counts_def dest: event_effect(2)
        split: if_splits option.splits prod.splits)
  show "\<exists>q. effect r (Tally 0 0 0 0 0 0 q 0 0) S S' \<and> (vd = Again \<longrightarrow> q = 1 \<and> 0 < left) \<and>
      (\<forall>c. vd = GiveUp c \<longrightarrow> q = 0 \<and> valid_class c \<and> c = tr_classifier r e \<and> (c = Transient \<longrightarrow> left = 0)) \<and>
      0 \<le> q \<and> q \<le> 1"
  proof (cases "c = None \<and> valid_class (tr_classifier r e) \<and> tr_classifier r e = Transient \<and> 0 < left")
    case False
    then have "S' = S1 \<and> vd \<noteq> Again \<and> (\<forall>c. vd = GiveUp c \<longrightarrow> valid_class c \<and> c = tr_classifier r e \<and> (c = Transient \<longrightarrow> left = 0))"
      using assms ob False by (auto simp: judge_def Let_def split: if_splits)
    then show ?thesis using one by (intro exI [of _ 0]) (auto simp: z)
  next
    case True
    let ?upd = "\<lambda>cl. \<lambda>c. c\<lparr>Retries := Retries c + 1, RetriesByClass := AList.update (class_String cl)
          (lookup0 0 (RetriesByClass c) (class_String cl) + 1) (RetriesByClass c)\<rparr>"
    from assms ob True obtain d where ev: "event r (zero_event\<lparr>ev_Index := i, ev_Type := EventRetry,
          ev_Class := class_String Transient, ev_Attempt := attempt, ev_Error := Some e\<rparr>)
        (update_counts (?upd Transient) S1) = (d, S')"
      and vd: "vd = (case d of Some d \<Rightarrow> Stop d | None \<Rightarrow> Again)"
      by (auto simp: judge_def Let_def split: option.splits prod.splits)
    have "effect r (Tally 0 0 0 0 0 0 1 0 0) S1 (update_counts (?upd Transient) S1)"
      by (rule effect_counts) (simp_all add: tally_of_def)
    then have "effect r (Tally 0 0 0 0 0 0 1 0 0) S S'"
      using one event_effect(1) [OF ev] by (blast intro: effect_none effect_end)
    then show ?thesis using vd True by (intro exI [of _ 1]) (auto split: option.splits)
  qed
qed

section \<open>The end of an item\<close>

text \<open>Whether a result goes to the store, and the item of a success.\<close>

definition stores :: "('i, 'o, 's, 'c, 'u) typed_runner \<Rightarrow> Key option \<Rightarrow> bool" where
  "stores r key \<longleftrightarrow> key \<noteq> None \<and> fo_Store (tr_options r) \<noteq> None"

definition done_item :: "('i, 'o, 's, 'c, 'u) typed_runner \<Rightarrow> int \<Rightarrow> 'o \<Rightarrow> Key option \<Rightarrow> string \<Rightarrow> 'o erasedItem" where
  "done_item r i v key dig = (erased i)\<lparr>er_value := Some v,
     er_outcome := (if stores r key then \<lparr>co_KeyDigest = dig, co_State = CacheStored\<rparr> else zero_outcome)\<rparr>"

text \<open>What happened to the store: nothing, or one store of a value of the item under its key,
  which succeeded when the item did.\<close>

definition store_step :: "('i, 'o, 's, 'c, 'u) typed_runner \<Rightarrow> Key option \<Rightarrow> 'o \<Rightarrow> bool \<Rightarrow> 's \<Rightarrow> 's \<Rightarrow> bool" where
  "store_step r key v ok s s' \<longleftrightarrow>
     (case (key, fo_Store (tr_options r)) of
        (Some k, Some ops) \<Rightarrow>
          (\<not> ok \<and> s' = s) \<or> (\<exists>e. so_Store ops None k v s = (e, s') \<and> (ok \<longrightarrow> e = None))
      | _ \<Rightarrow> s' = s)"

lemma success_effect:
  assumes "success r i v key dig S = (res, S')"
  shows "\<exists>st. effect r (Tally 0 0 0 st 0 0 0 0 0) S S' \<and> 0 \<le> st \<and> st \<le> (if stores r key then 1 else 0) \<and>
    (\<forall>it. res = Inr it \<longrightarrow> it = done_item r i v key dig \<and> st = (if stores r key then 1 else 0))"
    and "store_step r key v (\<not> isl res) (fl_store S) (fl_store S')"
proof -
  have z: "Tally 0 0 0 0 0 0 0 0 0 = 0" by (simp add: zero_tally_def)
  obtain e1 S1 where m: "(case fs_Meter (tr_step r) of None \<Rightarrow> (None, S) | Some f \<Rightarrow> meter r i (f v) S) = (e1, S1)" by fastforce
  have one: "effect r 0 S S1" "fl_store S1 = fl_store S"
    using m meter_effect by (auto split: option.splits intro: effect_refl)
  have "(\<exists>st. effect r (Tally 0 0 0 st 0 0 0 0 0) S S' \<and> 0 \<le> st \<and> st \<le> (if stores r key then 1 else 0) \<and>
      (\<forall>it. res = Inr it \<longrightarrow> it = done_item r i v key dig \<and> st = (if stores r key then 1 else 0))) \<and>
    store_step r key v (\<not> isl res) (fl_store S) (fl_store S')"
  proof (cases e1)
    case (Some e)
    then have "res = Inl e" "S' = S1" using assms m by (auto simp: success_def)
    then show ?thesis using one by (intro conjI exI [of _ 0])
        (auto simp: z store_step_def split: option.splits)
  next
    case None
    define ev where "ev = (\<lambda>ty. zero_event\<lparr>ev_Index := i, ev_Type := ty\<rparr>)"
    define finish where "finish = (\<lambda>oc ty S2. case event_then_notify r (ev ty) i v oc S2 of
        (Some e, S3) \<Rightarrow> (Inl e, S3)
      | (None, S3) \<Rightarrow> (Inr ((erased i)\<lparr>er_value := Some v, er_outcome := oc\<rparr>), S3))"
    have fin: "effect r 0 S2 S3 \<and> fl_store S3 = fl_store S2 \<and>
        (\<forall>it. q = Inr it \<longrightarrow> it = (erased i)\<lparr>er_value := Some v, er_outcome := oc\<rparr>)"
      if "finish oc ty S2 = (q, S3)" for oc ty S2 q S3
    proof -
      obtain e S4 where etn: "event_then_notify r (ev ty) i v oc S2 = (e, S4)" by fastforce
      with that have "S3 = S4" "\<forall>it. q = Inr it \<longrightarrow> it = (erased i)\<lparr>er_value := Some v, er_outcome := oc\<rparr>"
        by (auto simp: finish_def split: option.splits)
      then show ?thesis using event_then_notify_effect [OF etn] by simp
    qed
    note body = assms [unfolded success_def m prod.case None option.case Let_def]
    show ?thesis
    proof (cases "stores r key")
      case False
      then have "finish zero_outcome EventDone S1 = (res, S')"
        using body by (auto simp: stores_def finish_def ev_def split: option.splits)
      from fin [OF this] one False show ?thesis
        by (intro conjI exI [of _ 0]) (auto simp: z done_item_def stores_def store_step_def intro: effect_trans [of r 0 _ _ 0, simplified] split: option.splits)
    next
      case True
      then obtain k ops where k: "key = Some k" "fo_Store (tr_options r) = Some ops" by (auto simp: stores_def)
      obtain se s' where st: "so_Store ops None k v (fl_store S1) = (se, s')" by fastforce
      show ?thesis
      proof (cases se)
        case (Some e)
        then have "isl res" "S' = S1\<lparr>fl_store := s'\<rparr>" using body k st by auto
        moreover have "effect r 0 S (S1\<lparr>fl_store := s'\<rparr>)"
          using one(1) by (simp add: engine_simps)
        ultimately show ?thesis using st one(2) k
          by (intro conjI exI [of _ 0]) (auto simp: z store_step_def)
      next
        case None
        let ?S2 = "update_counts (\<lambda>c. c\<lparr>Stored := Stored c + 1\<rparr>) (S1\<lparr>fl_store := s'\<rparr>)"
        have f: "finish \<lparr>co_KeyDigest = dig, co_State = CacheStored\<rparr> EventStored ?S2 = (res, S')"
          using body k st None by (simp add: finish_def ev_def)
        have "effect r 0 S (S1\<lparr>fl_store := s'\<rparr>)" using one(1) by (simp add: engine_simps)
        moreover have "effect r (Tally 0 0 0 1 0 0 0 0 0) (S1\<lparr>fl_store := s'\<rparr>) ?S2"
          by (rule effect_counts) (simp_all add: tally_of_def)
        ultimately have "effect r (Tally 0 0 0 1 0 0 0 0 0) S S'"
          using fin [OF f] by (blast intro: effect_none effect_end)
        moreover have "fl_store S' = s'" using fin [OF f] by (simp add: update_counts_def)
        ultimately show ?thesis using fin [OF f] st None one(2) k True
          by (intro conjI exI [of _ 1]) (auto simp: done_item_def store_step_def)
      qed
    qed
  qed
  then show "\<exists>st. effect r (Tally 0 0 0 st 0 0 0 0 0) S S' \<and> 0 \<le> st \<and> st \<le> (if stores r key then 1 else 0) \<and>
    (\<forall>it. res = Inr it \<longrightarrow> it = done_item r i v key dig \<and> st = (if stores r key then 1 else 0))"
    and "store_step r key v (\<not> isl res) (fl_store S) (fl_store S')" by blast+
qed

text \<open>The item of a failure that the policy keeps as data or drops.\<close>

definition failed_item :: "('i, 'o, 's, 'c, 'u) typed_runner \<Rightarrow> int \<Rightarrow> err \<Rightarrow> ErrorClass \<Rightarrow> int \<Rightarrow> 'o erasedItem" where
  "failed_item r i cause class attempts =
     (if OnError (fs_Policy (tr_step r)) = Skip_item then (erased i)\<lparr>er_skipped := True\<rparr>
      else (erased i)\<lparr>er_quarantined := Some \<lparr>ie_Step = fs_Name (tr_step r), ie_Index = i,
             ie_Class = class, ie_Attempts = attempts, ie_Message = cause\<rparr>\<rparr>)"

lemma fail_effect:
  assumes "fail r i cause class attempts S = (res, S')"
  shows "fl_store S' = fl_store S"
    and "\<exists>qu sk. effect r (Tally 0 0 0 0 0 0 0 qu sk) S S' \<and> 0 \<le> qu \<and> 0 \<le> sk \<and> qu + sk \<le> 1 \<and>
      (\<forall>it. res = Inr it \<longrightarrow> class \<noteq> Fatal \<and> OnError (fs_Policy (tr_step r)) \<noteq> FailFast \<and>
         it = failed_item r i cause class attempts \<and>
         (if er_skipped it then qu = 0 \<and> sk = 1 else qu = 1 \<and> sk = 0))"
proof -
  have z: "Tally 0 0 0 0 0 0 0 0 0 = 0" by (simp add: zero_tally_def)
  have "fl_store S' = fl_store S \<and> (\<exists>qu sk. effect r (Tally 0 0 0 0 0 0 0 qu sk) S S' \<and> 0 \<le> qu \<and> 0 \<le> sk \<and> qu + sk \<le> 1 \<and>
      (\<forall>it. res = Inr it \<longrightarrow> class \<noteq> Fatal \<and> OnError (fs_Policy (tr_step r)) \<noteq> FailFast \<and>
         it = failed_item r i cause class attempts \<and>
         (if er_skipped it then qu = 0 \<and> sk = 1 else qu = 1 \<and> sk = 0)))"
  proof (cases "class = Fatal \<or> OnError (fs_Policy (tr_step r)) = FailFast")
    case True
    then have "S' = S" "isl res" using assms by (auto simp: fail_def)
    then show ?thesis by (auto simp: z effect_refl intro!: exI [of _ 0])
  next
    case False
    show ?thesis
    proof (cases "OnError (fs_Policy (tr_step r)) = Skip_item")
      case True
      let ?S1 = "update_counts (\<lambda>c. c\<lparr>Skipped := Skipped c + 1\<rparr>) S"
      have one: "effect r (Tally 0 0 0 0 0 0 0 0 1) S ?S1" by (rule effect_counts) (simp_all add: tally_of_def)
      obtain ev e where ev: "event r ev ?S1 = (e, S')" and res: "res = (case e of Some e \<Rightarrow> Inl e | None \<Rightarrow> Inr ((erased i)\<lparr>er_skipped := True\<rparr>))"
        using assms False True by (auto simp: fail_def Let_def split: prod.splits option.splits)
      have "effect r (Tally 0 0 0 0 0 0 0 0 1) S S'" using effect_end [OF one event_effect(1) [OF ev]] .
      moreover have "fl_store S' = fl_store S" using event_effect(2) [OF ev] by (simp add: update_counts_def)
      ultimately show ?thesis using False True res
        by (intro conjI exI [of _ 0] exI [of _ 1]) (auto simp: failed_item_def split: option.splits)
    next
      case F: False
      let ?S1 = "update_counts (\<lambda>c. c\<lparr>Quarantined := Quarantined c + 1\<rparr>) S"
      have one: "effect r (Tally 0 0 0 0 0 0 0 1 0) S ?S1" by (rule effect_counts) (simp_all add: tally_of_def)
      obtain ev e where ev: "event r ev ?S1 = (e, S')" and res: "res = (case e of Some e \<Rightarrow> Inl e | None \<Rightarrow>
          Inr (failed_item r i cause class attempts))"
        using assms False F by (auto simp: fail_def failed_item_def Let_def split: prod.splits option.splits)
      have "effect r (Tally 0 0 0 0 0 0 0 1 0) S S'" using effect_end [OF one event_effect(1) [OF ev]] .
      moreover have "fl_store S' = fl_store S" using event_effect(2) [OF ev] by (simp add: update_counts_def)
      ultimately show ?thesis using False F res
        by (intro conjI exI [of _ 1] exI [of _ 0]) (auto simp: failed_item_def erased_def split: option.splits)
    qed
  qed
  then show "fl_store S' = fl_store S"
    and "\<exists>qu sk. effect r (Tally 0 0 0 0 0 0 0 qu sk) S S' \<and> 0 \<le> qu \<and> 0 \<le> sk \<and> qu + sk \<le> 1 \<and>
      (\<forall>it. res = Inr it \<longrightarrow> class \<noteq> Fatal \<and> OnError (fs_Policy (tr_step r)) \<noteq> FailFast \<and>
         it = failed_item r i cause class attempts \<and>
         (if er_skipped it then qu = 0 \<and> sk = 1 else qu = 1 \<and> sk = 0))" by blast+
qed

section \<open>The work on an item\<close>

text \<open>How an item ended: with a value of \<open>Do\<close> that was stored if the step stores, or with a
  failure of \<open>Do\<close> on its last attempt \<open>n\<close> that the policy does not make fatal. A failure that
  the classifier calls transient ends an item only when no attempt is left.\<close>

definition item_end :: "('i, 'o, 's, 'c, 'u) typed_runner \<Rightarrow> int \<Rightarrow> 'i \<Rightarrow> Key option \<Rightarrow> string \<Rightarrow> int \<Rightarrow>
    'o erasedItem \<Rightarrow> tally \<Rightarrow> 's \<Rightarrow> 's \<Rightarrow> bool" where
  "item_end r i item key dig n it t s s' \<longleftrightarrow>
     (\<exists>v. did r item v None \<and> it = done_item r i v key dig \<and> store_step r key v True s s' \<and>
        t_stored t = (if stores r key then 1 else 0) \<and> t_quarantined t = 0 \<and> t_skipped t = 0) \<or>
     (\<exists>v e. did r item v (Some e) \<and> it = failed_item r i e (tr_classifier r e) n \<and>
        tr_classifier r e \<noteq> Fatal \<and> valid_class (tr_classifier r e) \<and>
        OnError (fs_Policy (tr_step r)) \<noteq> FailFast \<and> (tr_classifier r e = Transient \<longrightarrow> n = tr_attempts r) \<and>
        s' = s \<and> t_stored t = 0 \<and>
        (if er_skipped it then t_quarantined t = 0 \<and> t_skipped t = 1 else t_quarantined t = 1 \<and> t_skipped t = 0))"

lemma item_end_cong:
  "t_stored t' = t_stored t \<Longrightarrow> t_quarantined t' = t_quarantined t \<Longrightarrow> t_skipped t' = t_skipped t \<Longrightarrow>
     item_end r i item key dig n it t' s s' = item_end r i item key dig n it t s s'"
  by (simp add: item_end_def)

text \<open>The tally of the work on one item from an attempt on.\<close>

definition work_tally :: "int \<Rightarrow> nat \<Rightarrow> tally \<Rightarrow> bool" where
  "work_tally attempt left t \<longleftrightarrow>
     t_items t = 0 \<and> t_hits t = 0 \<and> t_misses t = 0 \<and> 0 \<le> t_work t \<and> t_work t \<le> int left + 1 \<and>
     0 \<le> t_retries t \<and> t_retries t \<le> t_work t \<and> t_work t \<le> t_retries t + 1 \<and>
     t_started t = (if attempt = 1 \<and> 0 < t_work t then 1 else 0) \<and>
     0 \<le> t_stored t \<and> 0 \<le> t_quarantined t \<and> 0 \<le> t_skipped t \<and>
     t_stored t + t_quarantined t + t_skipped t \<le> 1"

definition store_moves :: "('i, 'o, 's, 'c, 'u) typed_runner \<Rightarrow> 'i \<Rightarrow> Key option \<Rightarrow> 's \<Rightarrow> 's \<Rightarrow> bool" where
  "store_moves r item key s s' \<longleftrightarrow> s' = s \<or> (\<exists>v b. did r item v None \<and> store_step r key v b s s')"

lemma work_loop_effect:
  "work_loop r i item key dig left attempt delay S = Some (res, S') \<Longrightarrow> fs_Do (tr_step r) \<noteq> None \<Longrightarrow>
     1 \<le> attempt \<Longrightarrow> attempt + int left = tr_attempts r \<Longrightarrow>
     \<exists>t. effect r t S S' \<and> work_tally attempt left t \<and> (\<not> stores r key \<longrightarrow> t_stored t = 0) \<and>
       store_moves r item key (fl_store S) (fl_store S') \<and>
       (\<forall>it. res = Inr it \<longrightarrow> t_work t = t_retries t + 1 \<and>
          item_end r i item key dig (attempt + t_work t - 1) it t (fl_store S) (fl_store S'))"
proof (induction left arbitrary: attempt delay S rule: less_induct)
  case (less left)
  note run = less.prems(1) and Do = less.prems(2) and at = less.prems(3,4)
  let ?C = "\<exists>t. effect r t S S' \<and> work_tally attempt left t \<and> (\<not> stores r key \<longrightarrow> t_stored t = 0) \<and>
       store_moves r item key (fl_store S) (fl_store S') \<and>
       (\<forall>it. res = Inr it \<longrightarrow> t_work t = t_retries t + 1 \<and>
          item_end r i item key dig (attempt + t_work t - 1) it t (fl_store S) (fl_store S'))"
  let ?one = "Tally 0 0 0 0 1 (if attempt = 1 then 1 else 0) 0 0 0"
  have stop: ?C if "res = Inl e" "effect r 0 S S'" "fl_store S' = fl_store S" for e
    using that by (intro exI [of _ 0]) (auto simp: work_tally_def store_moves_def engine_simps)
  have plus: "Tally a b c d e f g h j + Tally a' b' c' d' e' f' g' h' j' =
     Tally (a + a') (b + b') (c + c') (d + d') (e + e') (f + f') (g + g') (h + h') (j + j')" for a b c d e f g h j a' b' c' d' e' f' g' h' j'
    by simp
  obtain p S1 where pause: "retry_pause r attempt delay S = (p, S1)" by fastforce
  note P = retry_pause_effect [OF pause]
  show ?case
  proof (cases p)
    case (Inl e)
    then have "res = Inl e" "S' = S1" using run pause by (simp_all add: work_loop.simps)
    then show ?thesis using stop P by simp
  next
    case (Inr delay')
    obtain ae S2 where adm: "admit_work r i attempt S1 = Some (ae, S2)"
      using run pause Inr by (cases "admit_work r i attempt S1") (auto simp: work_loop.simps)
    show ?thesis
    proof (cases ae)
      case (Some e)
      then have "res = Inl e" "S' = S2" using run pause Inr adm by (simp_all add: work_loop.simps)
      moreover have "effect r 0 S S2" "fl_store S2 = fl_store S"
        using effect_none [OF P(1)] admit_work_effect(2,3) [OF adm] P(2) Some by auto
      ultimately show ?thesis using stop by simp
    next
      case None
      obtain cr S3 where call: "call_Do r i item attempt S2 = (cr, S3)" by fastforce
      have E3: "effect r ?one S S3" "fl_store S3 = fl_store S"
        using effect_none [OF P(1)] attempt_effect [OF adm [unfolded None] call Do] P(2) by auto
      note did = call_Do_counts(4) [OF call Do]
      show ?thesis
      proof (cases cr)
        case (Inl e)
        then have "res = Inl e" "S' = S3" using run pause Inr adm None call by (simp_all add: work_loop.simps)
        then show ?thesis using E3 at
          by (intro exI [of _ ?one]) (auto simp: work_tally_def store_moves_def)
      next
        case cr: (Inr ve)
        obtain v eo where ve: "ve = (v, eo)" by (cases ve)
        show ?thesis
        proof (cases eo)
          case eo: None
          have suc: "success r i v key dig S3 = (res, S')"
            using run pause Inr adm None call cr ve eo by (simp add: work_loop.simps)
          from success_effect(1) [OF this] obtain st where st: "effect r (Tally 0 0 0 st 0 0 0 0 0) S3 S'" "0 \<le> st" "st \<le> (if stores r key then 1 else 0)"
            "\<forall>it. res = Inr it \<longrightarrow> it = done_item r i v key dig \<and> st = (if stores r key then 1 else 0)" by blast
          have d: "did r item v None" using did cr ve eo by simp
          note ss = success_effect(2) [OF suc, unfolded E3(2)]
          show ?thesis
          proof (intro exI conjI)
            show "effect r (?one + Tally 0 0 0 st 0 0 0 0 0) S S'" by (rule effect_trans [OF E3(1) st(1)])
            show "work_tally attempt left (?one + Tally 0 0 0 st 0 0 0 0 0)" using st(2,3) at by (auto simp: work_tally_def split: if_splits)
            show "\<not> stores r key \<longrightarrow> t_stored (?one + Tally 0 0 0 st 0 0 0 0 0) = 0" using st(2,3) by auto
            show "store_moves r item key (fl_store S) (fl_store S')" using d ss unfolding store_moves_def by blast
            show "\<forall>it. res = Inr it \<longrightarrow> t_work (?one + Tally 0 0 0 st 0 0 0 0 0) = t_retries (?one + Tally 0 0 0 st 0 0 0 0 0) + 1 \<and>
                item_end r i item key dig (attempt + t_work (?one + Tally 0 0 0 st 0 0 0 0 0) - 1) it
                  (?one + Tally 0 0 0 st 0 0 0 0 0) (fl_store S) (fl_store S')"
              using d st(4) ss unfolding item_end_def by auto
          qed
        next
          case eo: (Some e)
          have d: "did r item v (Some e)" using did cr ve eo by simp
          obtain vd S4 where jd: "judge r i left attempt e S3 = (vd, S4)" by fastforce
          from judge_effect(2) [OF jd] obtain q where q: "effect r (Tally 0 0 0 0 0 0 q 0 0) S3 S4" "0 \<le> q" "q \<le> 1"
            "vd = Again \<longrightarrow> q = 1 \<and> 0 < left"
            "\<forall>c. vd = GiveUp c \<longrightarrow> q = 0 \<and> valid_class c \<and> c = tr_classifier r e \<and> (c = Transient \<longrightarrow> left = 0)" by blast
          have E4: "effect r (?one + Tally 0 0 0 0 0 0 q 0 0) S S4" "fl_store S4 = fl_store S"
            using effect_trans [OF E3(1) q(1)] judge_effect(1) [OF jd] E3(2) by auto
          note body = run [unfolded work_loop.simps [of r i item key dig left] pause adm Inr None call cr ve eo jd prod.case sum.case option.case]
          show ?thesis
          proof (cases vd)
            case (Stop d')
            then have "res = Inl d'" "S' = S4" using body by simp_all
            then show ?thesis using E4 q(2,3) at
              by (intro exI [of _ "?one + Tally 0 0 0 0 0 0 q 0 0"]) (auto simp: work_tally_def store_moves_def)
          next
            case (GiveUp cl)
            then have f: "fail r i e cl attempt S4 = (res, S')" using body by simp
            from fail_effect(2) [OF f] obtain qu sk where F: "effect r (Tally 0 0 0 0 0 0 0 qu sk) S4 S'" "0 \<le> qu" "0 \<le> sk" "qu + sk \<le> 1"
              "\<forall>it. res = Inr it \<longrightarrow> cl \<noteq> Fatal \<and> OnError (fs_Policy (tr_step r)) \<noteq> FailFast \<and>
                 it = failed_item r i e cl attempt \<and> (if er_skipped it then qu = 0 \<and> sk = 1 else qu = 1 \<and> sk = 0)" by blast
            have cl: "q = 0" "valid_class cl" "cl = tr_classifier r e" "cl = Transient \<longrightarrow> left = 0" using q(5) GiveUp by auto
            let ?t = "?one + Tally 0 0 0 0 0 0 q 0 0 + Tally 0 0 0 0 0 0 0 qu sk"
            show ?thesis
            proof (intro exI conjI)
              show "effect r ?t S S'" by (rule effect_trans [OF E4(1) F(1)])
              show "work_tally attempt left ?t" using F(2-4) cl(1) at by (auto simp: work_tally_def)
              show "\<not> stores r key \<longrightarrow> t_stored ?t = 0" by simp
              show "store_moves r item key (fl_store S) (fl_store S')" using fail_effect(1) [OF f] E4(2) by (simp add: store_moves_def)
              show "\<forall>it. res = Inr it \<longrightarrow> t_work ?t = t_retries ?t + 1 \<and>
                  item_end r i item key dig (attempt + t_work ?t - 1) it ?t (fl_store S) (fl_store S')"
              proof (intro allI impI conjI)
                fix it assume it: "res = Inr it"
                show "t_work ?t = t_retries ?t + 1" using cl(1) by simp
                show "item_end r i item key dig (attempt + t_work ?t - 1) it ?t (fl_store S) (fl_store S')"
                  unfolding item_end_def
                  by (rule disjI2, rule exI [of _ v], rule exI [of _ e])
                     (use d F(5) cl at fail_effect(1) [OF f] E4(2) it in \<open>auto split: if_splits\<close>)
              qed
            qed
          next
            case Again
            then have left: "0 < left" "q = 1" using q(4) by auto
            then have rest: "work_loop r i item key dig (left - 1) (attempt + 1) delay' S4 = Some (res, S')"
              using body Again by (cases left) simp_all
            have "1 \<le> attempt + 1" "attempt + 1 + int (left - 1) = tr_attempts r" using at left by auto
            from less.IH [OF _ rest Do this] left obtain t where t: "effect r t S4 S'" "work_tally (attempt + 1) (left - 1) t"
              "\<not> stores r key \<longrightarrow> t_stored t = 0"
              "store_moves r item key (fl_store S4) (fl_store S')"
              "\<forall>it. res = Inr it \<longrightarrow> t_work t = t_retries t + 1 \<and>
                 item_end r i item key dig (attempt + 1 + t_work t - 1) it t (fl_store S4) (fl_store S')" by auto
            define T where "T = ?one + Tally 0 0 0 0 0 0 q 0 0 + t"
            have sel: "t_work T = 1 + t_work t" "t_retries T = 1 + t_retries t" "t_stored T = t_stored t"
              "t_quarantined T = t_quarantined t" "t_skipped T = t_skipped t" "t_items T = t_items t"
              "t_hits T = t_hits t" "t_misses T = t_misses t" "t_started T = (if attempt = 1 then 1 else 0) + t_started t"
              by (simp_all add: T_def engine_simps left)
            show ?thesis
            proof (intro exI conjI)
              show "effect r T S S'" unfolding T_def by (rule effect_trans [OF E4(1) t(1)])
              show "work_tally attempt left T" using t(2) at left unfolding work_tally_def sel by auto
              show "store_moves r item key (fl_store S) (fl_store S')" using t(4) E4(2) by simp
              show "\<not> stores r key \<longrightarrow> t_stored T = 0" using t(3) sel(3) by simp
              show "\<forall>it. res = Inr it \<longrightarrow> t_work T = t_retries T + 1 \<and>
                  item_end r i item key dig (attempt + t_work T - 1) it T (fl_store S) (fl_store S')"
              proof -
                have n: "attempt + 1 + t_work t - 1 = attempt + t_work T - 1" using sel(1) by simp
                show ?thesis
                proof (intro allI impI conjI)
                  fix it assume it: "res = Inr it"
                  show "t_work T = t_retries T + 1" using t(5) it sel(1,2) by simp
                  have "item_end r i item key dig (attempt + 1 + t_work t - 1) it t (fl_store S4) (fl_store S')"
                    using t(5) it by blast
                  then show "item_end r i item key dig (attempt + t_work T - 1) it T (fl_store S) (fl_store S')"
                    by (simp only: n E4(2) item_end_cong [OF sel(3-5)])
                qed
              qed
            qed
          qed
        qed
      qed
    qed
  qed
qed

text \<open>What \<open>newTypedRunner\<close> ensures of a runner.\<close>

definition runner_ok :: "('i, 'o, 's, 'c, 'u) typed_runner \<Rightarrow> bool" where
  "runner_ok r \<longleftrightarrow> fs_Do (tr_step r) \<noteq> None \<and> 1 \<le> tr_attempts r \<and> 1 \<le> tr_workers r"

lemma newTypedRunner_ok:
  "newTypedRunner s opts = Inr r \<Longrightarrow> runner_ok r \<and> tr_step r = s \<and> tr_options r = opts \<and>
     tr_attempts r = max 1 (Attempts (Retry (fs_Policy s))) \<and> tr_resources r = map rs_Name (Admission (fs_Policy s))"
  by (auto simp: newTypedRunner_def runner_ok_def Let_def split: if_splits)

lemma work_effect:
  assumes "work r i item key dig S = Some (res, S')" and "runner_ok r"
  shows "\<exists>t. effect r t S S' \<and> work_tally 1 (nat (tr_attempts r) - 1) t \<and> (\<not> stores r key \<longrightarrow> t_stored t = 0) \<and>
    store_moves r item key (fl_store S) (fl_store S') \<and>
    (\<forall>it. res = Inr it \<longrightarrow> t_work t = t_retries t + 1 \<and>
       item_end r i item key dig (t_work t) it t (fl_store S) (fl_store S'))"
proof -
  have "1 + int (nat (tr_attempts r) - 1) = tr_attempts r" using assms(2) unfolding runner_ok_def by linarith
  from work_loop_effect [OF assms(1) [unfolded work_def] _ _ this] assms(2)
  show ?thesis by (simp add: runner_ok_def)
qed

section \<open>Leading and following\<close>

text \<open>A leader either replays its key's entry, which calls nothing, charges nothing and stores
  nothing, or counts a miss and works.\<close>

definition hit_item :: "int \<Rightarrow> 'o \<Rightarrow> string \<Rightarrow> 'o erasedItem" where
  "hit_item i v dig = (erased i)\<lparr>er_value := Some v, er_outcome := \<lparr>co_KeyDigest = dig, co_State = CacheHit\<rparr>\<rparr>"

lemma lead_effect:
  assumes run: "lead r ops i item k dig S = Some (res, S')" and r: "runner_ok r"
  shows "(\<exists>h. effect r (Tally 0 h 0 0 0 0 0 0 0) S S' \<and> 0 \<le> h \<and> h \<le> 1 \<and> fl_store S' = fl_store S \<and>
      (\<forall>it. res = Inr it \<longrightarrow> h = 1 \<and> (\<exists>c v. so_Load ops c k (fl_store S) = Inr (Some v) \<and> it = hit_item i v dig))) \<or>
    (\<exists>t. effect r (Tally 0 0 1 0 0 0 0 0 0 + t) S S' \<and> work_tally 1 (nat (tr_attempts r) - 1) t \<and>
      (\<exists>c. so_Load ops c k (fl_store S) = Inr None) \<and>
      store_moves r item (Some k) (fl_store S) (fl_store S') \<and>
      (\<forall>it. res = Inr it \<longrightarrow> t_work t = t_retries t + 1 \<and>
         item_end r i item (Some k) dig (t_work t) it t (fl_store S) (fl_store S')))"
    (is "?hit \<or> ?miss")
proof -
  have z: "Tally 0 0 0 0 0 0 0 0 0 = 0" by (simp add: zero_tally_def)
  obtain c S1 where ob: "observe S = (c, S1)" by fastforce
  note same = observe_same [OF ob]
  have E1: "effect r 0 S S1" using same by (intro effect_same)
  show ?thesis
  proof (cases "so_Load ops c k (fl_store S1)")
    case (Inl e)
    then have "isl res" "S' = S1" using run ob by (auto simp: lead_def)
    then have ?hit using E1 same(2) by (intro exI [of _ 0]) (auto simp: z)
    then show ?thesis ..
  next
    case (Inr found)
    show ?thesis
    proof (cases found)
      case (Some v)
      let ?S2 = "update_counts (\<lambda>c. c\<lparr>Hits := Hits c + 1\<rparr>) S1"
      let ?oc = "\<lparr>co_KeyDigest = dig, co_State = CacheHit\<rparr>"
      obtain e S3 where etn: "event_then_notify r (zero_event\<lparr>ev_Index := i, ev_Type := EventHit\<rparr>) i v ?oc ?S2 = (e, S3)"
        by fastforce
      have E2: "effect r (Tally 0 1 0 0 0 0 0 0 0) S1 ?S2" by (rule effect_counts) (simp_all add: tally_of_def)
      have "effect r (Tally 0 1 0 0 0 0 0 0 0) S S3"
        using E1 E2 event_then_notify_effect(1) [OF etn] by (blast intro: effect_none effect_end)
      moreover have "fl_store S3 = fl_store S"
        using event_then_notify_effect(2) [OF etn] same(2) by (simp add: update_counts_def)
      moreover have "S' = S3 \<and> (\<forall>it. res = Inr it \<longrightarrow> it = hit_item i v dig)"
        using run ob Inr Some etn by (cases e) (auto simp: lead_def Let_def hit_item_def)
      ultimately have ?hit using Inr Some same(2) by (intro exI [of _ 1]) auto
      then show ?thesis ..
    next
      case None
      let ?S2 = "update_counts (\<lambda>c. c\<lparr>Misses := Misses c + 1\<rparr>) S1"
      have w: "work r i item (Some k) dig ?S2 = Some (res, S')" using run ob Inr None by (simp add: lead_def)
      have E2: "effect r (Tally 0 0 1 0 0 0 0 0 0) S1 ?S2" by (rule effect_counts) (simp_all add: tally_of_def)
      have st: "fl_store ?S2 = fl_store S" using same(2) by (simp add: update_counts_def)
      from work_effect [OF w r] obtain t where t: "effect r t ?S2 S'" "work_tally 1 (nat (tr_attempts r) - 1) t"
        "store_moves r item (Some k) (fl_store S) (fl_store S')"
        "\<forall>it. res = Inr it \<longrightarrow> t_work t = t_retries t + 1 \<and>
           item_end r i item (Some k) dig (t_work t) it t (fl_store S) (fl_store S')" unfolding st by blast
      have "effect r (Tally 0 0 1 0 0 0 0 0 0 + t) S S'" using effect_none [OF E1 effect_trans [OF E2 t(1)]] .
      then have ?miss using t(2-4) Inr None same(2) by auto
      then show ?thesis ..
    qed
  qed
qed

definition follower_tally :: "'o inflightCall \<Rightarrow> tally" where
  "follower_tally call =
     (if if_quarantined call \<noteq> None then Tally 0 0 1 0 0 0 0 1 0
      else if if_skipped call then Tally 0 0 1 0 0 0 0 0 1
      else if if_state call = CacheHit then Tally 0 1 0 0 0 0 0 0 0
      else Tally 0 0 1 0 0 0 0 0 0)"

lemma follow_effect:
  assumes run: "follow r zero i call dig S = Some (res, S')"
  shows "fl_store S' = fl_store S"
    and "effect r 0 S S' \<and> isl res \<or> effect r (follower_tally call) S S' \<and> if_done call \<and> if_err call = None \<and>
      (\<forall>it. res = Inr it \<longrightarrow> it = follower_item i call dig)"
proof -
  obtain m S1 where adv: "advance S = (m, S1)" by fastforce
  note same = advance_same [OF adv]
  have E1: "effect r 0 S S1" using same by (intro effect_same)
  have "fl_store S' = fl_store S \<and> (effect r 0 S S' \<and> isl res \<or> effect r (follower_tally call) S S' \<and> if_done call \<and> if_err call = None \<and>
      (\<forall>it. res = Inr it \<longrightarrow> it = follower_item i call dig))"
  proof (cases "(lctx (fl_world S1) \<noteq> None \<and> (\<not> if_done call \<or> \<not> m_timer m)) \<or> if_err call \<noteq> None")
    case True
    then have "isl res" "S' = S1" using run adv by (auto simp: follow_def Let_def split: if_splits)
    then show ?thesis using E1 same(2) by simp
  next
    case False
    then have ok: "if_done call" "if_err call = None" using run adv by (auto simp: follow_def Let_def split: if_splits)
    let ?S2 = "update_counts (snd (follow_counts call)) S1" and ?it = "follower_item i call dig"
    have E2: "effect r (follower_tally call) S1 ?S2"
      by (rule effect_counts) (auto simp: follow_counts_def tally_of_def follower_tally_def)
    obtain e S3 where ev: "event r (zero_event\<lparr>ev_Index := i, ev_Type := fst (follow_counts call)\<rparr>) ?S2 = (e, S3)" by fastforce
    have E3: "effect r (follower_tally call) S S3" "fl_store S3 = fl_store S"
      using effect_end [OF effect_none [OF E1 E2] event_effect(1) [OF ev]] event_effect(2) [OF ev] same(2)
      by (simp_all add: update_counts_def)
    have body: "(case e of Some d \<Rightarrow> Some (Inl d, S3)
        | None \<Rightarrow> if flagged ?it then Some (Inr ?it, S3)
           else (case notify r i (case er_value ?it of Some v \<Rightarrow> v | None \<Rightarrow> zero) (er_outcome ?it) S3 of
                   (Some e, S4) \<Rightarrow> Some (Inl e, S4) | (None, S4) \<Rightarrow> Some (Inr ?it, S4))) = Some (res, S')"
      using run adv False ok ev unfolding follow_def Let_def by (auto split: option.splits)
    obtain e2 S4 where n: "notify r i (case er_value ?it of Some v \<Rightarrow> v | None \<Rightarrow> zero) (er_outcome ?it) S3 = (e2, S4)" by fastforce
    have "(S' = S3 \<or> S' = S4) \<and> (\<forall>it. res = Inr it \<longrightarrow> it = ?it)"
      using body n by (auto split: option.splits if_splits)
    then show ?thesis using E3 ok notify_effect [OF n] by (auto intro: effect_end)
  qed
  then show "fl_store S' = fl_store S"
    and "effect r 0 S S' \<and> isl res \<or> effect r (follower_tally call) S S' \<and> if_done call \<and> if_err call = None \<and>
      (\<forall>it. res = Inr it \<longrightarrow> it = follower_item i call dig)" by blast+
qed

end
