(* ===== verification/Single_Flight.thy ===== *)
theory Single_Flight
  imports Step_Accounting
begin

text \<open>
  The items of a stage in flight: \<open>process\<close> of \<open>typedRunner\<close> and the workers of its \<open>run\<close>
  (\<open>src/flow/run.go\<close>), under every interleaving.

  \<open>process\<close> takes two moves: \<open>process_begin\<close> counts the item and, under the mutex, finds or
  opens the in-flight call of its key; \<open>process_finish\<close> leads, follows or works uncached. A
  configuration has the shared state, the in-flight calls (which are never removed) and the
  place of every item: waiting in the channel, at a worker, or finished. \<open>move\<close> is the step
  relation. At most \<open>Workers\<close> items are at a worker, and a follower moves when its leader has
  closed the call or the context is cancelled.
\<close>

section \<open>The two halves of \<open>process\<close>\<close>

datatype role = Uncached | Leads Key string | Follows string

type_synonym 'o flight = "string \<Rightarrow> 'o inflightCall option"

definition is_cached :: "('i, 'o, 's, 'c, 'u) typed_runner \<Rightarrow> bool" where
  "is_cached r \<longleftrightarrow> id_Kind (fs_Identity (tr_step r)) \<noteq> [] \<and> fo_Store (tr_options r) \<noteq> None"

definition process_begin :: "'v codec \<Rightarrow> ('i, 'o, 's, 'c, 'u) typed_runner \<Rightarrow> int \<Rightarrow> 'i \<Rightarrow>
    ('s, 'c, 'u) flow_state \<times> 'o flight \<Rightarrow> role result \<times> ('s, 'c, 'u) flow_state \<times> 'o flight" where
  "process_begin C r i item Sc =
     (case Sc of (S, flight) \<Rightarrow>
        let S1 = update_counts (\<lambda>c. c\<lparr>Items := Items c + 1\<rparr>) S in
        if \<not> is_cached r then (Inr Uncached, S1, flight)
        else case step_Key C (fs_Name (tr_step r)) (fs_Identity (tr_step r)) item of
            Inl e \<Rightarrow> (Inl e, S1, flight)
          | Inr k \<Rightarrow>
              (case Digest C k of
                 Inl e \<Rightarrow> (Inl (step_error r '': %w'' i [] (Some e)), S1, flight)
               | Inr d \<Rightarrow>
                   (case flight d of
                      Some call \<Rightarrow> (Inr (Follows d), S1, flight)
                    | None \<Rightarrow> (Inr (Leads k d), S1, flight(d \<mapsto> open_call)))))"

definition process_finish :: "('i, 'o, 's, 'c, 'u) typed_runner \<Rightarrow> 'o \<Rightarrow> int \<Rightarrow> 'i \<Rightarrow> role \<Rightarrow>
    ('s, 'c, 'u) flow_state \<times> 'o flight \<Rightarrow> ('o erasedItem result \<times> ('s, 'c, 'u) flow_state \<times> 'o flight) option" where
  "process_finish r zero i item ro Sc =
     (case Sc of (S, flight) \<Rightarrow>
        case ro of
          Uncached \<Rightarrow> map_option (\<lambda>(res, S'). (res, S', flight)) (work r i item None [] S)
        | Leads k d \<Rightarrow>
            (case fo_Store (tr_options r) of
               None \<Rightarrow> None
             | Some ops \<Rightarrow>
                 map_option (\<lambda>(res, S'). (res, S', flight(d \<mapsto> closed_call res))) (lead r ops i item k d S))
        | Follows d \<Rightarrow>
            (case flight d of
               None \<Rightarrow> None
             | Some call \<Rightarrow> map_option (\<lambda>(res, S'). (res, S', flight)) (follow r zero i call d S)))"

text \<open>Both halves without another item in between.\<close>

definition process :: "'v codec \<Rightarrow> ('i, 'o, 's, 'c, 'u) typed_runner \<Rightarrow> 'o \<Rightarrow> int \<Rightarrow> 'i \<Rightarrow>
    ('s, 'c, 'u) flow_state \<times> 'o flight \<Rightarrow> ('o erasedItem result \<times> ('s, 'c, 'u) flow_state \<times> 'o flight) option" where
  "process C r zero i item Sc =
     (case process_begin C r i item Sc of
        (Inl e, Sc') \<Rightarrow> Some (Inl e, Sc')
      | (Inr ro, Sc') \<Rightarrow> process_finish r zero i item ro Sc')"

section \<open>Items in flight\<close>

datatype 'o place = Waiting | Running role | Finished "role option" "'o erasedItem result"

record ('o, 's, 'c, 'u) stage =
  sg_flow :: "('s, 'c, 'u) flow_state"
  sg_calls :: "'o flight"
  sg_places :: "'o place list"

definition stage_start :: "nat \<Rightarrow> ('s, 'c, 'u) flow_state \<Rightarrow> ('o, 's, 'c, 'u) stage" where
  "stage_start n S = \<lparr>sg_flow = S, sg_calls = Map.empty, sg_places = replicate n Waiting\<rparr>"

definition running :: "'o place \<Rightarrow> bool" where
  "running p \<longleftrightarrow> (case p of Running ro \<Rightarrow> True | _ \<Rightarrow> False)"

definition busy :: "'o place list \<Rightarrow> nat" where
  "busy ps = length (filter running ps)"

definition put :: "nat \<Rightarrow> 'o place \<Rightarrow> ('s, 'c, 'u) flow_state \<times> 'o flight \<Rightarrow> ('o, 's, 'c, 'u) stage \<Rightarrow>
    ('o, 's, 'c, 'u) stage" where
  "put j p Sc st = st\<lparr>sg_flow := fst Sc, sg_calls := snd Sc, sg_places := (sg_places st)[j := p]\<rparr>"

inductive move :: "'v codec \<Rightarrow> ('i, 'o, 's, 'c, 'u) typed_runner \<Rightarrow> 'o \<Rightarrow> (int \<times> 'i) list \<Rightarrow>
    ('o, 's, 'c, 'u) stage \<Rightarrow> ('o, 's, 'c, 'u) stage \<Rightarrow> bool"
  for C r zero xs where
  begins: "j < length (sg_places st) \<Longrightarrow> sg_places st ! j = Waiting \<Longrightarrow> int (busy (sg_places st)) < tr_workers r \<Longrightarrow>
     process_begin C r (fst (xs ! j)) (snd (xs ! j)) (sg_flow st, sg_calls st) = (Inr ro, Sc) \<Longrightarrow>
     move C r zero xs st (put j (Running ro) Sc st)"
| rejects: "j < length (sg_places st) \<Longrightarrow> sg_places st ! j = Waiting \<Longrightarrow> int (busy (sg_places st)) < tr_workers r \<Longrightarrow>
     process_begin C r (fst (xs ! j)) (snd (xs ! j)) (sg_flow st, sg_calls st) = (Inl e, Sc) \<Longrightarrow>
     move C r zero xs st (put j (Finished None (Inl e)) Sc st)"
| finishes: "j < length (sg_places st) \<Longrightarrow> sg_places st ! j = Running ro \<Longrightarrow>
     process_finish r zero (fst (xs ! j)) (snd (xs ! j)) ro (sg_flow st, sg_calls st) = Some (res, Sc) \<Longrightarrow>
     move C r zero xs st (put j (Finished (Some ro) res) Sc st)"

abbreviation reaches :: "'v codec \<Rightarrow> ('i, 'o, 's, 'c, 'u) typed_runner \<Rightarrow> 'o \<Rightarrow> (int \<times> 'i) list \<Rightarrow>
    ('o, 's, 'c, 'u) stage \<Rightarrow> ('o, 's, 'c, 'u) stage \<Rightarrow> bool" where
  "reaches C r zero xs \<equiv> (move C r zero xs)\<^sup>*\<^sup>*"

lemma put_select [engine_simps]:
  "sg_flow (put j p Sc st) = fst Sc" "sg_calls (put j p Sc st) = snd Sc"
  "sg_places (put j p Sc st) = (sg_places st)[j := p]"
  by (simp_all add: put_def)

section \<open>Accounting\<close>

text \<open>The tally of an item so far, and of one that finished without an error.\<close>

definition sane :: "('i, 'o, 's, 'c, 'u) typed_runner \<Rightarrow> tally \<Rightarrow> bool" where
  "sane r t \<longleftrightarrow> 0 \<le> t_hits t \<and> 0 \<le> t_misses t \<and> t_hits t + t_misses t \<le> 1 \<and>
     0 \<le> t_work t \<and> t_work t \<le> tr_attempts r \<and> 0 \<le> t_retries t \<and> t_retries t \<le> t_work t \<and>
     t_work t \<le> t_retries t + 1 \<and> t_started t = (if 0 < t_work t then 1 else 0) \<and>
     0 \<le> t_stored t \<and> t_stored t \<le> t_misses t \<and> 0 \<le> t_quarantined t \<and> 0 \<le> t_skipped t \<and>
     t_stored t + t_quarantined t + t_skipped t \<le> 1"

definition settled :: "role \<Rightarrow> 'o erasedItem \<Rightarrow> tally \<Rightarrow> bool" where
  "settled ro it t \<longleftrightarrow> t_work t = t_retries t + t_started t \<and> (ro \<noteq> Uncached \<longrightarrow> t_hits t + t_misses t = 1) \<and>
     t_quarantined t = (if er_quarantined it \<noteq> None then 1 else 0) \<and>
     t_skipped t = (if er_quarantined it = None \<and> er_skipped it then 1 else 0)"

lemma work_sane:
  assumes "work_tally 1 (nat (tr_attempts r) - 1) t" and "runner_ok r" and "t_stored t \<le> m" and "m = 0 \<or> m = 1"
  shows "sane r (Tally 0 0 m 0 0 0 0 0 0 + t)"
proof -
  have "int (nat (tr_attempts r) - 1) + 1 = tr_attempts r" using assms(2) unfolding runner_ok_def by linarith
  then have "t_work t \<le> tr_attempts r" using assms(1) by (simp add: work_tally_def)
  then show ?thesis using assms(1,3,4) by (auto simp: work_tally_def sane_def engine_simps)
qed

lemma item_end_settled:
  assumes "item_end r i item key dig n it t s s'" and "t_work t = t_retries t + 1" and "work_tally 1 l t"
    and "ro \<noteq> Uncached \<longrightarrow> m = 1"
  shows "settled ro it (Tally 0 0 m 0 0 0 0 0 0 + t)"
  using assms by (auto simp: item_end_def settled_def work_tally_def done_item_def failed_item_def erased_def engine_simps
      split: if_splits)

text \<open>The second half of \<open>process\<close>, whatever the in-flight calls are.\<close>

lemma process_finish_effect:
  assumes run: "process_finish r zero i item ro (S, flight) = Some (res, S', flight')" and r: "runner_ok r"
  shows "\<exists>t. effect r t S S' \<and> t_items t = 0 \<and> sane r t \<and> (\<forall>it. res = Inr it \<longrightarrow> settled ro it t) \<and>
    (\<forall>d. ro = Follows d \<longrightarrow> t_started t = 0)"
proof -
  have n: "1 \<le> tr_attempts r" using r by (simp add: runner_ok_def)
  show ?thesis
  proof (cases ro)
    case Uncached
    with run have w: "work r i item None [] S = Some (res, S')" by (auto simp: process_finish_def)
    from work_effect [OF w r] obtain t where t: "effect r t S S'" "work_tally 1 (nat (tr_attempts r) - 1) t"
      "t_stored t = 0" "\<forall>it. res = Inr it \<longrightarrow> t_work t = t_retries t + 1 \<and>
         item_end r i item None [] (t_work t) it t (fl_store S) (fl_store S')" by (auto simp: stores_def)
    have z: "Tally 0 0 0 0 0 0 0 0 0 + t = t" using add_0 [of t] by (simp add: zero_tally_def)
    have "sane r t" using work_sane [OF t(2) r, of 0] t(3) by (simp add: z)
    moreover have "settled ro it t" if "res = Inr it" for it
    proof -
      from t(4) that have w: "t_work t = t_retries t + 1" "item_end r i item None [] (t_work t) it t (fl_store S) (fl_store S')" by blast+
      from item_end_settled [OF w(2,1) t(2), of ro 0] Uncached show ?thesis by (simp add: z)
    qed
    moreover have "t_items t = 0" using t(2) by (simp add: work_tally_def)
    ultimately show ?thesis using t(1) Uncached by blast
  next
    case (Leads k d)
    with run obtain ops where l: "lead r ops i item k d S = Some (res, S')" by (auto simp: process_finish_def split: option.splits)
    from lead_effect [OF l r] show ?thesis
    proof
      assume "\<exists>h. effect r (Tally 0 h 0 0 0 0 0 0 0) S S' \<and> 0 \<le> h \<and> h \<le> 1 \<and> fl_store S' = fl_store S \<and>
        (\<forall>it. res = Inr it \<longrightarrow> h = 1 \<and> (\<exists>c v. so_Load ops c k (fl_store S) = Inr (Some v) \<and> it = hit_item i v d))"
      then obtain h where h: "effect r (Tally 0 h 0 0 0 0 0 0 0) S S'" "0 \<le> h" "h \<le> 1"
        "\<forall>it. res = Inr it \<longrightarrow> h = 1 \<and> (\<exists>v. it = hit_item i v d)" by blast
      show ?thesis
        by (rule exI [of _ "Tally 0 h 0 0 0 0 0 0 0"])
           (use h n Leads in \<open>auto simp: sane_def settled_def hit_item_def erased_def\<close>)
    next
      assume "\<exists>t. effect r (Tally 0 0 1 0 0 0 0 0 0 + t) S S' \<and> work_tally 1 (nat (tr_attempts r) - 1) t \<and>
        (\<exists>c. so_Load ops c k (fl_store S) = Inr None) \<and> store_moves r item (Some k) (fl_store S) (fl_store S') \<and>
        (\<forall>it. res = Inr it \<longrightarrow> t_work t = t_retries t + 1 \<and>
           item_end r i item (Some k) d (t_work t) it t (fl_store S) (fl_store S'))"
      then obtain t where t: "effect r (Tally 0 0 1 0 0 0 0 0 0 + t) S S'" "work_tally 1 (nat (tr_attempts r) - 1) t"
        "\<forall>it. res = Inr it \<longrightarrow> t_work t = t_retries t + 1 \<and>
           item_end r i item (Some k) d (t_work t) it t (fl_store S) (fl_store S')" by blast
      have "sane r (Tally 0 0 1 0 0 0 0 0 0 + t)" using t(2) by (intro work_sane [OF t(2) r]) (simp_all add: work_tally_def)
      moreover have "settled ro it (Tally 0 0 1 0 0 0 0 0 0 + t)" if "res = Inr it" for it
        using item_end_settled [of r i item "Some k" d "t_work t" it t _ _ _ ro 1] t(2,3) that by blast
      moreover have "t_items (Tally 0 0 1 0 0 0 0 0 0 + t) = 0" using t(2) by (simp add: work_tally_def engine_simps)
      ultimately show ?thesis using t(1) Leads by blast
    qed
  next
    case (Follows d)
    with run obtain call where f: "follow r zero i call d S = Some (res, S')" by (auto simp: process_finish_def split: option.splits)
    from follow_effect(2) [OF f] show ?thesis
    proof
      assume "effect r 0 S S' \<and> isl res"
      then show ?thesis using n Follows by (intro exI [of _ 0]) (auto simp: sane_def engine_simps)
    next
      assume a: "effect r (follower_tally call) S S' \<and> if_done call \<and> if_err call = None \<and>
        (\<forall>it. res = Inr it \<longrightarrow> it = follower_item i call d)"
      have "sane r (follower_tally call)" "t_items (follower_tally call) = 0" "t_started (follower_tally call) = 0"
        using n by (simp_all add: follower_tally_def sane_def)
      moreover have "settled ro (follower_item i call d) (follower_tally call)"
        by (auto simp: follower_tally_def settled_def follower_item_def)
      ultimately show ?thesis using a by blast
    qed
  qed
qed

lemma process_begin_effect:
  "process_begin C r i item (S, flight) = (res, S', flight') \<Longrightarrow>
     effect r (Tally 1 0 0 0 0 0 0 0 0) S S' \<and> fl_store S' = fl_store S \<and> (is_cached r \<longleftrightarrow> res \<noteq> Inr Uncached)"
  by (auto simp: process_begin_def Let_def update_counts_def effect_def tally_of_def split: if_splits sum.splits option.splits)

lemma sum_list_add_at:
  "j < length ts \<Longrightarrow> sum_list (ts[j := ts ! j + t]) = sum_list ts + (t :: 'a :: comm_monoid_add)"
proof (induction ts arbitrary: j)
  case (Cons a ts)
  then show ?case by (cases j) (simp_all add: ac_simps)
qed simp

text \<open>What is counted for an item at each place.\<close>

definition place_tally :: "('i, 'o, 's, 'c, 'u) typed_runner \<Rightarrow> 'o place \<Rightarrow> tally \<Rightarrow> bool" where
  "place_tally r p t \<longleftrightarrow>
     (case p of
        Waiting \<Rightarrow> t = 0
      | Running ro \<Rightarrow> t = Tally 1 0 0 0 0 0 0 0 0 \<and> (is_cached r \<longleftrightarrow> ro \<noteq> Uncached)
      | Finished ro res \<Rightarrow> t_items t = 1 \<and> sane r t \<and> (ro = None \<longrightarrow> isl res \<and> t_started t = 0) \<and>
          (\<forall>role. ro = Some role \<longrightarrow> (is_cached r \<longleftrightarrow> role \<noteq> Uncached)) \<and>
          (\<forall>role it. ro = Some role \<and> res = Inr it \<longrightarrow> settled role it t) \<and>
          (\<forall>d. ro = Some (Follows d) \<longrightarrow> t_started t = 0))"

definition accounted_for :: "('i, 'o, 's, 'c, 'u) typed_runner \<Rightarrow> ('s, 'c, 'u) flow_state \<Rightarrow>
    ('o, 's, 'c, 'u) stage \<Rightarrow> tally list \<Rightarrow> bool" where
  "accounted_for r S0 st ts \<longleftrightarrow> length ts = length (sg_places st) \<and> effect r (sum_list ts) S0 (sg_flow st) \<and>
     (\<forall>j < length ts. place_tally r (sg_places st ! j) (ts ! j))"

lemma accounted_put:
  assumes acc: "accounted_for r S0 st ts" and j: "j < length (sg_places st)"
    and eff: "effect r t (sg_flow st) (fst Sc)" and p: "place_tally r p (ts ! j + t)"
  shows "accounted_for r S0 (put j p Sc st) (ts[j := ts ! j + t])"
  using assms effect_trans [OF _ eff, of "sum_list ts" S0]
  by (auto simp: accounted_for_def engine_simps sum_list_add_at nth_list_update)

lemma move_accounted:
  assumes "move C r zero xs st st'" and r: "runner_ok r" and acc: "accounted_for r S0 st ts"
  shows "\<exists>ts'. accounted_for r S0 st' ts'"
  using assms(1)
proof cases
  case (begins j ro Sc)
  obtain S' fl' where Sc: "Sc = (S', fl')" by (cases Sc)
  note e = process_begin_effect [OF begins(5) [unfolded Sc]]
  have "place_tally r Waiting (ts ! j)" using acc begins(2,3) by (metis accounted_for_def)
  then have "place_tally r (Running ro) (ts ! j + Tally 1 0 0 0 0 0 0 0 0)" using e by (auto simp: place_tally_def)
  from accounted_put [OF acc begins(2) _ this, of Sc] e Sc begins(1) show ?thesis by auto
next
  case (rejects j e' Sc)
  obtain S' fl' where Sc: "Sc = (S', fl')" by (cases Sc)
  note e = process_begin_effect [OF rejects(5) [unfolded Sc]]
  have n: "1 \<le> tr_attempts r" using r by (simp add: runner_ok_def)
  have "place_tally r Waiting (ts ! j)" using acc rejects(2,3) by (metis accounted_for_def)
  then have "place_tally r (Finished None (Inl e')) (ts ! j + Tally 1 0 0 0 0 0 0 0 0)"
    using n by (auto simp: place_tally_def sane_def)
  from accounted_put [OF acc rejects(2) _ this, of Sc] e Sc rejects(1) show ?thesis by auto
next
  case (finishes j ro res Sc)
  obtain S' fl' where Sc: "Sc = (S', fl')" by (cases Sc)
  from process_finish_effect [OF finishes(4) [unfolded Sc] r] obtain t where t: "effect r t (sg_flow st) S'"
    "t_items t = 0" "sane r t" "\<forall>it. res = Inr it \<longrightarrow> settled ro it t" "\<forall>d. ro = Follows d \<longrightarrow> t_started t = 0" by blast
  have "place_tally r (Running ro) (ts ! j)" using acc finishes(2,3) by (metis accounted_for_def)
  then have "place_tally r (Finished (Some ro) res) (ts ! j + t)"
    using t by (auto simp: place_tally_def sane_def settled_def engine_simps)
  from accounted_put [OF acc finishes(2) _ this, of Sc] t(1) Sc finishes(1) show ?thesis by auto
qed

lemma reaches_accounted:
  assumes "reaches C r zero xs (stage_start n S0) st" and "runner_ok r"
  shows "\<exists>ts. accounted_for r S0 st ts"
  using assms(1)
proof (induction rule: rtranclp_induct)
  case base
  have "sum_list (replicate n 0) = (0 :: tally)" by (induction n) simp_all
  then have "accounted_for r S0 (stage_start n S0) (replicate n 0)"
    by (simp add: accounted_for_def stage_start_def place_tally_def effect_refl)
  then show ?case ..
next
  case (step st st')
  from step.IH obtain ts where "accounted_for r S0 st ts" ..
  from move_accounted [OF step.hyps(2) assms(2) this] show ?case .
qed

section \<open>One flight per key\<close>

definition item_key :: "'v codec \<Rightarrow> ('i, 'o, 's, 'c, 'u) typed_runner \<Rightarrow> 'i \<Rightarrow> (Key \<times> string) option" where
  "item_key C r x =
     (case step_Key C (fs_Name (tr_step r)) (fs_Identity (tr_step r)) x of
        Inl _ \<Rightarrow> None
      | Inr k \<Rightarrow> (case Digest C k of Inl _ \<Rightarrow> None | Inr d \<Rightarrow> Some (k, d)))"

text \<open>The role that was given to an item.\<close>

fun role_of :: "'o place \<Rightarrow> role option" where
  "role_of Waiting = None"
| "role_of (Running ro) = Some ro"
| "role_of (Finished ro res) = ro"

definition call_of :: "'o place \<Rightarrow> 'o inflightCall" where
  "call_of p = (case p of Finished _ res \<Rightarrow> closed_call res | _ \<Rightarrow> open_call)"

definition leads_at :: "'o place list \<Rightarrow> nat \<Rightarrow> string \<Rightarrow> bool" where
  "leads_at ps j d \<longleftrightarrow> j < length ps \<and> (\<exists>k. role_of (ps ! j) = Some (Leads k d))"

text \<open>Every open or closed call has exactly one leader, whose place it mirrors; an item that
  leads or follows a digest has that digest; and a finished follower has its leader's item.\<close>

definition flight_inv :: "'v codec \<Rightarrow> ('i, 'o, 's, 'c, 'u) typed_runner \<Rightarrow> (int \<times> 'i) list \<Rightarrow>
    'o place list \<Rightarrow> 'o flight \<Rightarrow> bool" where
  "flight_inv C r xs ps fl \<longleftrightarrow>
     (\<forall>j d. leads_at ps j d \<longrightarrow> fl d = Some (call_of (ps ! j))) \<and>
     (\<forall>i j d. leads_at ps i d \<longrightarrow> leads_at ps j d \<longrightarrow> i = j) \<and>
     (\<forall>d. fl d \<noteq> None \<longrightarrow> (\<exists>j. leads_at ps j d)) \<and>
     (\<forall>j < length ps. \<forall>k d. role_of (ps ! j) = Some (Leads k d) \<longrightarrow> item_key C r (snd (xs ! j)) = Some (k, d)) \<and>
     (\<forall>j < length ps. \<forall>d. role_of (ps ! j) = Some (Follows d) \<longrightarrow> (\<exists>k. item_key C r (snd (xs ! j)) = Some (k, d)))"

definition result_inv :: "(int \<times> 'i) list \<Rightarrow> 'o place list \<Rightarrow> bool" where
  "result_inv xs ps \<longleftrightarrow>
     (\<forall>j < length ps. \<forall>k d it. ps ! j = Finished (Some (Leads k d)) (Inr it) \<longrightarrow>
        er_outcome it = (if co_State (er_outcome it) \<noteq> [] then \<lparr>co_KeyDigest = d, co_State = co_State (er_outcome it)\<rparr>
                         else zero_outcome)) \<and>
     (\<forall>j < length ps. \<forall>d it. ps ! j = Finished (Some (Follows d)) (Inr it) \<longrightarrow>
        (\<exists>i k lt. i < length ps \<and> ps ! i = Finished (Some (Leads k d)) (Inr lt) \<and>
           it = follower_item (fst (xs ! j)) (closed_call (Inr lt)) d))"

lemma leads_at_put: "j < length ps \<Longrightarrow> leads_at (ps[j := p]) i d \<longleftrightarrow>
    (if i = j then \<exists>k. role_of p = Some (Leads k d) else leads_at ps i d)"
  by (auto simp: leads_at_def)

lemma process_begin_role:
  assumes "process_begin C r i x (S, fl) = (Inr ro, S', fl')"
  shows "(ro = Uncached \<and> fl' = fl) \<or>
    (\<exists>k d. item_key C r x = Some (k, d) \<and> ((ro = Follows d \<and> fl d \<noteq> None \<and> fl' = fl) \<or>
       (ro = Leads k d \<and> fl d = None \<and> fl' = fl(d \<mapsto> open_call))))"
  using assms by (auto simp: process_begin_def item_key_def Let_def split: if_splits sum.splits option.splits)

lemma process_begin_error: "process_begin C r i x (S, fl) = (Inl e, S', fl') \<Longrightarrow> fl' = fl"
  by (auto simp: process_begin_def Let_def split: if_splits sum.splits option.splits)

lemma process_finish_calls:
  assumes "process_finish r zero i x ro (S, fl) = Some (res, S', fl')"
  shows "fl' = (case ro of Leads k d \<Rightarrow> fl(d \<mapsto> closed_call res) | _ \<Rightarrow> fl)"
  using assms by (auto simp: process_finish_def split: role.splits option.splits)

lemma move_flight:
  assumes "move C r zero xs st st'" and inv: "flight_inv C r xs (sg_places st) (sg_calls st)"
  shows "flight_inv C r xs (sg_places st') (sg_calls st')"
  using assms(1)
proof cases
  case (begins j ro Sc)
  obtain S' fl' where Sc: "Sc = (S', fl')" by (cases Sc)
  let ?ps = "sg_places st"
  have none: "role_of (?ps ! j) = None" using begins(3) by simp
  then have nol: "\<not> leads_at ?ps j d" for d by (simp add: leads_at_def)
  from process_begin_role [OF begins(5) [unfolded Sc]] consider "ro = Uncached" "fl' = sg_calls st"
    | k d where "item_key C r (snd (xs ! j)) = Some (k, d)" "ro = Follows d" "sg_calls st d \<noteq> None" "fl' = sg_calls st"
    | k d where "item_key C r (snd (xs ! j)) = Some (k, d)" "ro = Leads k d" "sg_calls st d = None"
      "fl' = (sg_calls st)(d \<mapsto> open_call)" by blast
  then have "flight_inv C r xs (?ps[j := Running ro]) fl'"
  proof cases
    case 1
    have same: "leads_at (?ps[j := Running ro]) i d \<longleftrightarrow> leads_at ?ps i d" for i d
      using begins(2) nol 1 by (auto simp: leads_at_put)
    moreover have "leads_at ?ps i d \<Longrightarrow> ?ps[j := Running ro] ! i = ?ps ! i" for i d using nol by (metis nth_list_update_neq)
    ultimately show ?thesis using inv 1 begins(2) unfolding flight_inv_def same
      by (simp add: nth_list_update)
  next
    case (2 k d)
    have same: "leads_at (?ps[j := Running ro]) i d' \<longleftrightarrow> leads_at ?ps i d'" for i d'
      using begins(2) nol 2 by (auto simp: leads_at_put)
    moreover have "leads_at ?ps i d' \<Longrightarrow> ?ps[j := Running ro] ! i = ?ps ! i" for i d' using nol by (metis nth_list_update_neq)
    ultimately show ?thesis using inv 2 begins(2) unfolding flight_inv_def same
      by (simp add: nth_list_update)
  next
    case (3 k d)
    have no: "\<not> leads_at ?ps i d" for i using inv 3(3) unfolding flight_inv_def by force
    have new: "leads_at (?ps[j := Running ro]) i d' \<longleftrightarrow> (i = j \<and> d' = d) \<or> leads_at ?ps i d'" for i d'
      using begins(2) nol 3(2) by (auto simp: leads_at_put)
    have old: "leads_at ?ps i d' \<Longrightarrow> ?ps[j := Running ro] ! i = ?ps ! i" for i d' using nol by (metis nth_list_update_neq)
    show ?thesis unfolding flight_inv_def new
    proof (intro conjI)
      show "\<forall>i d'. i = j \<and> d' = d \<or> leads_at ?ps i d' \<longrightarrow> fl' d' = Some (call_of (?ps[j := Running ro] ! i))"
        using inv no old begins(2) 3(2,4) unfolding flight_inv_def by (auto simp: call_of_def)
      show "\<forall>i i' d'. i = j \<and> d' = d \<or> leads_at ?ps i d' \<longrightarrow> i' = j \<and> d' = d \<or> leads_at ?ps i' d' \<longrightarrow> i = i'"
        using inv no unfolding flight_inv_def by blast
      show "\<forall>d'. fl' d' \<noteq> None \<longrightarrow> (\<exists>i. i = j \<and> d' = d \<or> leads_at ?ps i d')"
        using inv 3(4) unfolding flight_inv_def by (metis fun_upd_apply)
    qed (use inv 3(1,2) begins(2) in \<open>auto simp: flight_inv_def nth_list_update\<close>)
  qed
  then show ?thesis using begins(1) Sc by (simp add: engine_simps)
next
  case (rejects j e Sc)
  obtain S' fl' where Sc: "Sc = (S', fl')" by (cases Sc)
  let ?ps = "sg_places st" and ?p = "Finished None (Inl e)"
  have fl: "fl' = sg_calls st" using process_begin_error [OF rejects(5) [unfolded Sc]] .
  have nol: "\<not> leads_at ?ps j d" for d using rejects(3) by (simp add: leads_at_def)
  have same: "leads_at (?ps[j := ?p]) i d \<longleftrightarrow> leads_at ?ps i d" for i d
    using rejects(2) nol by (auto simp: leads_at_put)
  moreover have "leads_at ?ps i d \<Longrightarrow> ?ps[j := ?p] ! i = ?ps ! i" for i d using nol by (metis nth_list_update_neq)
  ultimately have "flight_inv C r xs (?ps[j := ?p]) (sg_calls st)" using inv rejects(2) unfolding flight_inv_def same
    by (simp add: nth_list_update)
  then show ?thesis using rejects(1) Sc fl by (simp add: engine_simps)
next
  case (finishes j ro res Sc)
  obtain S' fl' where Sc: "Sc = (S', fl')" by (cases Sc)
  let ?ps = "sg_places st" and ?p = "Finished (Some ro) res"
  note fl = process_finish_calls [OF finishes(4) [unfolded Sc]]
  have role: "role_of (?ps ! j) = role_of ?p" using finishes(3) by simp
  have roles: "role_of (?ps[j := ?p] ! i) = role_of (?ps ! i)" if "i < length ?ps" for i
    using role that by (cases "i = j") simp_all
  have same: "leads_at (?ps[j := ?p]) i d \<longleftrightarrow> leads_at ?ps i d" for i d
    by (auto simp: leads_at_def roles)
  have calls: "fl' d = Some (call_of (?ps[j := ?p] ! i))" if l: "leads_at ?ps i d" for i d
  proof (cases "i = j")
    case True
    then obtain k where "ro = Leads k d" using l finishes(3) by (auto simp: leads_at_def)
    then show ?thesis using fl True finishes(2) by (simp add: call_of_def)
  next
    case False
    have "\<not> leads_at ?ps j d" using inv l False unfolding flight_inv_def by blast
    then have "fl' d = sg_calls st d" using fl finishes(2,3) by (auto simp: leads_at_def split: role.splits)
    then show ?thesis using inv l False unfolding flight_inv_def by simp
  qed
  have dom: "fl' d \<noteq> None \<Longrightarrow> \<exists>i. leads_at ?ps i d" for d
  proof -
    assume d: "fl' d \<noteq> None"
    show "\<exists>i. leads_at ?ps i d"
    proof (cases "sg_calls st d = None")
      case True
      then obtain k where "ro = Leads k d" using d fl by (auto split: role.splits if_splits)
      then show ?thesis using finishes(2,3) by (auto simp: leads_at_def)
    next
      case False
      then show ?thesis using inv unfolding flight_inv_def by blast
    qed
  qed
  have "flight_inv C r xs (?ps[j := ?p]) fl'" unfolding flight_inv_def same
    using inv calls dom roles unfolding flight_inv_def by simp
  then show ?thesis using finishes(1) Sc by (simp add: engine_simps)
qed

lemma lead_outcome:
  assumes "lead r ops i x k d S = Some (Inr it, S')" and "runner_ok r"
  shows "er_outcome it = (if co_State (er_outcome it) \<noteq> [] then \<lparr>co_KeyDigest = d, co_State = co_State (er_outcome it)\<rparr>
    else zero_outcome)"
proof -
  from lead_effect [OF assms] consider v where "it = hit_item i v d"
    | t where "item_end r i x (Some k) d (t_work t) it t (fl_store S) (fl_store S')" by blast
  then show ?thesis
    by cases (auto simp: item_end_def hit_item_def done_item_def failed_item_def erased_def cache_state_defs zero_outcome_def)
qed

lemma move_result:
  assumes "move C r zero xs st st'" and r: "runner_ok r"
    and fli: "flight_inv C r xs (sg_places st) (sg_calls st)" and inv: "result_inv xs (sg_places st)"
  shows "result_inv xs (sg_places st')"
proof -
  let ?ps = "sg_places st"
  have keep: "result_inv xs (?ps[j := p])" if "\<forall>ro it. ?ps ! j \<noteq> Finished ro (Inr it)" "\<forall>ro it. p \<noteq> Finished ro (Inr it)"
    "j < length ?ps" for j p
  proof -
    have other: "?ps[j := p] ! i = Finished ro (Inr it) \<longleftrightarrow> i < length ?ps \<and> ?ps ! i = Finished ro (Inr it)"
      if "i < length ?ps" for i ro it
      using that \<open>\<forall>ro it. ?ps ! j \<noteq> Finished ro (Inr it)\<close> \<open>\<forall>ro it. p \<noteq> Finished ro (Inr it)\<close> by (cases "i = j") auto
    show ?thesis using inv unfolding result_inv_def length_list_update
      by (metis (no_types, lifting) other)
  qed
  from assms(1) show ?thesis
  proof cases
    case (begins j ro Sc)
    then show ?thesis using keep [of j "Running ro"] by (simp add: engine_simps)
  next
    case (rejects j e Sc)
    then show ?thesis using keep [of j "Finished None (Inl e)"] by (simp add: engine_simps)
  next
    case (finishes j ro res Sc)
    obtain S' fl' where Sc: "Sc = (S', fl')" by (cases Sc)
    note fin = finishes(4) [unfolded Sc]
    let ?p = "Finished (Some ro) res"
    have "result_inv xs (?ps[j := ?p])"
    proof (cases res)
      case (Inl e)
      then show ?thesis using keep [of j ?p] finishes(2,3) by simp
    next
      case (Inr it)
      have old: "?ps ! i = Finished ro' (Inr it') \<Longrightarrow> ?ps[j := ?p] ! i = Finished ro' (Inr it')" for i ro' it'
        using finishes(3) by (metis nth_list_update_neq place.distinct(5))
      have leader: "er_outcome it = (if co_State (er_outcome it) \<noteq> [] then \<lparr>co_KeyDigest = d, co_State = co_State (er_outcome it)\<rparr>
          else zero_outcome)" if "ro = Leads k d" for k d
      proof -
        from fin that Inr obtain ops where "lead r ops (fst (xs ! j)) (snd (xs ! j)) k d (sg_flow st) = Some (Inr it, S')"
          by (auto simp: process_finish_def split: option.splits)
        then show ?thesis by (rule lead_outcome [OF _ r])
      qed
      have follower: "\<exists>i k lt. i < length ?ps \<and> ?ps ! i = Finished (Some (Leads k d)) (Inr lt) \<and>
          it = follower_item (fst (xs ! j)) (closed_call (Inr lt)) d" if "ro = Follows d" for d
      proof -
        from fin that Inr obtain call where call: "sg_calls st d = Some call"
          and f: "follow r zero (fst (xs ! j)) call d (sg_flow st) = Some (Inr it, S')"
          by (auto simp: process_finish_def split: option.splits)
        from follow_effect(2) [OF f] have c: "if_done call" "if_err call = None" "it = follower_item (fst (xs ! j)) call d" by auto
        from fli call obtain i where i: "leads_at ?ps i d" unfolding flight_inv_def by blast
        then have co: "call = call_of (?ps ! i)" using fli call unfolding flight_inv_def by fastforce
        then obtain ro' res' where fi: "?ps ! i = Finished ro' res'" using c(1)
          by (cases "?ps ! i") (auto simp: call_of_def open_call_def)
        then obtain lt where "res' = Inr lt" using co c(2) by (cases res') (auto simp: call_of_def closed_call_def Let_def)
        then show ?thesis using i fi co c(3) unfolding leads_at_def by (auto simp: call_of_def)
      qed
      show ?thesis unfolding result_inv_def length_list_update
      proof (intro conjI allI impI)
        fix i k d it'
        assume i: "i < length ?ps" and fi: "?ps[j := ?p] ! i = Finished (Some (Leads k d)) (Inr it')"
        show "er_outcome it' = (if co_State (er_outcome it') \<noteq> [] then \<lparr>co_KeyDigest = d, co_State = co_State (er_outcome it')\<rparr>
            else zero_outcome)"
        proof (cases "i = j")
          case True
          then have "ro = Leads k d" "it' = it" using fi i Inr by simp_all
          then show ?thesis using leader by blast
        next
          case False
          then show ?thesis using inv i fi unfolding result_inv_def by (metis nth_list_update_neq)
        qed
      next
        fix i d it'
        assume i: "i < length ?ps" and fi: "?ps[j := ?p] ! i = Finished (Some (Follows d)) (Inr it')"
        show "\<exists>i' k lt. i' < length ?ps \<and> ?ps[j := ?p] ! i' = Finished (Some (Leads k d)) (Inr lt) \<and>
          it' = follower_item (fst (xs ! i)) (closed_call (Inr lt)) d"
        proof (cases "i = j")
          case True
          then have "ro = Follows d" "it' = it" using fi i Inr by simp_all
          then show ?thesis using follower old True by blast
        next
          case False
          then have "?ps ! i = Finished (Some (Follows d)) (Inr it')" using fi by simp
          then show ?thesis using inv i old unfolding result_inv_def by blast
        qed
      qed
    qed
    then show ?thesis using finishes(1) by (simp add: engine_simps)
  qed
qed

lemma leads_at_start: "\<not> leads_at (replicate n Waiting) j d"
  by (auto simp: leads_at_def)

lemma reaches_flight:
  assumes "reaches C r zero xs (stage_start n S0) st" and r: "runner_ok r"
  shows "flight_inv C r xs (sg_places st) (sg_calls st) \<and> result_inv xs (sg_places st) \<and> length (sg_places st) = n"
  using assms(1)
proof (induction rule: rtranclp_induct)
  case base
  show ?case by (simp add: flight_inv_def result_inv_def stage_start_def leads_at_start)
next
  case (step st st')
  have "length (sg_places st') = length (sg_places st)" using step.hyps(2) by cases (simp_all add: engine_simps)
  then show ?case using step move_flight [OF step.hyps(2)] move_result [OF step.hyps(2) r] by simp
qed

section \<open>Sums over the items\<close>

lemma tally_sum:
  assumes "\<And>a b. f (a + b) = f a + f b" and "f 0 = (0 :: int)"
  shows "f (sum_list ts) = (\<Sum>j < length ts. f (ts ! j))"
proof -
  have "f (sum_list ts) = sum_list (map f ts)" by (induction ts) (simp_all add: assms)
  also have "\<dots> = (\<Sum>j < length ts. f (ts ! j))" by (simp add: sum_list_sum_nth atLeast0LessThan)
  finally show ?thesis .
qed

lemma sum_indicator: "(\<Sum>j < (n :: nat). if P j then 1 else (0 :: int)) = int (card {j. j < n \<and> P j})"
proof -
  have "(\<Sum>j < n. if P j then 1 else (0 :: int)) = (\<Sum>j \<in> {j \<in> {..< n}. P j}. 1)"
    by (rule sum.inter_filter [symmetric]) simp
  then show ?thesis by simp
qed

lemma tally_of_start: "tally_of zero_report = 0"
  by (simp add: tally_of_def zero_report_def zero_tally_def)

section \<open>Properties\<close>

text \<open>The stage of the witnesses: judges strings through the file-less store of the model, with
  one budget of two units. The work fails on the empty string, as data.\<close>

definition demo_store :: "(string, (Key \<times> string) list) store_ops" where
  "demo_store = \<lparr>so_Load = (\<lambda>c k s. Inr (map_of s k)), so_Store = (\<lambda>c k v s. (None, (k, v) # s))\<rparr>"

definition demo_step :: "(string, string, nat) step" where
  "demo_step = \<lparr>fs_Name = ''judge'',
     fs_Identity = \<lparr>id_Kind = ''judge'', id_Version = ''v1'', id_Key = Some Inr\<rparr>,
     fs_Policy = \<lparr>po_Workers = 2, Admission = [], Retry = \<lparr>Attempts = 2, Backoff = \<lparr>Base = 0, Cap = 0\<rparr>, Class = None\<rparr>,
        OnError = Quarantine\<rparr>,
     fs_Barrier = False,
     fs_Do = Some (\<lambda>c x n. if x = [] then ([], Some (DataErr (Foreign ''empty'')), n + 1) else (x @ ''!'', None, n + 1)),
     fs_Meter = None, fs_AttemptMeter = None, fs_OnResult = None\<rparr>"

definition demo_flow :: "(string, (Key \<times> string) list, unit, nat) flow_options" where
  "demo_flow = \<lparr>fo_Store = Some demo_store,
     fo_obs = \<lparr>oo_Reporter = None, oo_Ledger = None, oo_ReportInterval = 0, oo_Clock = None, oo_wall = (\<lambda>u. (0, u))\<rparr>,
     fo_env = newRunEnv [] None 0, fo_custom = (\<lambda>_ _ _ c. (None, c)), fo_int63n = (\<lambda>u n. 0)\<rparr>"

definition demo_runner :: "(string, string, (Key \<times> string) list, unit, nat) typed_runner" where
  "demo_runner = \<lparr>tr_step = demo_step, tr_options = demo_flow, tr_classifier = (\<lambda>e. DefaultClassifier (Some e)),
     tr_backoff = withDefaults \<lparr>Base = 0, Cap = 0\<rparr>, tr_attempts = 2, tr_workers = 2, tr_resources = []\<rparr>"

definition demo_state :: "((Key \<times> string) list, unit, nat) flow_state" where
  "demo_state = \<lparr>fl_counts = zero_report, fl_meters = [], fl_store = [], fl_world = empty_world, fl_user = 0,
     fl_moments = [], fl_sleeps = []\<rparr>"

lemma demo_runner_new: "newTypedRunner demo_step demo_flow = Inr demo_runner"
  by (simp add: demo_runner_def newTypedRunner_def demo_step_def)

end
