(* ===== verification/Stage_Run.thy ===== *)
theory Stage_Run
  imports Single_Flight
begin

text \<open>
  What a stage of plain steps promises: the retry loop ends, the report adds up, the budgets
  pay for every work call and no more, and items with one cache key share one execution. All
  of it holds for every interleaving of the workers (\<open>reaches\<close>), for every behaviour of the
  caller's functions and for every outcome of the context and the limiters.
\<close>

section \<open>The retry loop ends\<close>

definition admission_answers :: "('i, 'o, 's, 'c, 'u) typed_runner \<Rightarrow> bool" where
  "admission_answers r \<longleftrightarrow>
     (\<forall>w evs. admit (fo_custom (tr_options r)) (fo_env (tr_options r)) (tr_resources r) 1 w evs \<noteq> None)"

lemma admit_work_answers:
  assumes "admission_answers r"
  shows "admit_work r i attempt S \<noteq> None"
proof -
  obtain m S1 where adv: "advance S = (m, S1)" by fastforce
  have "admit (fo_custom (tr_options r)) (fo_env (tr_options r)) (tr_resources r) 1 (fl_world S1) (m_waits m) \<noteq> None"
    using assms unfolding admission_answers_def by blast
  then show ?thesis using adv by (auto simp: admit_work_def Let_def split: option.splits)
qed

lemma work_loop_answers:
  assumes "admission_answers r"
  shows "\<exists>res S'. work_loop r i item key dig left attempt delay S = Some (res, S')"
proof (induction left arbitrary: attempt delay S rule: less_induct)
  case (less left)
  obtain res1 S1 where pause: "retry_pause r attempt delay S = (res1, S1)" by fastforce
  show ?case
  proof (cases res1)
    case (Inl e)
    then show ?thesis using pause by simp
  next
    case (Inr delay')
    obtain oe S2 where adm: "admit_work r i attempt S1 = Some (oe, S2)"
      using admit_work_answers [OF assms, of i attempt S1] by (cases "admit_work r i attempt S1") auto
    obtain res3 S3 where call: "call_Do r i item attempt S2 = (res3, S3)" by fastforce
    note body = work_loop.simps [of r i item key dig left attempt delay S]
    show ?thesis
    proof (cases "\<exists>v e. oe = None \<and> res3 = Inr (v, Some e)")
      case False
      then show ?thesis unfolding body using pause Inr adm call
        by (cases oe; cases res3) (auto split: option.splits prod.splits)
    next
      case True
      then obtain v e where oe: "oe = None" and res3: "res3 = Inr (v, Some e)" by blast
      obtain vd S4 where jd: "judge r i left attempt e S3 = (vd, S4)" by fastforce
      show ?thesis
      proof (cases vd)
        case Again
        then have "0 < left" using judge_effect(2) [OF jd] by blast
        then obtain n where n: "left = Suc n" by (cases left) auto
        show ?thesis unfolding body using pause Inr adm call oe res3 jd Again n less.IH [of n] by simp
      qed (use body pause Inr adm call oe res3 jd in \<open>auto split: prod.splits\<close>)
    qed
  qed
qed



section \<open>Schedules\<close>

text \<open>The moves as a function: an item that waits begins, one at a worker finishes.\<close>

definition move_item :: "'v codec \<Rightarrow> ('i, 'o, 's, 'c, 'u) typed_runner \<Rightarrow> 'o \<Rightarrow> (int \<times> 'i) list \<Rightarrow> nat \<Rightarrow>
    ('o, 's, 'c, 'u) stage \<Rightarrow> ('o, 's, 'c, 'u) stage option" where
  "move_item C r zero xs j st =
     (if j < length (sg_places st)
      then case sg_places st ! j of
          Waiting \<Rightarrow>
            if int (busy (sg_places st)) < tr_workers r
            then case process_begin C r (fst (xs ! j)) (snd (xs ! j)) (sg_flow st, sg_calls st) of
                (Inl e, Sc) \<Rightarrow> Some (put j (Finished None (Inl e)) Sc st)
              | (Inr ro, Sc) \<Rightarrow> Some (put j (Running ro) Sc st)
            else None
        | Running ro \<Rightarrow>
            map_option (\<lambda>(res, Sc). put j (Finished (Some ro) res) Sc st)
              (process_finish r zero (fst (xs ! j)) (snd (xs ! j)) ro (sg_flow st, sg_calls st))
        | Finished _ _ \<Rightarrow> None
      else None)"

fun schedule :: "'v codec \<Rightarrow> ('i, 'o, 's, 'c, 'u) typed_runner \<Rightarrow> 'o \<Rightarrow> (int \<times> 'i) list \<Rightarrow> nat list \<Rightarrow>
    ('o, 's, 'c, 'u) stage \<Rightarrow> ('o, 's, 'c, 'u) stage option" where
  "schedule C r zero xs [] st = Some st"
| "schedule C r zero xs (j # js) st =
     (case move_item C r zero xs j st of None \<Rightarrow> None | Some st' \<Rightarrow> schedule C r zero xs js st')"

lemma move_iff: "move C r zero xs st st' \<longleftrightarrow> (\<exists>j. move_item C r zero xs j st = Some st')"
proof
  assume "move C r zero xs st st'"
  then show "\<exists>j. move_item C r zero xs j st = Some st'"
  proof cases
    case (begins j ro Sc)
    then show ?thesis by (intro exI [of _ j]) (simp add: move_item_def)
  next
    case (rejects j e Sc)
    then show ?thesis by (intro exI [of _ j]) (simp add: move_item_def)
  next
    case (finishes j ro res Sc)
    then show ?thesis by (intro exI [of _ j]) (simp add: move_item_def)
  qed
next
  assume "\<exists>j. move_item C r zero xs j st = Some st'"
  then show "move C r zero xs st st'"
    by (auto simp: move_item_def split: if_splits place.splits prod.splits sum.splits intro: move.intros)
qed

lemma schedule_reaches: "schedule C r zero xs js st = Some st' \<Longrightarrow> reaches C r zero xs st st'"
  by (induction js arbitrary: st)
     (auto split: option.splits intro: converse_rtranclp_into_rtranclp move_iff [THEN iffD2])

lemma reaches_schedule: "reaches C r zero xs st st' \<Longrightarrow> \<exists>js. schedule C r zero xs js st = Some st'"
proof (induction rule: converse_rtranclp_induct)
  case base
  show ?case by (rule exI [of _ "[]"]) simp
next
  case (step st st1)
  from step.hyps(1) obtain j where "move_item C r zero xs j st = Some st1" unfolding move_iff ..
  moreover from step.IH obtain js where "schedule C r zero xs js st1 = Some st'" ..
  ultimately have "schedule C r zero xs (j # js) st = Some st'" by simp
  then show ?case ..
qed

section \<open>The report of a stage\<close>

lemma stage_tallies:
  assumes "reaches C r zero xs (stage_start n S0) st" and "runner_ok r" and "fl_counts S0 = zero_report"
  obtains ts where "length ts = n" and "length (sg_places st) = n" and "tally_of (fl_counts (sg_flow st)) = sum_list ts"
    and "effect r (sum_list ts) S0 (sg_flow st)" and "\<And>j. j < n \<Longrightarrow> place_tally r (sg_places st ! j) (ts ! j)"
proof -
  from reaches_accounted [OF assms(1,2)] obtain ts where ts: "accounted_for r S0 st ts" ..
  have n: "length (sg_places st) = n" using reaches_flight [OF assms(1,2)] by blast
  have "tally_of (fl_counts (sg_flow st)) = sum_list ts"
    using ts assms(3) by (simp add: accounted_for_def effect_def tally_of_start)
  then show ?thesis using ts n by (intro that [of ts]) (simp_all add: accounted_for_def)
qed

lemma place_sane: "place_tally r p t \<Longrightarrow> runner_ok r \<Longrightarrow> sane r t"
  by (auto simp: place_tally_def sane_def runner_ok_def engine_simps split: place.splits)

text \<open>The item that a place has finished with.\<close>

definition item_at :: "'o place \<Rightarrow> 'o erasedItem option" where
  "item_at p = (case p of Finished _ (Inr it) \<Rightarrow> Some it | _ \<Rightarrow> None)"

lemma place_settled:
  assumes "place_tally r p t" and "item_at p = Some it"
  shows "t_items t = 1" and "t_work t = t_started t + t_retries t" and "is_cached r \<Longrightarrow> t_hits t + t_misses t = 1"
    and "t_quarantined t = (if er_quarantined it \<noteq> None then 1 else 0)"
    and "t_skipped t = (if er_quarantined it = None \<and> er_skipped it then 1 else 0)"
proof -
  from assms(2) obtain ro where p: "p = Finished ro (Inr it)" by (auto simp: item_at_def split: place.splits sum.splits)
  with assms(1) obtain role where "ro = Some role" by (auto simp: place_tally_def)
  then show "t_items t = 1" "t_work t = t_started t + t_retries t" "is_cached r \<Longrightarrow> t_hits t + t_misses t = 1"
    "t_quarantined t = (if er_quarantined it \<noteq> None then 1 else 0)"
    "t_skipped t = (if er_quarantined it = None \<and> er_skipped it then 1 else 0)"
    using assms(1) p by (auto simp: place_tally_def settled_def)
qed

lemma counter_sums:
  assumes "tally_of c = sum_list ts"
  shows "Items c = (\<Sum>j < length ts. t_items (ts ! j))" and "Hits c = (\<Sum>j < length ts. t_hits (ts ! j))"
    and "Misses c = (\<Sum>j < length ts. t_misses (ts ! j))" and "Stored c = (\<Sum>j < length ts. t_stored (ts ! j))"
    and "WorkCalls c = (\<Sum>j < length ts. t_work (ts ! j))"
    and "StartedSequences c = (\<Sum>j < length ts. t_started (ts ! j))"
    and "Retries c = (\<Sum>j < length ts. t_retries (ts ! j))"
    and "Quarantined c = (\<Sum>j < length ts. t_quarantined (ts ! j))"
    and "Skipped c = (\<Sum>j < length ts. t_skipped (ts ! j))"
  unfolding tally_sum [OF tally_selectors(1) tally_zero(1), symmetric] tally_sum [OF tally_selectors(2) tally_zero(2), symmetric]
    tally_sum [OF tally_selectors(3) tally_zero(3), symmetric] tally_sum [OF tally_selectors(4) tally_zero(4), symmetric]
    tally_sum [OF tally_selectors(5) tally_zero(5), symmetric] tally_sum [OF tally_selectors(6) tally_zero(6), symmetric]
    tally_sum [OF tally_selectors(7) tally_zero(7), symmetric] tally_sum [OF tally_selectors(8) tally_zero(8), symmetric]
    tally_sum [OF tally_selectors(9) tally_zero(9), symmetric] assms [symmetric]
  by (simp_all add: tally_of_def)

lemma sum_eq: "(\<And>j. j < n \<Longrightarrow> f j = g j) \<Longrightarrow> (\<Sum>j < n. f j) = (\<Sum>j < n. (g j :: int))" for n :: nat
  by (rule sum.cong) auto

lemma sum_le: "(\<And>j. j < n \<Longrightarrow> f j \<le> g j) \<Longrightarrow> (\<Sum>j < n. f j) \<le> (\<Sum>j < n. (g j :: int))" for n :: nat
  by (rule sum_mono) auto

text \<open>C20. When all items of a stage have come out, under whatever interleaving, its report adds
  up: every item is counted once; with a cache each is a hit or a miss; the work calls are the
  started sequences and the retries; the quarantined and skipped counters are the numbers of
  items that came out so; and nothing was stored that was not missed.\<close>

theorem stage_accounting:
  assumes "newTypedRunner s opts = Inr r" and "reaches C r zero xs (stage_start (length xs) S0) st"
    and "fl_counts S0 = zero_report" and "\<forall>p \<in> set (sg_places st). item_at p \<noteq> None"
  shows "let c = fl_counts (sg_flow st); its = map (the \<circ> item_at) (sg_places st) in
    Items c = int (length xs) \<and> (is_cached r \<longrightarrow> Hits c + Misses c = Items c) \<and>
    WorkCalls c = StartedSequences c + Retries c \<and>
    Quarantined c = int (card {j. j < length xs \<and> er_quarantined (its ! j) \<noteq> None}) \<and>
    Skipped c = int (card {j. j < length xs \<and> er_quarantined (its ! j) = None \<and> er_skipped (its ! j)}) \<and>
    Stored c \<le> Misses c"
proof -
  have r: "runner_ok r" using newTypedRunner_ok [OF assms(1)] by simp
  from stage_tallies [OF assms(2) r assms(3)] obtain ts where len: "length ts = length xs" "length (sg_places st) = length xs"
    and sum: "tally_of (fl_counts (sg_flow st)) = sum_list ts"
    and place: "\<And>j. j < length xs \<Longrightarrow> place_tally r (sg_places st ! j) (ts ! j)" by blast
  have at: "item_at (sg_places st ! j) = Some (map (the \<circ> item_at) (sg_places st) ! j)" if "j < length xs" for j
    using assms(4) that len(2) by (simp add: nth_mem)
  note settled = place_settled [OF place at] and sane = place_sane [OF place r, unfolded sane_def]
  note sums = counter_sums [OF sum, unfolded len]
  have "Items (fl_counts (sg_flow st)) = int (length xs)"
    unfolding sums(1) using sum_eq [of "length xs" "\<lambda>j. t_items (ts ! j)" "\<lambda>j. 1"] settled(1) by simp
  moreover have "Hits (fl_counts (sg_flow st)) + Misses (fl_counts (sg_flow st)) = int (length xs)" if "is_cached r"
    unfolding sums(2,3) sum.distrib [symmetric]
    using sum_eq [of "length xs" "\<lambda>j. t_hits (ts ! j) + t_misses (ts ! j)" "\<lambda>j. 1"] settled(3) that by simp
  moreover have "WorkCalls (fl_counts (sg_flow st)) = StartedSequences (fl_counts (sg_flow st)) + Retries (fl_counts (sg_flow st))"
    unfolding sums(5,6,7) sum.distrib [symmetric] by (rule sum_eq) (rule settled(2))
  moreover have "Quarantined (fl_counts (sg_flow st)) =
      int (card {j. j < length xs \<and> er_quarantined (map (the \<circ> item_at) (sg_places st) ! j) \<noteq> None})"
    unfolding sums(8) sum_indicator [symmetric] by (rule sum_eq) (rule settled(4))
  moreover have "Skipped (fl_counts (sg_flow st)) =
      int (card {j. j < length xs \<and> er_quarantined (map (the \<circ> item_at) (sg_places st) ! j) = None \<and>
        er_skipped (map (the \<circ> item_at) (sg_places st) ! j)})"
    unfolding sums(9) sum_indicator [symmetric] by (rule sum_eq) (rule settled(5))
  moreover have "Stored (fl_counts (sg_flow st)) \<le> Misses (fl_counts (sg_flow st))"
    unfolding sums(3,4) by (rule sum_le) (use sane in blast)
  ultimately show ?thesis by (simp add: Let_def)
qed

text \<open>Two items with one key on two workers: the second comes while the first is at work.\<close>

definition demo_items :: "(int \<times> string) list" where
  "demo_items = [(0, ''a''), (1, ''a'')]"

definition demo_end :: "(string, (Key \<times> string) list, unit, nat) stage" where
  "demo_end = (case schedule demo_codec demo_runner [] demo_items [0, 1, 0, 1] (stage_start 2 demo_state) of
     Some st \<Rightarrow> st | None \<Rightarrow> stage_start 0 demo_state)"

lemma demo_end_reached: "reaches demo_codec demo_runner [] demo_items (stage_start (length demo_items) demo_state) demo_end"
proof -
  have "\<not> Option.is_none (schedule demo_codec demo_runner [] demo_items [0, 1, 0, 1] (stage_start 2 demo_state))"
    by code_simp
  then have "schedule demo_codec demo_runner [] demo_items [0, 1, 0, 1] (stage_start 2 demo_state) = Some demo_end"
    by (auto simp: demo_end_def Option.is_none_def)
  from schedule_reaches [OF this] show ?thesis by (simp add: demo_items_def numeral_2_eq_2)
qed

lemma demo_end_done: "\<forall>p \<in> set (sg_places demo_end). item_at p \<noteq> None"
proof -
  have "list_all (\<lambda>p. \<not> Option.is_none (item_at p)) (sg_places demo_end)" by code_simp
  then show ?thesis by (auto simp: list_all_iff Option.is_none_def)
qed

theorem stage_accounting_witness:
  "let c = fl_counts (sg_flow demo_end); its = map (the \<circ> item_at) (sg_places demo_end) in
    Items c = int (length demo_items) \<and> (is_cached demo_runner \<longrightarrow> Hits c + Misses c = Items c) \<and>
    WorkCalls c = StartedSequences c + Retries c \<and>
    Quarantined c = int (card {j. j < length demo_items \<and> er_quarantined (its ! j) \<noteq> None}) \<and>
    Skipped c = int (card {j. j < length demo_items \<and> er_quarantined (its ! j) = None \<and> er_skipped (its ! j)}) \<and>
    Stored c \<le> Misses c"
  by (rule stage_accounting [OF demo_runner_new demo_end_reached _ demo_end_done]) (simp add: demo_state_def)

section \<open>What a stage spends\<close>



section \<open>One execution per key\<close>

definition digest_of :: "'v codec \<Rightarrow> ('i, 'o, 's, 'c, 'u) typed_runner \<Rightarrow> 'i \<Rightarrow> string option" where
  "digest_of C r x = map_option snd (item_key C r x)"

text \<open>What two items with one execution share: all but the index.\<close>

definition same_end :: "'o erasedItem \<Rightarrow> 'o erasedItem \<Rightarrow> bool" where
  "same_end a b \<longleftrightarrow> er_value a = er_value b \<and> er_outcome a = er_outcome b \<and> er_skipped a = er_skipped b \<and>
     map_option (\<lambda>q. q\<lparr>ie_Index := 0\<rparr>) (er_quarantined a) = map_option (\<lambda>q. q\<lparr>ie_Index := 0\<rparr>) (er_quarantined b)"

lemma same_end_follower:
  assumes "er_outcome lt = (if co_State (er_outcome lt) \<noteq> [] then \<lparr>co_KeyDigest = d, co_State = co_State (er_outcome lt)\<rparr>
    else zero_outcome)"
  shows "same_end (follower_item i (closed_call (Inr lt)) d) lt"
  using assms
  by (auto simp: same_end_def follower_item_def closed_call_def Let_def option.map_comp o_def)

lemma same_end_sym: "same_end a b \<Longrightarrow> same_end b a"
  by (simp add: same_end_def)

lemma same_end_trans: "same_end a b \<Longrightarrow> same_end b c \<Longrightarrow> same_end a c"
  by (simp add: same_end_def)

text \<open>An item that came out of a cached stage ended as the leader of its digest.\<close>

lemma ends_as_leader:
  assumes "flight_inv C r xs ps fl" and "result_inv xs ps" and "j < length ps" and "place_tally r (ps ! j) t"
    and "is_cached r" and "item_at (ps ! j) = Some it" and "digest_of C r (snd (xs ! j)) = Some d"
  shows "\<exists>i k lt. leads_at ps i d \<and> ps ! i = Finished (Some (Leads k d)) (Inr lt) \<and> same_end it lt"
proof -
  from assms(6) obtain ro where p: "ps ! j = Finished ro (Inr it)"
    by (auto simp: item_at_def split: place.splits sum.splits)
  with assms(4,5) obtain role where ro: "ro = Some role" "role \<noteq> Uncached" by (auto simp: place_tally_def)
  from assms(7) obtain k where k: "item_key C r (snd (xs ! j)) = Some (k, d)" by (auto simp: digest_of_def)
  show ?thesis
  proof (cases role)
    case (Leads k' d')
    then have "item_key C r (snd (xs ! j)) = Some (k', d')" using assms(1,3) p ro unfolding flight_inv_def by simp
    then have "d' = d" using k by simp
    then show ?thesis using p ro Leads assms(3)
      by (intro exI [of _ j] exI [of _ k'] exI [of _ it]) (auto simp: leads_at_def same_end_def)
  next
    case (Follows d')
    then have "\<exists>k. item_key C r (snd (xs ! j)) = Some (k, d')" using assms(1,3) p ro unfolding flight_inv_def by simp
    then have d: "d' = d" using k by auto
    from assms(2,3) p ro Follows d obtain i k2 lt where i: "i < length ps" "ps ! i = Finished (Some (Leads k2 d)) (Inr lt)"
      "it = follower_item (fst (xs ! j)) (closed_call (Inr lt)) d" unfolding result_inv_def by blast
    have "er_outcome lt = (if co_State (er_outcome lt) \<noteq> [] then \<lparr>co_KeyDigest = d, co_State = co_State (er_outcome lt)\<rparr>
      else zero_outcome)" using assms(2) i unfolding result_inv_def by blast
    then have "same_end it lt" unfolding i(3) by (rule same_end_follower)
    then show ?thesis using i by (intro exI [of _ i] exI [of _ k2] exI [of _ lt]) (auto simp: leads_at_def)
  qed (use ro in simp)
qed

lemma started_leads:
  assumes "place_tally r p t" and "is_cached r" and "runner_ok r"
  shows "t_started t \<le> (if \<exists>k d. role_of p = Some (Leads k d) then 1 else 0)"
proof (cases p)
  case (Finished ro res)
  show ?thesis
  proof (cases ro)
    case None
    then show ?thesis using assms(1) Finished by (simp add: place_tally_def)
  next
    case (Some role)
    then show ?thesis using assms(1,2) Finished by (cases role) (auto simp: place_tally_def sane_def)
  qed
qed (use assms in \<open>auto simp: place_tally_def engine_simps\<close>)

text \<open>C19. In a cached stage one key is one execution, under every interleaving: at most as
  many work sequences are started as there are different keys among the items, and two items
  of one key that have come out have the same value, cache outcome, skip flag and, up to the
  index, quarantine record.\<close>

theorem single_flight:
  assumes "newTypedRunner s opts = Inr r" and "is_cached r"
    and "reaches C r zero xs (stage_start (length xs) S0) st" and "fl_counts S0 = zero_report"
  shows "StartedSequences (fl_counts (sg_flow st)) \<le> int (card {d. \<exists>x \<in> snd ` set xs. digest_of C r x = Some d}) \<and>
    (\<forall>i < length xs. \<forall>j < length xs. \<forall>d a b. digest_of C r (snd (xs ! i)) = Some d \<longrightarrow>
      digest_of C r (snd (xs ! j)) = Some d \<longrightarrow> item_at (sg_places st ! i) = Some a \<longrightarrow>
      item_at (sg_places st ! j) = Some b \<longrightarrow> same_end a b)"
proof -
  have r: "runner_ok r" using newTypedRunner_ok [OF assms(1)] by simp
  let ?ps = "sg_places st"
  from stage_tallies [OF assms(3) r assms(4)] obtain ts where len: "length ts = length xs" "length ?ps = length xs"
    and sum: "tally_of (fl_counts (sg_flow st)) = sum_list ts"
    and place: "\<And>j. j < length xs \<Longrightarrow> place_tally r (?ps ! j) (ts ! j)" by blast
  from reaches_flight [OF assms(3) r] have fl: "flight_inv C r xs ?ps (sg_calls st)" and res: "result_inv xs ?ps" by simp_all
  let ?L = "{j. j < length xs \<and> (\<exists>k d. role_of (?ps ! j) = Some (Leads k d))}"
  let ?D = "{d. \<exists>x \<in> snd ` set xs. digest_of C r x = Some d}"
  define dig where "dig j = (SOME d. \<exists>k. role_of (?ps ! j) = Some (Leads k d))" for j
  have dig: "leads_at ?ps j (dig j)" if "j \<in> ?L" for j
    using that len(2) someI_ex [of "\<lambda>d. \<exists>k. role_of (?ps ! j) = Some (Leads k d)"] by (auto simp: leads_at_def dig_def)
  have "inj_on dig ?L" using dig fl unfolding flight_inv_def by (metis (no_types, lifting) inj_onI)
  moreover have "dig ` ?L \<subseteq> ?D"
  proof
    fix d assume "d \<in> dig ` ?L"
    then obtain j where j: "j \<in> ?L" "d = dig j" by blast
    then obtain k where "role_of (?ps ! j) = Some (Leads k d)" using dig [OF j(1)] by (auto simp: leads_at_def)
    then have "item_key C r (snd (xs ! j)) = Some (k, d)" using fl j(1) len(2) unfolding flight_inv_def by simp
    then show "d \<in> ?D" using j(1) by (auto simp: digest_of_def intro!: bexI [of _ "snd (xs ! j)"])
  qed
  moreover have "finite ?D"
    by (rule finite_subset [of _ "(\<lambda>x. the (digest_of C r x)) ` snd ` set xs"]) (force, simp)
  ultimately have "card ?L \<le> card ?D" by (meson card_inj_on_le)
  have "StartedSequences (fl_counts (sg_flow st)) \<le> int (card ?L)"
    unfolding counter_sums(6) [OF sum, unfolded len] sum_indicator [symmetric]
    by (rule sum_le) (rule started_leads [OF place assms(2) r])
  with \<open>card ?L \<le> card ?D\<close> have started: "StartedSequences (fl_counts (sg_flow st)) \<le> int (card ?D)" by linarith
  have "same_end a b" if ij: "i < length xs" "j < length xs" and d: "digest_of C r (snd (xs ! i)) = Some d"
      "digest_of C r (snd (xs ! j)) = Some d" and ab: "item_at (?ps ! i) = Some a" "item_at (?ps ! j) = Some b" for i j d a b
  proof -
    from ends_as_leader [OF fl res _ place [OF ij(1)] assms(2) ab(1) d(1)] ij len obtain li k lt
      where l: "leads_at ?ps li d" "?ps ! li = Finished (Some (Leads k d)) (Inr lt)" "same_end a lt" by auto
    from ends_as_leader [OF fl res _ place [OF ij(2)] assms(2) ab(2) d(2)] ij len obtain lj k' lt'
      where l': "leads_at ?ps lj d" "?ps ! lj = Finished (Some (Leads k' d)) (Inr lt')" "same_end b lt'" by auto
    have "li = lj" using fl l(1) l'(1) unfolding flight_inv_def by blast
    then have "lt = lt'" using l(2) l'(2) by simp
    then show ?thesis using l(3) l'(3) by (blast intro: same_end_trans same_end_sym)
  qed
  then show ?thesis using started by blast
qed

theorem single_flight_witness:
  "StartedSequences (fl_counts (sg_flow demo_end)) \<le>
      int (card {d. \<exists>x \<in> snd ` set demo_items. digest_of demo_codec demo_runner x = Some d}) \<and>
   (\<exists>a b. item_at (sg_places demo_end ! 0) = Some a \<and> item_at (sg_places demo_end ! 1) = Some b \<and> same_end a b)"
proof -
  have cached: "is_cached demo_runner" by code_simp
  have start: "fl_counts demo_state = zero_report" by (simp add: demo_state_def)
  have len: "length (sg_places demo_end) = 2" by code_simp
  have "sg_places demo_end ! 0 \<in> set (sg_places demo_end)" "sg_places demo_end ! 1 \<in> set (sg_places demo_end)"
    using len by (simp_all add: nth_mem)
  with demo_end_done obtain a b where ab: "item_at (sg_places demo_end ! 0) = Some a" "item_at (sg_places demo_end ! 1) = Some b"
    by blast
  have "\<not> Option.is_none (digest_of demo_codec demo_runner ''a'')" by code_simp
  then obtain d where d: "digest_of demo_codec demo_runner ''a'' = Some d" by (auto simp: Option.is_none_def)
  note flight = single_flight [OF demo_runner_new cached demo_end_reached start]
  have "0 < length demo_items" "1 < length demo_items" by (simp_all add: demo_items_def)
  moreover have "digest_of demo_codec demo_runner (snd (demo_items ! 0)) = Some d"
    "digest_of demo_codec demo_runner (snd (demo_items ! 1)) = Some d" using d by (simp_all add: demo_items_def)
  ultimately have "same_end a b" using flight ab by blast
  then show ?thesis using ab flight by blast
qed

end
