(* ===== verification/Stage_Resume.thy ===== *)
theory Stage_Resume
  imports Stage_Run File_Cache Memory_Store
begin

text \<open>
  A stage on a result cache: what a run leaves in the cache, and what a later run over the same
  items makes of it. The lemmas are proved once for every cache with the contract
  \<open>cache_reads\<close> and used for the file cache and the memory store.
\<close>

section \<open>What a stage leaves in its cache\<close>

definition cache_ops :: "(ctx \<Rightarrow> Key \<Rightarrow> 's \<Rightarrow> 'o option result) \<Rightarrow> (ctx \<Rightarrow> Key \<Rightarrow> 'o \<Rightarrow> 's \<Rightarrow> err option \<times> 's) \<Rightarrow>
    ('o, 's) store_ops" where
  "cache_ops load store = \<lparr>so_Load = load, so_Store = store\<rparr>"

text \<open>The values of the work survive the JSON codec under the item's key.\<close>

definition good_work :: "(Key \<Rightarrow> 'o \<Rightarrow> bool) \<Rightarrow> 'v codec \<Rightarrow> ('i, 'o, 's, 'c, 'u) typed_runner \<Rightarrow> (int \<times> 'i) list \<Rightarrow> bool" where
  "good_work good C r xs \<longleftrightarrow>
     (\<forall>x \<in> snd ` set xs. \<forall>k d v. item_key C r x = Some (k, d) \<longrightarrow> did r x v None \<longrightarrow> good k v)"

definition durable :: "(Key \<Rightarrow> 'o \<Rightarrow> 's \<Rightarrow> bool) \<Rightarrow> 's \<Rightarrow> 'o place list \<Rightarrow> bool" where
  "durable answ s ps \<longleftrightarrow>
     (\<forall>j < length ps. \<forall>k d it. ps ! j = Finished (Some (Leads k d)) (Inr it) \<longrightarrow> \<not> flagged it \<longrightarrow>
        (\<exists>v. er_value it = Some v \<and> answ k v s))"

lemma item_key_Digest: "item_key C r x = Some (k, d) \<Longrightarrow> Digest C k = Inr d"
  by (auto simp: item_key_def split: sum.splits)

lemma store_moves_None: "store_moves r x None s s' \<Longrightarrow> s' = s"
  by (auto simp: store_moves_def store_step_def)

lemma end_unflagged:
  assumes "item_end r i x (Some k) d n it t s s'" and "\<not> flagged it" and "fo_Store (tr_options r) = Some (cache_ops load store)"
  shows "\<exists>v. did r x v None \<and> er_value it = Some v \<and> store None k v s = (None, s')"
  using assms
  by (auto simp: item_end_def done_item_def failed_item_def flagged_def store_step_def stores_def cache_ops_def erased_def
      split: if_splits)

text \<open>A stage that only replays: the store is as it was, no work was called, no budget charged, and
  every leader that came out is the hit of its digest's value.\<close>

definition replays :: "(string \<Rightarrow> 'o) \<Rightarrow> 's \<Rightarrow> int \<Rightarrow> (addr \<rightharpoonup> budget) \<Rightarrow> (int \<times> 'i) list \<Rightarrow>
    ('o, 's, 'c, 'u) stage \<Rightarrow> bool" where
  "replays val s n b xs st \<longleftrightarrow> fl_store (sg_flow st) = s \<and> WorkCalls (fl_counts (sg_flow st)) = n \<and>
     budgets (fl_world (sg_flow st)) = b \<and>
     (\<forall>j < length (sg_places st). \<forall>k d it. sg_places st ! j = Finished (Some (Leads k d)) (Inr it) \<longrightarrow>
        it = hit_item (fst (xs ! j)) (val d) d)"

lemma effect_free: "effect r t S S' \<Longrightarrow> t_work t = 0 \<Longrightarrow>
    WorkCalls (fl_counts S') = WorkCalls (fl_counts S) \<and> budgets (fl_world S') = budgets (fl_world S)"
  by (cases t) (auto simp: effect_def tally_of_def)

lemma replays_put:
  assumes "replays val s n b xs st" and "effect r t (sg_flow st) S'" and "t_work t = 0"
    and "fl_store S' = fl_store (sg_flow st)"
    and "\<And>k d it. p = Finished (Some (Leads k d)) (Inr it) \<Longrightarrow> it = hit_item (fst (xs ! j)) (val d) d"
  shows "replays val s n b xs (put j p (S', fl') st)"
proof -
  have "it = hit_item (fst (xs ! i)) (val d) d"
    if i: "i < length (sg_places st)" "(sg_places st)[j := p] ! i = Finished (Some (Leads k d)) (Inr it)" for i k d it
  proof (cases "i = j")
    case True
    then show ?thesis using i assms(5) by simp
  next
    case False
    then show ?thesis using i assms(1) by (simp add: replays_def)
  qed
  then show ?thesis using assms(1,4) effect_free [OF assms(2,3)] by (simp add: replays_def put_select)
qed

lemma same_end_flagged: "same_end a b \<Longrightarrow> flagged a \<longleftrightarrow> flagged b"
  by (cases "er_quarantined a"; cases "er_quarantined b") (simp_all add: same_end_def flagged_def)

lemma item_key_cong:
  "fs_Name (tr_step r') = fs_Name (tr_step r) \<Longrightarrow> fs_Identity (tr_step r') = fs_Identity (tr_step r) \<Longrightarrow>
     item_key C r' x = item_key C r x"
  by (simp add: item_key_def)

text \<open>No two keys of the items have one digest.\<close>

definition keys_apart :: "'v codec \<Rightarrow> ('i, 'o, 's, 'c, 'u) typed_runner \<Rightarrow> (int \<times> 'i) list \<Rightarrow> bool" where
  "keys_apart C r xs \<longleftrightarrow>
     (\<forall>x \<in> snd ` set xs. \<forall>y \<in> snd ` set xs. \<forall>k k' d. item_key C r x = Some (k, d) \<longrightarrow>
        item_key C r y = Some (k', d) \<longrightarrow> k' = k)"

lemma came_out_keyed:
  assumes "flight_inv C r xs ps fl" and "j < length ps" and "place_tally r (ps ! j) t" and "is_cached r"
    and "item_at (ps ! j) = Some it"
  shows "\<exists>k d. item_key C r (snd (xs ! j)) = Some (k, d)"
proof -
  from assms(5) obtain ro where p: "ps ! j = Finished ro (Inr it)"
    by (auto simp: item_at_def split: place.splits sum.splits)
  with assms(3,4) obtain role where "ro = Some role" "role \<noteq> Uncached" by (auto simp: place_tally_def)
  then have "role_of (ps ! j) = Some role" using p by simp
  then show ?thesis using assms(1,2) \<open>role \<noteq> Uncached\<close> unfolding flight_inv_def by (cases role) blast+
qed

context cache_reads
begin

lemma finish_store:
  assumes "fo_Store (tr_options r) = Some (cache_ops load store)" and r: "runner_ok r"
    and fin: "process_finish r zero i x ro (S, fl) = Some (res, S', fl')"
  shows "fl_store S' = fl_store S \<or>
    (\<exists>k d v e. ro = Leads k d \<and> did r x v None \<and> store None k v (fl_store S) = (e, fl_store S'))"
proof (cases ro)
  case Uncached
  with fin have w: "work r i x None [] S = Some (res, S')" by (auto simp: process_finish_def)
  from work_effect [OF w r] obtain t where "store_moves r x None (fl_store S) (fl_store S')" by blast
  then show ?thesis by (simp add: store_moves_None)
next
  case (Leads k d)
  with fin assms(1) have l: "lead r (cache_ops load store) i x k d S = Some (res, S')" by (auto simp: process_finish_def)
  from lead_effect [OF l r] have "fl_store S' = fl_store S \<or> store_moves r x (Some k) (fl_store S) (fl_store S')"
    by (elim disjE exE conjE) simp_all
  then show ?thesis using Leads assms(1) by (auto simp: store_moves_def store_step_def cache_ops_def)
next
  case (Follows d)
  with fin obtain call where f: "follow r zero i call d S = Some (res, S')" by (auto simp: process_finish_def split: option.splits)
  show ?thesis using follow_effect(1) [OF f] by simp
qed

lemma lead_answers:
  assumes ops: "fo_Store (tr_options r) = Some (cache_ops load store)" and r: "runner_ok r"
    and fin: "process_finish r zero i x (Leads k d) (S, fl) = Some (Inr it, S', fl')" and nf: "\<not> flagged it"
    and ok: "ok (fl_store S)" and good: "\<And>v. did r x v None \<Longrightarrow> good k v"
  shows "\<exists>v. er_value it = Some v \<and> answers load healthy k v (fl_store S')"
proof -
  from fin ops have l: "lead r (cache_ops load store) i x k d S = Some (Inr it, S')" by (auto simp: process_finish_def)
  from lead_effect [OF l r] consider c v where "load c k (fl_store S) = Inr (Some v)" "it = hit_item i v d" "fl_store S' = fl_store S"
    | n t where "item_end r i x (Some k) d n it t (fl_store S) (fl_store S')"
    by (auto simp: cache_ops_def)
  then show ?thesis
  proof cases
    case 1
    then show ?thesis using answers_loaded [OF 1(1)] by (auto simp: hit_item_def)
  next
    case 2
    from end_unflagged [OF 2 nf ops] obtain v where "did r x v None" "er_value it = Some v" "store None k v (fl_store S) = (None, fl_store S')" by blast
    then show ?thesis using answers_stored [OF ok good] by blast
  qed
qed

lemma move_durable:
  assumes same: "same = same_digest C" and ops: "fo_Store (tr_options r) = Some (cache_ops load store)" and r: "runner_ok r"
    and good: "good_work good C r xs" and mv: "move C r zero xs st st'" and len: "length (sg_places st) = length xs"
    and fl: "flight_inv C r xs (sg_places st) (sg_calls st)"
    and ok: "ok (fl_store (sg_flow st))" and dur: "durable (answers load healthy) (fl_store (sg_flow st)) (sg_places st)"
  shows "ok (fl_store (sg_flow st')) \<and> healthy (fl_store (sg_flow st')) = healthy (fl_store (sg_flow st)) \<and>
    durable (answers load healthy) (fl_store (sg_flow st')) (sg_places st')"
proof -
  have keep: "durable (answers load healthy) s ((sg_places st)[j := p])"
    if "durable (answers load healthy) s (sg_places st)" "\<And>ro it. p \<noteq> Finished ro (Inr it)" for s j p
    using that unfolding durable_def length_list_update by (metis nth_list_update_eq nth_list_update_neq)
  from mv show ?thesis
  proof cases
    case (begins j ro Sc)
    obtain S' fl' where Sc: "Sc = (S', fl')" by (cases Sc)
    show ?thesis using process_begin_effect [OF begins(5) [unfolded Sc]] keep [OF dur, of "Running ro" j] ok begins(1) Sc
      by (simp add: engine_simps)
  next
    case (rejects j e Sc)
    obtain S' fl' where Sc: "Sc = (S', fl')" by (cases Sc)
    show ?thesis using process_begin_effect [OF rejects(5) [unfolded Sc]] keep [OF dur, of "Finished None (Inl e)" j] ok rejects(1) Sc
      by (simp add: engine_simps)
  next
    case (finishes j ro res Sc)
    obtain S' fl' where Sc: "Sc = (S', fl')" by (cases Sc)
    note fin = finishes(4) [unfolded Sc]
    let ?s = "fl_store (sg_flow st)" and ?s' = "fl_store S'" and ?ps = "sg_places st"
    have x: "snd (xs ! j) \<in> snd ` set xs" using finishes(2) len by (auto intro: nth_mem)
    have key: "item_key C r (snd (xs ! j)) = Some (k, d)" if "ro = Leads k d" for k d
      using fl finishes(2,3) that unfolding flight_inv_def by simp
    from finish_store [OF ops r fin] consider "?s' = ?s"
      | k d v e where "ro = Leads k d" "did r (snd (xs ! j)) v None" "store None k v ?s = (e, ?s')" by blast
    then have after: "ok ?s' \<and> healthy ?s' = healthy ?s"
    proof cases
      case 2
      then show ?thesis using store_ok [OF ok 2(3)] store_healthy [OF ok 2(3)] by simp
    qed (use ok in simp)
    have other: "answers load healthy k' v' ?s'" if i: "i < length ?ps" "i \<noteq> j" "?ps ! i = Finished (Some (Leads k' d')) (Inr it)"
        and a: "answers load healthy k' v' ?s" for i k' d' it v'
      using finish_store [OF ops r fin]
    proof
      assume "?s' = ?s"
      then show ?thesis using a by simp
    next
      assume "\<exists>k d v e. ro = Leads k d \<and> did r (snd (xs ! j)) v None \<and> store None k v ?s = (e, ?s')"
      then obtain k d v e where st: "ro = Leads k d" "store None k v ?s = (e, ?s')" by blast
      have "item_key C r (snd (xs ! i)) = Some (k', d')" using fl i unfolding flight_inv_def by simp
      note D = item_key_Digest [OF this] item_key_Digest [OF key [OF st(1)]]
      have "leads_at ?ps i d'" "leads_at ?ps j d" using i finishes(2,3) st(1) by (auto simp: leads_at_def)
      then have "d \<noteq> d'" using fl i(2) unfolding flight_inv_def by blast
      then have "\<not> same k k'" using D by (auto simp: same same_digest_def)
      then show ?thesis using answers_other [OF ok st(2) _ a] by blast
    qed
    have "durable (answers load healthy) ?s' (?ps[j := Finished (Some ro) res])" unfolding durable_def length_list_update
    proof (intro allI impI)
      fix i k d it
      assume i: "i < length ?ps" "?ps[j := Finished (Some ro) res] ! i = Finished (Some (Leads k d)) (Inr it)" "\<not> flagged it"
      show "\<exists>v. er_value it = Some v \<and> answers load healthy k v ?s'"
      proof (cases "i = j")
        case True
        then have ro: "ro = Leads k d" "res = Inr it" using i by simp_all
        have "good k v" if "did r (snd (xs ! j)) v None" for v
          using good x key [OF ro(1)] that unfolding good_work_def by blast
        then show ?thesis using lead_answers [OF ops r fin [unfolded ro] i(3) ok] by blast
      next
        case False
        then have at: "?ps ! i = Finished (Some (Leads k d)) (Inr it)" using i(2) by simp
        with dur i obtain v where "er_value it = Some v" "answers load healthy k v ?s" unfolding durable_def by blast
        then show ?thesis using other [OF i(1) False at] by blast
      qed
    qed
    then show ?thesis using after finishes(1) Sc by (simp add: engine_simps)
  qed
qed

lemma reaches_durable:
  assumes same: "same = same_digest C" and ops: "fo_Store (tr_options r) = Some (cache_ops load store)" and r: "runner_ok r"
    and good: "good_work good C r xs" and run: "reaches C r zero xs (stage_start (length xs) S0) st" and ok: "ok (fl_store S0)"
  shows "ok (fl_store (sg_flow st)) \<and> healthy (fl_store (sg_flow st)) = healthy (fl_store S0) \<and>
    durable (answers load healthy) (fl_store (sg_flow st)) (sg_places st)"
  using run
proof (induction rule: rtranclp_induct)
  case base
  show ?case using ok by (simp add: stage_start_def durable_def)
next
  case (step st st')
  have "flight_inv C r xs (sg_places st) (sg_calls st)" "length (sg_places st) = length xs"
    using reaches_flight [OF step.hyps(1) r] by simp_all
  with move_durable [OF same ops r good step.hyps(2)] step.IH show ?case by simp
qed

text \<open>A later stage on a cache that answers every key of its items.\<close>

lemma lead_replays:
  assumes run: "lead r (cache_ops load store) i x k d S = Some (res, S')" and r: "runner_ok r"
    and a: "answers load healthy k v (fl_store S)"
  shows "fl_store S' = fl_store S \<and> (\<exists>h. effect r (Tally 0 h 0 0 0 0 0 0 0) S S') \<and>
    (\<forall>it. res = Inr it \<longrightarrow> it = hit_item i v d)"
proof -
  have no: "load c k (fl_store S) \<noteq> Inr None" for c using answers_load [OF a, of c None] by auto
  from lead_effect [OF run r] no obtain h where h: "effect r (Tally 0 h 0 0 0 0 0 0 0) S S'" "fl_store S' = fl_store S"
    and hit: "\<forall>it. res = Inr it \<longrightarrow> (\<exists>c v'. load c k (fl_store S) = Inr (Some v') \<and> it = hit_item i v' d)"
    by (auto simp: cache_ops_def)
  have "it = hit_item i v d" if it: "res = Inr it" for it
  proof -
    from hit it obtain c v' where c: "load c k (fl_store S) = Inr (Some v')" "it = hit_item i v' d" by blast
    from answers_load [OF a c(1)] c(2) show ?thesis by simp
  qed
  then show ?thesis using h by blast
qed

lemma move_replays:
  assumes ops: "fo_Store (tr_options r) = Some (cache_ops load store)" and r: "runner_ok r" and cached: "is_cached r"
    and cover: "\<And>x k d. x \<in> snd ` set xs \<Longrightarrow> item_key C r x = Some (k, d) \<Longrightarrow> answers load healthy k (val d) s"
    and mv: "move C r zero xs st st'" and len: "length (sg_places st) = length xs"
    and fl: "flight_inv C r xs (sg_places st) (sg_calls st)" and acc: "accounted_for r S0 st ts"
    and inv: "replays val s n b xs st"
  shows "replays val s n b xs st'"
  using mv
proof cases
  case (begins j ro Sc)
  obtain S' fl' where Sc: "Sc = (S', fl')" by (cases Sc)
  have e: "effect r (Tally 1 0 0 0 0 0 0 0 0) (sg_flow st) S'" "fl_store S' = fl_store (sg_flow st)"
    using process_begin_effect [OF begins(5) [unfolded Sc]] by simp_all
  show ?thesis unfolding begins(1) Sc by (rule replays_put [OF inv e(1) _ e(2)]) simp_all
next
  case (rejects j e' Sc)
  obtain S' fl' where Sc: "Sc = (S', fl')" by (cases Sc)
  have e: "effect r (Tally 1 0 0 0 0 0 0 0 0) (sg_flow st) S'" "fl_store S' = fl_store (sg_flow st)"
    using process_begin_effect [OF rejects(5) [unfolded Sc]] by simp_all
  show ?thesis unfolding rejects(1) Sc by (rule replays_put [OF inv e(1) _ e(2)]) simp_all
next
  case (finishes j ro res Sc)
  obtain S' fl' where Sc: "Sc = (S', fl')" by (cases Sc)
  note fin = finishes(4) [unfolded Sc]
  have "place_tally r (Running ro) (ts ! j)" using acc finishes(2,3) by (metis accounted_for_def)
  then have ro: "ro \<noteq> Uncached" using cached by (simp add: place_tally_def)
  have x: "snd (xs ! j) \<in> snd ` set xs" using finishes(2) len by (auto intro: nth_mem)
  show ?thesis
  proof (cases ro)
    case (Leads k d)
    have "item_key C r (snd (xs ! j)) = Some (k, d)" using fl finishes(2,3) Leads unfolding flight_inv_def by simp
    then have a: "answers load healthy k (val d) (fl_store (sg_flow st))" using cover [OF x] inv by (simp add: replays_def)
    from fin Leads ops have l: "lead r (cache_ops load store) (fst (xs ! j)) (snd (xs ! j)) k d (sg_flow st) = Some (res, S')"
      by (auto simp: process_finish_def)
    from lead_replays [OF l r a] obtain h where h: "effect r (Tally 0 h 0 0 0 0 0 0 0) (sg_flow st) S'"
      "fl_store S' = fl_store (sg_flow st)" "\<forall>it. res = Inr it \<longrightarrow> it = hit_item (fst (xs ! j)) (val d) d" by blast
    show ?thesis unfolding finishes(1) Sc by (rule replays_put [OF inv h(1) _ h(2)]) (use h(3) Leads in simp_all)
  next
    case (Follows d)
    with fin obtain call where f: "follow r zero (fst (xs ! j)) call d (sg_flow st) = Some (res, S')"
      by (auto simp: process_finish_def split: option.splits)
    from follow_effect(2) [OF f] obtain t where t: "effect r t (sg_flow st) S'" "t_work t = 0"
      by (auto simp: follower_tally_def tally_zero split: if_splits)
    show ?thesis unfolding finishes(1) Sc by (rule replays_put [OF inv t follow_effect(1) [OF f]]) (simp add: Follows)
  qed (use ro in simp)
qed

lemma reaches_replays:
  assumes ops: "fo_Store (tr_options r) = Some (cache_ops load store)" and r: "runner_ok r" and cached: "is_cached r"
    and cover: "\<And>x k d. x \<in> snd ` set xs \<Longrightarrow> item_key C r x = Some (k, d) \<Longrightarrow> answers load healthy k (val d) (fl_store S0)"
    and run: "reaches C r zero xs (stage_start (length xs) S0) st"
  shows "replays val (fl_store S0) (WorkCalls (fl_counts S0)) (budgets (fl_world S0)) xs st"
  using run
proof (induction rule: rtranclp_induct)
  case base
  show ?case by (simp add: stage_start_def replays_def)
next
  case (step st st')
  from reaches_accounted [OF step.hyps(1) r] obtain ts where acc: "accounted_for r S0 st ts" ..
  have fl: "flight_inv C r xs (sg_places st) (sg_calls st)" "length (sg_places st) = length xs"
    using reaches_flight [OF step.hyps(1) r] by simp_all
  show ?case by (rule move_replays [OF ops r cached cover step.hyps(2) fl(2,1) acc step.IH])
qed

text \<open>After a stage whose items all came out unflagged, the cache answers every key of its items
  with the value of the item.\<close>

lemma stage_fills:
  assumes same: "same = same_digest C" and ops: "fo_Store (tr_options r) = Some (cache_ops load store)" and r: "runner_ok r"
    and cached: "is_cached r" and good: "good_work good C r xs" and apart: "keys_apart C r xs"
    and run: "reaches C r zero xs (stage_start (length xs) S0) st" and ok: "ok (fl_store S0)"
    and ended: "\<forall>p \<in> set (sg_places st). \<exists>it. item_at p = Some it \<and> \<not> flagged it"
  shows "\<exists>val. \<forall>j < length xs. \<forall>k d. item_key C r (snd (xs ! j)) = Some (k, d) \<longrightarrow>
    answers load healthy k (val d) (fl_store (sg_flow st)) \<and> (\<forall>it. item_at (sg_places st ! j) = Some it \<longrightarrow> er_value it = Some (val d))"
proof -
  let ?ps = "sg_places st" and ?s = "fl_store (sg_flow st)"
  from reaches_flight [OF run r] have fl: "flight_inv C r xs ?ps (sg_calls st)" and res: "result_inv xs ?ps"
    and len: "length ?ps = length xs" by simp_all
  from reaches_accounted [OF run r] obtain ts where acc: "accounted_for r S0 st ts" ..
  from reaches_durable [OF same ops r good run ok] have dur: "durable (answers load healthy) ?s ?ps" by blast
  let ?is = "\<lambda>d v. \<exists>i k lt. leads_at ?ps i d \<and> ?ps ! i = Finished (Some (Leads k d)) (Inr lt) \<and> er_value lt = Some v"
  define val where "val d = (SOME v. ?is d v)" for d
  have one: "v = v'" if "?is d v" "?is d v'" for d v v'
    using that fl unfolding flight_inv_def by fastforce
  have val: "val d = v" if "?is d v" for d v unfolding val_def using that one by (intro some_equality) blast+
  have "answers load healthy k (val d) ?s \<and> (\<forall>it. item_at (?ps ! j) = Some it \<longrightarrow> er_value it = Some (val d))"
    if j: "j < length xs" and key: "item_key C r (snd (xs ! j)) = Some (k, d)" for j k d
  proof -
    from ended j len obtain it where it: "item_at (?ps ! j) = Some it" "\<not> flagged it" by (metis nth_mem)
    have pt: "place_tally r (?ps ! j) (ts ! j)" using acc j len unfolding accounted_for_def by simp
    have "digest_of C r (snd (xs ! j)) = Some d" using key by (simp add: digest_of_def)
    from ends_as_leader [OF fl res _ pt cached it(1) this] j len obtain i k' lt
      where l: "leads_at ?ps i d" "?ps ! i = Finished (Some (Leads k' d)) (Inr lt)" "same_end it lt" by auto
    have i: "i < length xs" using l(1) len by (simp add: leads_at_def)
    have nf: "\<not> flagged lt" using same_end_flagged [OF l(3)] it(2) by simp
    from dur i len l(2) nf obtain v where v: "er_value lt = Some v" "answers load healthy k' v ?s"
      unfolding durable_def by (metis (no_types, lifting))
    have "item_key C r (snd (xs ! i)) = Some (k', d)" using fl l(2) i len unfolding flight_inv_def by simp
    then have "k' = k" using apart key i j unfolding keys_apart_def by (meson imageI nth_mem)
    moreover have "val d = v" using l v(1) by (intro val) blast
    ultimately show ?thesis using v l(3) it(1) by (simp add: same_end_def)
  qed
  then show ?thesis by (intro exI [of _ val]) blast
qed

lemma stage_replayed:
  assumes same: "same = same_digest C" and ops: "fo_Store (tr_options r) = Some (cache_ops load store)" and r: "runner_ok r"
    and cached: "is_cached r" and good: "good_work good C r xs" and apart: "keys_apart C r xs"
    and run: "reaches C r zero xs (stage_start (length xs) S0) st" and ok: "ok (fl_store S0)"
    and ended: "\<forall>p \<in> set (sg_places st). \<exists>it. item_at p = Some it \<and> \<not> flagged it"
    and r': "runner_ok r'" "fo_Store (tr_options r') = Some (cache_ops load store)" "fs_Name (tr_step r') = fs_Name (tr_step r)"
      "fs_Identity (tr_step r') = fs_Identity (tr_step r)"
    and again: "reaches C r' zero' xs (stage_start (length xs) S1) st'" and left: "fl_store S1 = fl_store (sg_flow st)"
  shows "WorkCalls (fl_counts (sg_flow st')) = WorkCalls (fl_counts S1) \<and>
    budgets (fl_world (sg_flow st')) = budgets (fl_world S1) \<and> fl_store (sg_flow st') = fl_store S1 \<and>
    (\<forall>j < length xs. \<forall>a b. item_at (sg_places st ! j) = Some a \<longrightarrow> item_at (sg_places st' ! j) = Some b \<longrightarrow>
       er_value b = er_value a \<and> co_State (er_outcome b) = CacheHit)"
proof -
  from stage_fills [OF same ops r cached good apart run ok ended] obtain val
    where val: "\<And>j k d. j < length xs \<Longrightarrow> item_key C r (snd (xs ! j)) = Some (k, d) \<Longrightarrow>
        answers load healthy k (val d) (fl_store (sg_flow st))"
      "\<And>j k d a. j < length xs \<Longrightarrow> item_key C r (snd (xs ! j)) = Some (k, d) \<Longrightarrow>
        item_at (sg_places st ! j) = Some a \<Longrightarrow> er_value a = Some (val d)" by blast
  note key = item_key_cong [OF r'(3,4), of C]
  have cached': "is_cached r'" using cached r'(2,4) by (simp add: is_cached_def)
  have cover: "answers load healthy k (val d) (fl_store S1)" if "x \<in> snd ` set xs" "item_key C r' x = Some (k, d)" for x k d
  proof -
    from that(1) obtain j where "j < length xs" "x = snd (xs ! j)" by (auto simp: in_set_conv_nth)
    then show ?thesis using val(1) that(2) by (simp add: key left)
  qed
  from reaches_replays [OF r'(2,1) cached' cover again]
  have rep: "replays val (fl_store S1) (WorkCalls (fl_counts S1)) (budgets (fl_world S1)) xs st'" .
  from reaches_flight [OF again r'(1)] have fl: "flight_inv C r' xs (sg_places st') (sg_calls st')"
    and res: "result_inv xs (sg_places st')" and len: "length (sg_places st') = length xs" by simp_all
  from reaches_accounted [OF again r'(1)] obtain ts where acc: "accounted_for r' S1 st' ts" ..
  have "er_value b = er_value a \<and> co_State (er_outcome b) = CacheHit"
    if j: "j < length xs" "item_at (sg_places st ! j) = Some a" "item_at (sg_places st' ! j) = Some b" for j a b
  proof -
    have pt: "place_tally r' (sg_places st' ! j) (ts ! j)" using acc j(1) len unfolding accounted_for_def by simp
    obtain k d where kd: "item_key C r' (snd (xs ! j)) = Some (k, d)"
      using came_out_keyed [OF fl _ pt cached' j(3)] j(1) len by auto
    have "digest_of C r' (snd (xs ! j)) = Some d" using kd by (simp add: digest_of_def)
    from ends_as_leader [OF fl res _ pt cached' j(3) this] j(1) len obtain i k' lt
      where l: "leads_at (sg_places st') i d" "sg_places st' ! i = Finished (Some (Leads k' d)) (Inr lt)" "same_end b lt" by auto
    then have "lt = hit_item (fst (xs ! i)) (val d) d" using rep unfolding replays_def leads_at_def by blast
    then have "er_value b = Some (val d)" "co_State (er_outcome b) = CacheHit" using l(3) by (simp_all add: same_end_def hit_item_def)
    moreover have "er_value a = Some (val d)" by (rule val(2) [OF j(1) kd [unfolded key] j(2)])
    ultimately show ?thesis by simp
  qed
  then show ?thesis using rep unfolding replays_def by blast
qed

end

section \<open>Runs on the file cache\<close>

text \<open>C22. A finished stage is not paid for twice: after a stage on a file cache whose items all
  came out unflagged, every later run of the step over the same items, whatever its work
  function, policy and interleaving, calls no work, charges no budget and leaves the cache
  alone at every moment; each item that comes out is a hit with the value of the first run.\<close>

theorem stage_resumes:
  assumes "newTypedRunner s opts = Inr r" and "is_cached r"
    and "fo_Store opts = Some (cache_ops (FileCache_Load C (Some fc) False) (FileCache_Store C (Some fc)))"
    and "good_work (json_law C) C r xs" and "keys_apart C r xs" and "disk_ok C (fl_store S0)"
    and "reaches C r zero xs (stage_start (length xs) S0) st"
    and "\<forall>p \<in> set (sg_places st). \<exists>it. item_at p = Some it \<and> \<not> flagged it"
    and "newTypedRunner s' opts' = Inr r'" and "fo_Store opts' = fo_Store opts"
    and "fs_Name s' = fs_Name s" and "fs_Identity s' = fs_Identity s"
    and "reaches C r' zero' xs (stage_start (length xs) S1) st'" and "fl_store S1 = fl_store (sg_flow st)"
  shows "WorkCalls (fl_counts (sg_flow st')) = WorkCalls (fl_counts S1) \<and>
    budgets (fl_world (sg_flow st')) = budgets (fl_world S1) \<and> fl_store (sg_flow st') = fl_store S1 \<and>
    (\<forall>j < length xs. \<forall>a b. item_at (sg_places st ! j) = Some a \<longrightarrow> item_at (sg_places st' ! j) = Some b \<longrightarrow>
       er_value b = er_value a \<and> co_State (er_outcome b) = CacheHit)"
proof -
  note r = newTypedRunner_ok [OF assms(1)] and r' = newTypedRunner_ok [OF assms(9)]
  show ?thesis
    by (rule file_reads.stage_replayed [OF refl _ _ assms(2,4,5,7,6,8) _ _ _ _ assms(13,14)])
       (use r r' assms(3,10,11,12) in simp_all)
qed

text \<open>The demonstration stage on the file cache, run twice.\<close>

definition filed_flow :: "(string, disk, unit, nat) flow_options" where
  "filed_flow = \<lparr>fo_Store = Some (cache_ops (FileCache_Load sealed_codec (Some demo_cache) False)
       (FileCache_Store sealed_codec (Some demo_cache))),
     fo_obs = fo_obs demo_flow, fo_env = newRunEnv [] None 0, fo_custom = (\<lambda>_ _ _ c. (None, c)), fo_int63n = (\<lambda>u n. 0)\<rparr>"

definition filed_step :: "(string, string, nat) step" where
  "filed_step = demo_step\<lparr>fs_Identity := \<lparr>id_Kind = ''judge'', id_Version = ''v1'', id_Key = Some (\<lambda>x. Inr [])\<rparr>\<rparr>"

definition filed_runner :: "(string, string, disk, unit, nat) typed_runner" where
  "filed_runner = \<lparr>tr_step = filed_step, tr_options = filed_flow, tr_classifier = (\<lambda>e. DefaultClassifier (Some e)),
     tr_backoff = withDefaults \<lparr>Base = 0, Cap = 0\<rparr>, tr_attempts = 2, tr_workers = 2, tr_resources = []\<rparr>"

definition filed_state :: "disk \<Rightarrow> (disk, unit, nat) flow_state" where
  "filed_state d = \<lparr>fl_counts = zero_report, fl_meters = [], fl_store = d, fl_world = empty_world, fl_user = 0,
     fl_moments = [], fl_sleeps = []\<rparr>"

definition filed_run :: "nat list \<Rightarrow> disk \<Rightarrow> (string, disk, unit, nat) stage" where
  "filed_run js d = (case schedule sealed_codec filed_runner [] demo_items js (stage_start 2 (filed_state d)) of
     Some st \<Rightarrow> st | None \<Rightarrow> stage_start 2 (filed_state d))"

lemma filed_run_reaches:
  "reaches sealed_codec filed_runner [] demo_items (stage_start (length demo_items) (filed_state d)) (filed_run js d)"
  by (auto simp: filed_run_def demo_items_def numeral_2_eq_2 split: option.splits intro: schedule_reaches)

lemma filed_key: "item_key sealed_codec filed_runner x = Some (k, d) \<Longrightarrow> k = demo_key"
proof -
  have "map_sum (\<lambda>e. ()) id (step_Key sealed_codec (fs_Name filed_step) (fs_Identity filed_step) x) = Inr demo_key" by code_simp
  then show "item_key sealed_codec filed_runner x = Some (k, d) \<Longrightarrow> k = demo_key"
    by (auto simp: item_key_def filed_runner_def split: sum.splits)
qed

lemma filed_runner_new: "newTypedRunner filed_step filed_flow = Inr filed_runner"
  by (simp add: filed_runner_def newTypedRunner_def filed_step_def demo_step_def)

theorem stage_resumes_witness:
  "let st = filed_run [0, 1, 0, 1] demo_disk; st' = filed_run [0, 0, 1, 1] (fl_store (sg_flow st)) in
    WorkCalls (fl_counts (sg_flow st)) = 1 \<and> WorkCalls (fl_counts (sg_flow st')) = 0 \<and>
    list_all (\<lambda>p. \<not> Option.is_none (item_at p)) (sg_places st')"
proof -
  let ?st = "filed_run [0, 1, 0, 1] demo_disk"
  have cached: "is_cached filed_runner" by code_simp
  have "list_all (\<lambda>p. case item_at p of Some it \<Rightarrow> Option.is_none (er_quarantined it) \<and> \<not> er_skipped it | None \<Rightarrow> False)
    (sg_places ?st)" by code_simp
  then have ended: "\<forall>p \<in> set (sg_places ?st). \<exists>it. item_at p = Some it \<and> \<not> flagged it"
    by (auto simp: list_all_iff flagged_def Option.is_none_def split: option.splits)
  have work: "WorkCalls (fl_counts (sg_flow ?st)) = 1" by code_simp
  have out: "list_all (\<lambda>p. \<not> Option.is_none (item_at p)) (sg_places (filed_run [0, 0, 1, 1] (fl_store (sg_flow ?st))))" by code_simp
  have good: "good_work (json_law sealed_codec) sealed_codec filed_runner demo_items"
    using demo_json_law filed_key unfolding good_work_def by blast
  have apart: "keys_apart sealed_codec filed_runner demo_items" unfolding keys_apart_def by (metis filed_key)
  have disk: "disk_ok sealed_codec (fl_store (filed_state demo_disk))" using demo_disk_ok by (simp add: filed_state_def)
  have st: "fo_Store filed_flow = Some (cache_ops (FileCache_Load sealed_codec (Some demo_cache) False)
       (FileCache_Store sealed_codec (Some demo_cache)))" by (simp add: filed_flow_def)
  have left: "fl_store (filed_state (fl_store (sg_flow ?st))) = fl_store (sg_flow ?st)" by (simp add: filed_state_def)
  have "WorkCalls (fl_counts (sg_flow (filed_run [0, 0, 1, 1] (fl_store (sg_flow ?st))))) = 0"
    using stage_resumes [OF filed_runner_new cached st good apart disk filed_run_reaches ended
      filed_runner_new refl refl refl filed_run_reaches left, of "[0, 0, 1, 1]"]
    by (simp add: filed_state_def zero_report_def)
  then show ?thesis using work out by (simp add: Let_def)
qed

end
