(* ===== verification/Pipeline.thy ===== *)
theory Pipeline
  imports Stage_Run
begin

text \<open>
  Running a step or a pipeline: \<open>Run\<close>, \<open>runCore\<close>, \<open>runStages\<close>, the worker loop of
  \<open>typedRunner.run\<close> and \<open>overrideStageRunner\<close> of \<open>src/flow/run.go\<close>, and \<open>src/flow/pipe.go\<close>.

  The values of all stages have one type \<open>'v\<close> (the code's \<open>any\<close>); \<open>ss_accepts\<close> is the type
  assertion at the entry of a stage. A pipeline is a state machine: every item is inbound to a
  stage, inside one with its role, or lost, and a \<open>pipe_move\<close> is a step of one goroutine.
  A schedule is a list of moves; the channels keep no order, so a result for all schedules
  covers every order the channels can produce. The custom engine of a step (\<open>override\<close>, set by
  \<open>Bulk\<close> and \<open>Batched\<close>) is a function on the whole state: its stage is a barrier, so nothing of the
  run but the reporter moves beside it. The progress log is left out.
\<close>

section \<open>Results and engines\<close>

record 'v fresult =
  re_Value :: "'v option"
  re_Cache :: CacheOutcome
  re_Quarantined :: "item_error option"
  re_Skipped :: bool

definition zero_result :: "'v fresult" where
  "zero_result = \<lparr>re_Value = None, re_Cache = zero_outcome, re_Quarantined = None, re_Skipped = False\<rparr>"

text \<open>What a run works on: the shared state, the environment \<open>o.env\<close> and the observation.\<close>

record ('s, 'c, 'u) run_state =
  rn_flow :: "('s, 'c, 'u) flow_state"
  rn_env :: "run_env option"
  rn_obs :: "observationState option"

type_synonym 'v run_outcome = "'v fresult list \<times> report \<times> err option"

type_synonym ('v, 's, 'c, 'u) override =
  "('v, 'v, 'u) step \<Rightarrow> ('v, 's, 'c, 'u) flow_options \<Rightarrow> 'v list \<Rightarrow> ('s, 'c, 'u) run_state \<Rightarrow>
     ('v run_outcome \<times> ('s, 'c, 'u) run_state) option"

record ('v, 's, 'c, 'u) stage_spec =
  ss_name :: string
  ss_barrier :: bool
  ss_policy :: "float64 policy"
  ss_extraPolicies :: "(string \<times> float64 policy) list"
  ss_plans :: "stage_plan list"
  ss_validate :: "err option"
  ss_step :: "('v, 'v, 'u) step"
  ss_override :: "('v, 's, 'c, 'u) override option"
  ss_accepts :: "'v \<Rightarrow> bool"

text \<open>A step with the fields the constructors set.\<close>

record ('v, 's, 'c, 'u) full_step =
  st_step :: "('v, 'v, 'u) step"
  st_accepts :: "'v \<Rightarrow> bool"
  st_override :: "('v, 's, 'c, 'u) override option"
  st_validateOverride :: "(('v, 'v, 'u) step \<Rightarrow> err option) option"
  st_extraPlans :: "stage_plan list"
  st_extraPolicies :: "(string \<times> float64 policy) list"
  st_stages :: "('v, 's, 'c, 'u) stage_spec list option"

definition policyPlans :: "string \<Rightarrow> float64 policy \<Rightarrow> stage_plan list" where
  "policyPlans name p = map (\<lambda>r. \<lparr>sp_step = name, sp_resource = r\<rparr>) (Admission p)"

definition collectPlans :: "('v, 's, 'c, 'u) stage_spec list \<Rightarrow> stage_plan list" where
  "collectPlans stages = concat (map ss_plans stages)"

definition stageOfStep :: "('v, 's, 'c, 'u) full_step \<Rightarrow> ('v, 's, 'c, 'u) stage_spec" where
  "stageOfStep s =
     (let step = st_step s;
          plans = policyPlans (fs_Name step) (fs_Policy step) @ st_extraPlans s
      in \<lparr>ss_name = fs_Name step, ss_barrier = (if st_override s \<noteq> None then True else fs_Barrier step),
          ss_policy = fs_Policy step, ss_extraPolicies = st_extraPolicies s, ss_plans = plans,
          ss_validate = (if st_override s = None then None
                         else case st_validateOverride s of None \<Rightarrow> None | Some f \<Rightarrow> f step),
          ss_step = step, ss_override = st_override s, ss_accepts = st_accepts s\<rparr>)"

definition stagesOf :: "('v, 's, 'c, 'u) full_step \<Rightarrow> ('v, 's, 'c, 'u) stage_spec list" where
  "stagesOf s = (case st_stages s of Some stages \<Rightarrow> stages | None \<Rightarrow> [stageOfStep s])"

section \<open>Composition: \<open>pipe.go\<close>\<close>

definition combineStages :: "('v, 's, 'c, 'u) stage_spec list list \<Rightarrow> ('v, 's, 'c, 'u) stage_spec list" where
  "combineStages groups = concat groups"

fun pipeName :: "string list \<Rightarrow> string" where
  "pipeName [] = []"
| "pipeName [name] = name"
| "pipeName (name # names) = name @ ''|'' @ pipeName names"

definition zero_policy :: "float64 policy" where
  "zero_policy = \<lparr>po_Workers = 0, Admission = [],
     Retry = \<lparr>Attempts = 0, Backoff = \<lparr>Base = 0, Cap = 0\<rparr>, Class = None\<rparr>, OnError = FailFast\<rparr>"

definition piped :: "string \<Rightarrow> ('v, 's, 'c, 'u) stage_spec list \<Rightarrow> ('v, 's, 'c, 'u) full_step" where
  "piped name stages =
     \<lparr>st_step = \<lparr>fs_Name = name, fs_Identity = \<lparr>id_Kind = [], id_Version = [], id_Key = None\<rparr>,
        fs_Policy = zero_policy, fs_Barrier = False, fs_Do = None, fs_Meter = None, fs_AttemptMeter = None,
        fs_OnResult = None\<rparr>,
      st_accepts = (\<lambda>_. True), st_override = None, st_validateOverride = None, st_extraPlans = [],
      st_extraPolicies = [], st_stages = Some stages\<rparr>"

abbreviation step_name :: "('v, 's, 'c, 'u) full_step \<Rightarrow> string" where
  "step_name s \<equiv> fs_Name (st_step s)"

definition Pipe2 :: "('v, 's, 'c, 'u) full_step \<Rightarrow> ('v, 's, 'c, 'u) full_step \<Rightarrow> ('v, 's, 'c, 'u) full_step" where
  "Pipe2 a b = piped (pipeName [step_name a, step_name b]) (combineStages [stagesOf a, stagesOf b])"

definition Pipe3 :: "('v, 's, 'c, 'u) full_step \<Rightarrow> ('v, 's, 'c, 'u) full_step \<Rightarrow> ('v, 's, 'c, 'u) full_step \<Rightarrow>
    ('v, 's, 'c, 'u) full_step" where
  "Pipe3 a b c = piped (pipeName [step_name a, step_name b, step_name c])
     (combineStages [stagesOf a, stagesOf b, stagesOf c])"

definition Pipe4 :: "('v, 's, 'c, 'u) full_step \<Rightarrow> ('v, 's, 'c, 'u) full_step \<Rightarrow> ('v, 's, 'c, 'u) full_step \<Rightarrow>
    ('v, 's, 'c, 'u) full_step \<Rightarrow> ('v, 's, 'c, 'u) full_step" where
  "Pipe4 a b c d = piped (pipeName [step_name a, step_name b, step_name c, step_name d])
     (combineStages [stagesOf a, stagesOf b, stagesOf c, stagesOf d])"

section \<open>Before the first item\<close>

definition stage_policies :: "('v, 's, 'c, 'u) stage_spec \<Rightarrow> err option list" where
  "stage_policies st = validatePolicy (ss_name st) (ss_policy st) #
     map (\<lambda>(name, p). validatePolicy name p) (ss_extraPolicies st)"

datatype ('v, 's, 'c, 'u) stage_runner = TypedRunner "('v, 'v, 's, 'c, 'u) typed_runner" | OverrideRunner

definition stage_build :: "('v, 's, 'c, 'u) flow_options \<Rightarrow> ('v, 's, 'c, 'u) stage_spec \<Rightarrow>
    ('v, 's, 'c, 'u) stage_runner result" where
  "stage_build opts st =
     (case ss_override st of
        Some _ \<Rightarrow> Inr OverrideRunner
      | None \<Rightarrow> (case newTypedRunner (ss_step st) opts of Inl e \<Rightarrow> Inl e | Inr r \<Rightarrow> Inr (TypedRunner r)))"

definition stage_error :: "string \<Rightarrow> err \<Rightarrow> err" where
  "stage_error name e = Errorf ''stage %q: %w'' [FStr name] (Some e)"

definition stage_check :: "('v, 's, 'c, 'u) flow_options \<Rightarrow> ('v, 's, 'c, 'u) stage_spec \<Rightarrow> err option" where
  "stage_check opts st =
     (case ss_validate st of
        Some e \<Rightarrow> Some (stage_error (ss_name st) e)
      | None \<Rightarrow> (case stage_build opts st of Inl e \<Rightarrow> Some (stage_error (ss_name st) e) | Inr _ \<Rightarrow> None))"

section \<open>The state of a pipeline\<close>

datatype 'v spot = Inbound nat "'v erasedItem" | Inside nat "'v erasedItem" role | Lost

datatype status = Idle | Started | Completed | Failed

text \<open>What a stage owns: the counters, meters and in-flight calls of a \<open>typedRunner\<close>, the merged
  report of an \<open>overrideStageRunner\<close>.\<close>

record 'v engine =
  en_counts :: StepReport
  en_meters :: meters
  en_calls :: "'v flight"
  en_report :: report

definition new_engine :: "'v engine" where
  "new_engine = \<lparr>en_counts = zero_report, en_meters = [], en_calls = Map.empty, en_report = []\<rparr>"

record ('v, 's, 'c, 'u) pipe =
  pi_run :: "('s, 'c, 'u) run_state"
  pi_engines :: "'v engine list"
  pi_spots :: "'v spot list"
  pi_status :: "status list"
  pi_err :: "err option"
  pi_reporterErr :: "err option"

definition pipe_start :: "nat \<Rightarrow> 'v erasedItem list \<Rightarrow> ('s, 'c, 'u) run_state \<Rightarrow> ('v, 's, 'c, 'u) pipe" where
  "pipe_start n inputs S =
     \<lparr>pi_run = S, pi_engines = replicate n new_engine, pi_spots = map (Inbound 0) inputs,
      pi_status = replicate n Idle, pi_err = None, pi_reporterErr = None\<rparr>"

text \<open>The state a runner sees, and how its changes go back.\<close>

definition engine_view :: "nat \<Rightarrow> ('v, 's, 'c, 'u) pipe \<Rightarrow> ('s, 'c, 'u) flow_state" where
  "engine_view s p = (rn_flow (pi_run p))\<lparr>fl_counts := en_counts (pi_engines p ! s),
     fl_meters := en_meters (pi_engines p ! s)\<rparr>"

definition set_flow :: "('s, 'c, 'u) flow_state \<Rightarrow> ('v, 's, 'c, 'u) pipe \<Rightarrow> ('v, 's, 'c, 'u) pipe" where
  "set_flow S p = p\<lparr>pi_run := (pi_run p)\<lparr>rn_flow := S\<rparr>\<rparr>"

definition engine_save :: "nat \<Rightarrow> ('s, 'c, 'u) flow_state \<Rightarrow> 'v flight \<Rightarrow> ('v, 's, 'c, 'u) pipe \<Rightarrow>
    ('v, 's, 'c, 'u) pipe" where
  "engine_save s S fl p = (set_flow S p)\<lparr>pi_engines := (pi_engines p)[s :=
     (pi_engines p ! s)\<lparr>en_counts := fl_counts S, en_meters := fl_meters S, en_calls := fl\<rparr>]\<rparr>"

definition set_spot :: "nat \<Rightarrow> 'v spot \<Rightarrow> ('v, 's, 'c, 'u) pipe \<Rightarrow> ('v, 's, 'c, 'u) pipe" where
  "set_spot j q p = p\<lparr>pi_spots := (pi_spots p)[j := q]\<rparr>"

text \<open>The error group keeps its first error.\<close>

definition group_error :: "err \<Rightarrow> ('v, 's, 'c, 'u) pipe \<Rightarrow> ('v, 's, 'c, 'u) pipe" where
  "group_error e p = p\<lparr>pi_err := (case pi_err p of None \<Rightarrow> Some e | Some e' \<Rightarrow> Some e')\<rparr>"

definition stage_fails :: "nat \<Rightarrow> string \<Rightarrow> err \<Rightarrow> ('v, 's, 'c, 'u) pipe \<Rightarrow> ('v, 's, 'c, 'u) pipe" where
  "stage_fails s name e p =
     group_error (stage_error name e) (p\<lparr>pi_status := (pi_status p)[s := Failed]\<rparr>)"

definition inside :: "nat \<Rightarrow> 'v spot \<Rightarrow> bool" where
  "inside s q \<longleftrightarrow> (case q of Inside t _ _ \<Rightarrow> t = s | _ \<Rightarrow> False)"

definition inbound :: "nat \<Rightarrow> 'v spot \<Rightarrow> bool" where
  "inbound s q \<longleftrightarrow> (case q of Inbound t _ \<Rightarrow> t = s | _ \<Rightarrow> False)"

text \<open>A stage's output is closed when its goroutine has returned.\<close>

definition closed_stage :: "('v, 's, 'c, 'u) pipe \<Rightarrow> nat \<Rightarrow> bool" where
  "closed_stage p s \<longleftrightarrow> pi_status p ! s = Completed \<or>
     (pi_status p ! s = Failed \<and> \<not> list_ex (inside s) (pi_spots p))"

definition upstream_closed :: "('v, 's, 'c, 'u) pipe \<Rightarrow> nat \<Rightarrow> bool" where
  "upstream_closed p s \<longleftrightarrow> s = 0 \<or> closed_stage p (s - 1)"

section \<open>One item at a plain stage\<close>

definition enter_item :: "'k codec \<Rightarrow> ('v, 's, 'c, 'u) stage_spec \<Rightarrow> ('v, 'v, 's, 'c, 'u) typed_runner \<Rightarrow> nat \<Rightarrow>
    nat \<Rightarrow> 'v erasedItem \<Rightarrow> ('v, 's, 'c, 'u) pipe \<Rightarrow> ('v, 's, 'c, 'u) pipe" where
  "enter_item C st r s j it p =
     (if flagged it then set_spot j (Inbound (Suc s) it) p
      else case er_value it of
          Some v \<Rightarrow>
            if ss_accepts st v
            then (case process_begin C r (er_index it) v (engine_view s p, en_calls (pi_engines p ! s)) of
                    (Inl e, S, fl) \<Rightarrow> set_spot j Lost (stage_fails s (ss_name st) e (engine_save s S fl p))
                  | (Inr ro, S, fl) \<Rightarrow> set_spot j (Inside s it ro) (engine_save s S fl p))
            else set_spot j Lost (stage_fails s (ss_name st)
              (Errorf ''item %d has type %T, step %q expects %T'' [FInt (er_index it), FStr (fs_Name (tr_step r))] None) p)
        | None \<Rightarrow> set_spot j Lost (stage_fails s (ss_name st)
            (Errorf ''item %d has type %T, step %q expects %T'' [FInt (er_index it), FStr (fs_Name (tr_step r))] None) p))"

definition leave_item :: "('v, 's, 'c, 'u) stage_spec \<Rightarrow> ('v, 'v, 's, 'c, 'u) typed_runner \<Rightarrow> 'v \<Rightarrow> nat \<Rightarrow>
    nat \<Rightarrow> 'v erasedItem \<Rightarrow> role \<Rightarrow> ('v, 's, 'c, 'u) pipe \<Rightarrow> ('v, 's, 'c, 'u) pipe option" where
  "leave_item st r zero s j it ro p =
     (case er_value it of
        None \<Rightarrow> None
      | Some v \<Rightarrow>
          (case process_finish r zero (er_index it) v ro (engine_view s p, en_calls (pi_engines p ! s)) of
             None \<Rightarrow> None
           | Some (Inl e, S, fl) \<Rightarrow> Some (set_spot j Lost (stage_fails s (ss_name st) e (engine_save s S fl p)))
           | Some (Inr it', S, fl) \<Rightarrow> Some (set_spot j (Inbound (Suc s) it') (engine_save s S fl p))))"

text \<open>A worker takes an item from its channel, or gives one back; a barrier waits for the end of
  the upstream.\<close>

definition item_move :: "'k codec \<Rightarrow> 'v \<Rightarrow> (('v, 's, 'c, 'u) stage_spec \<times> ('v, 's, 'c, 'u) stage_runner) list \<Rightarrow> nat \<Rightarrow>
    ('v, 's, 'c, 'u) pipe \<Rightarrow> ('v, 's, 'c, 'u) pipe option" where
  "item_move C zero cfg j p =
     (if j < length (pi_spots p)
      then case pi_spots p ! j of
          Lost \<Rightarrow> None
        | Inbound s it \<Rightarrow>
            if s < length cfg
            then (case cfg ! s of
                (st, TypedRunner r) \<Rightarrow>
                  if pi_status p ! s \<in> {Started, Failed} \<and> (ss_barrier st \<longrightarrow> upstream_closed p s) \<and>
                     int (length (filter (inside s) (pi_spots p))) < tr_workers r
                  then Some (enter_item C st r s j it p) else None
              | (st, OverrideRunner) \<Rightarrow> None)
            else None
        | Inside s it ro \<Rightarrow>
            (case cfg ! s of
               (st, TypedRunner r) \<Rightarrow> leave_item st r zero s j it ro p
             | (st, OverrideRunner) \<Rightarrow> None)
      else None)"

section \<open>Stages that start and end\<close>

definition stage_event :: "('v, 's, 'c, 'u) flow_options \<Rightarrow> string \<Rightarrow> EventType \<Rightarrow> int \<Rightarrow> ('s, 'c, 'u) flow_state \<Rightarrow>
    err option \<times> ('s, 'c, 'u) flow_state" where
  "stage_event opts name ty tot S =
     (case observe S of (c, S1) \<Rightarrow>
        (case emitLedger (fo_obs opts) c (zero_event\<lparr>ev_Step := name, ev_Index := - 1, ev_Type := ty, ev_Total := tot\<rparr>)
            (fl_user S1) of
           (e, u) \<Rightarrow> (e, S1\<lparr>fl_user := u\<rparr>)))"

definition start_stage :: "('v, 's, 'c, 'u) flow_options \<Rightarrow> int \<Rightarrow>
    (('v, 's, 'c, 'u) stage_spec \<times> ('v, 's, 'c, 'u) stage_runner) list \<Rightarrow> nat \<Rightarrow> ('v, 's, 'c, 'u) pipe \<Rightarrow>
    ('v, 's, 'c, 'u) pipe option" where
  "start_stage opts tot cfg s p =
     (if s < length cfg \<and> pi_status p ! s = Idle
      then (case stage_event opts (ss_name (fst (cfg ! s))) EventStepStarted tot (rn_flow (pi_run p)) of
              (None, S) \<Rightarrow> Some ((set_flow S p)\<lparr>pi_status := (pi_status p)[s := Started]\<rparr>)
            | (Some e, S) \<Rightarrow> Some (stage_fails s (ss_name (fst (cfg ! s))) e (set_flow S p)))
      else None)"

definition end_stage :: "('v, 's, 'c, 'u) flow_options \<Rightarrow> int \<Rightarrow>
    (('v, 's, 'c, 'u) stage_spec \<times> ('v, 's, 'c, 'u) stage_runner) list \<Rightarrow> nat \<Rightarrow> ('v, 's, 'c, 'u) pipe \<Rightarrow>
    ('v, 's, 'c, 'u) pipe option" where
  "end_stage opts tot cfg s p =
     (if s < length cfg \<and> pi_status p ! s = Started \<and> upstream_closed p s \<and>
         \<not> list_ex (inside s) (pi_spots p) \<and> \<not> list_ex (inbound s) (pi_spots p)
      then (case stage_event opts (ss_name (fst (cfg ! s))) EventStepCompleted tot (rn_flow (pi_run p)) of
              (None, S) \<Rightarrow> Some ((set_flow S p)\<lparr>pi_status := (pi_status p)[s := Completed]\<rparr>)
            | (Some e, S) \<Rightarrow> Some (stage_fails s (ss_name (fst (cfg ! s))) e (set_flow S p)))
      else None)"

text \<open>A cancelled context stops the feeder, which keeps the items it has not sent, or a stage that
  waits for it, with or without an item it could not send.\<close>

definition stop_feeder :: "('v, 's, 'c, 'u) pipe \<Rightarrow> ('v, 's, 'c, 'u) pipe option" where
  "stop_feeder p =
     (case observe (rn_flow (pi_run p)) of
        (None, S) \<Rightarrow> None
      | (Some e, S) \<Rightarrow> Some (group_error e
          ((set_flow S p)\<lparr>pi_spots := map (\<lambda>q. if inbound 0 q then Lost else q) (pi_spots p)\<rparr>)))"

definition stop_stage :: "(('v, 's, 'c, 'u) stage_spec \<times> ('v, 's, 'c, 'u) stage_runner) list \<Rightarrow> nat \<Rightarrow> nat option \<Rightarrow>
    ('v, 's, 'c, 'u) pipe \<Rightarrow> ('v, 's, 'c, 'u) pipe option" where
  "stop_stage cfg s unsent p =
     (if s < length cfg \<and> pi_status p ! s \<in> {Started, Failed}
      then (case observe (rn_flow (pi_run p)) of
          (None, S) \<Rightarrow> None
        | (Some e, S) \<Rightarrow>
            let p' = stage_fails s (ss_name (fst (cfg ! s))) e (set_flow S p) in
            (case unsent of
               None \<Rightarrow> Some p'
             | Some j \<Rightarrow> if j < length (pi_spots p) \<and> inbound (Suc s) (pi_spots p ! j)
                 then Some (set_spot j Lost p') else None))
      else None)"

section \<open>Reports\<close>

definition stage_report :: "('v, 's, 'c, 'u) pipe \<Rightarrow> nat \<Rightarrow> ('v, 's, 'c, 'u) stage_runner \<Rightarrow> report" where
  "stage_report p s r =
     (case r of TypedRunner tr \<Rightarrow> runner_report tr (engine_view s p) | OverrideRunner \<Rightarrow> report_Clone (en_report (pi_engines p ! s)))"

definition currentReport :: "(('v, 's, 'c, 'u) stage_spec \<times> ('v, 's, 'c, 'u) stage_runner) list \<Rightarrow>
    ('v, 's, 'c, 'u) pipe \<Rightarrow> report" where
  "currentReport cfg p = fold (\<lambda>s rep. report_merge rep (stage_report p s (snd (cfg ! s)))) [0 ..< length cfg] []"

text \<open>A tick of the periodic reporter; its error cancels the context of the run.\<close>

definition report_tick :: "('v, 's, 'c, 'u) flow_options \<Rightarrow> int \<Rightarrow>
    (('v, 's, 'c, 'u) stage_spec \<times> ('v, 's, 'c, 'u) stage_runner) list \<Rightarrow> ('v, 's, 'c, 'u) pipe \<Rightarrow>
    ('v, 's, 'c, 'u) pipe option" where
  "report_tick opts tot cfg p =
     (if oo_Reporter (fo_obs opts) = None \<or> oo_ReportInterval (fo_obs opts) \<le> 0 \<or> pi_reporterErr p \<noteq> None then None
      else case observe (rn_flow (pi_run p)) of
          (Some e, S) \<Rightarrow> None
        | (None, S) \<Rightarrow>
            (case publish (fo_obs opts) None (currentReport cfg p) tot False (rn_obs (pi_run p)) (fl_user S) of
               (e, ob, u) \<Rightarrow>
                 let S' = S\<lparr>fl_user := u, fl_world := (if e = None then fl_world S
                       else env_event (CancelCtx (Sentinel Canceled)) (fl_world S))\<rparr>
                 in Some (p\<lparr>pi_run := (pi_run p)\<lparr>rn_flow := S', rn_obs := ob\<rparr>, pi_reporterErr := e\<rparr>)))"

section \<open>Running a custom engine\<close>

text \<open>The environment of a run: \<open>o.env\<close>, or a new one that only this run has.\<close>

record ('v, 's, 'c, 'u) run_options =
  ro_flow :: "('v, 's, 'c, 'u) flow_options"
  ro_Rates :: "(string \<times> limiter) list"
  ro_Preflight :: "preflight option"
  ro_fresh :: addr

definition with_env :: "run_env \<Rightarrow> ('v, 's, 'c, 'u) run_options \<Rightarrow> ('v, 's, 'c, 'u) flow_options" where
  "with_env env ro = (ro_flow ro)\<lparr>fo_env := env\<rparr>"

text \<open>The branch of \<open>runCore\<close> for an override. The ticks of the reporter during the engine are the
  reports it finds then.\<close>

definition core_override :: "report list \<Rightarrow> ('v, 's, 'c, 'u) override \<Rightarrow> ('v, 'v, 'u) step \<Rightarrow>
    ('v, 's, 'c, 'u) flow_options \<Rightarrow> 'v list \<Rightarrow> ('s, 'c, 'u) run_state \<Rightarrow>
    ('v run_outcome \<times> ('s, 'c, 'u) run_state) option" where
  "core_override reps f step opts items S =
     (let tot = int (length items) in
      case stage_event opts (fs_Name step) EventStepStarted tot (rn_flow S) of
        (Some e, F) \<Rightarrow> Some (([], [], Some e), S\<lparr>rn_flow := F\<rparr>)
      | (None, F) \<Rightarrow>
          (case f step opts items (S\<lparr>rn_flow := F\<rparr>) of
             None \<Rightarrow> None
           | Some ((results, report, err), S1) \<Rightarrow>
               (case startPeriodicReporter (fo_obs opts) tot reps (rn_obs S1) (fl_user (rn_flow S1)) of
                  (re, ob, u) \<Rightarrow>
                    let S2 = S1\<lparr>rn_flow := (rn_flow S1)\<lparr>fl_user := u\<rparr>, rn_obs := ob\<rparr>;
                        err = (if re = None then err else errors_join [err, re])
                    in if err = None
                       then (case stage_event opts (fs_Name step) EventStepCompleted tot (rn_flow S2) of
                               (e, F2) \<Rightarrow> Some ((results, report, e), S2\<lparr>rn_flow := F2\<rparr>))
                       else Some ((results, report, err), S2))))"

text \<open>The checks of \<open>Run\<close> before any item: policies, resources, stages. They give the environment of
  the run and the options its stages are built with.\<close>

definition run_checks :: "('v, 's, 'c, 'u) run_options \<Rightarrow> ('v, 's, 'c, 'u) stage_spec list \<Rightarrow> ('s, 'c, 'u) run_state \<Rightarrow>
    err option \<times> ('v, 's, 'c, 'u) flow_options \<times> ('s, 'c, 'u) run_state" where
  "run_checks ro stages S =
     (let env = (case rn_env S of None \<Rightarrow> newRunEnv (ro_Rates ro) (ro_Preflight ro) (ro_fresh ro) | Some env \<Rightarrow> env) in
      case first_error (concat (map stage_policies stages)) of
        Some e \<Rightarrow> (Some e, with_env env ro, S)
      | None \<Rightarrow>
          (case ensure (collectPlans stages) env (fl_world (rn_flow S)) of
             (e, env', w) \<Rightarrow>
               let S1 = S\<lparr>rn_flow := (rn_flow S)\<lparr>fl_world := w\<rparr>, rn_env := Some env'\<rparr>;
                   opts = with_env env' ro
               in (case e of
                     Some e \<Rightarrow> (Some e, opts, S1)
                   | None \<Rightarrow> (first_error (map (stage_check opts) stages), opts, S1))))"

text \<open>A run of a core within its observation: the run events, the first and the last snapshot.\<close>

type_synonym ('v, 's, 'c, 'u) core =
  "('v, 's, 'c, 'u) flow_options \<Rightarrow> 'v list \<Rightarrow> ('s, 'c, 'u) run_state \<Rightarrow>
     ('v run_outcome \<times> ('s, 'c, 'u) run_state) option"

definition run_event :: "('v, 's, 'c, 'u) flow_options \<Rightarrow> ctx \<Rightarrow> EventType \<Rightarrow> int \<Rightarrow> err option \<Rightarrow> ('s, 'c, 'u) run_state \<Rightarrow>
    err option \<times> ('s, 'c, 'u) run_state" where
  "run_event opts c ty tot e S =
     (case emitLedger (fo_obs opts) c (zero_event\<lparr>ev_Index := - 1, ev_Type := ty, ev_Total := tot, ev_Error := e\<rparr>)
         (fl_user (rn_flow S)) of
        (e', u) \<Rightarrow> (e', S\<lparr>rn_flow := (rn_flow S)\<lparr>fl_user := u\<rparr>\<rparr>))"

definition run_publish :: "('v, 's, 'c, 'u) flow_options \<Rightarrow> ctx \<Rightarrow> report \<Rightarrow> int \<Rightarrow> bool \<Rightarrow> ('s, 'c, 'u) run_state \<Rightarrow>
    err option \<times> ('s, 'c, 'u) run_state" where
  "run_publish opts c rep tot terminal S =
     (case (if terminal then publishTerminal (fo_obs opts) rep tot (rn_obs S) (fl_user (rn_flow S))
            else publish (fo_obs opts) c rep tot False (rn_obs S) (fl_user (rn_flow S))) of
        (e, ob, u) \<Rightarrow> (e, S\<lparr>rn_flow := (rn_flow S)\<lparr>fl_user := u\<rparr>, rn_obs := ob\<rparr>))"

definition observed :: "('v, 's, 'c, 'u) core \<Rightarrow> ('v, 's, 'c, 'u) core" where
  "observed core opts items S =
     (let tot = int (length items) in
      if (oo_Reporter (fo_obs opts) = None \<and> oo_Ledger (fo_obs opts) = None) \<or> rn_obs S \<noteq> None
      then core opts items S
      else case withObservation (fo_obs opts) None (fl_user (rn_flow S)) of
        (ob, u) \<Rightarrow>
        let S1 = S\<lparr>rn_flow := (rn_flow S)\<lparr>fl_user := u\<rparr>, rn_obs := ob\<rparr> in
        (case observe (rn_flow S1) of
           (c, F) \<Rightarrow>
        (case run_event opts c EventRunStarted tot None (S1\<lparr>rn_flow := F\<rparr>) of
           (Some e, S2) \<Rightarrow> Some (([], [], Some e), S2\<lparr>rn_obs := None\<rparr>)
         | (None, S2) \<Rightarrow>
             (case run_publish opts c [] tot False S2 of
                (Some e, S3) \<Rightarrow>
                  (case run_event opts None EventRunFailed tot (Some e) S3 of
                     (_, S4) \<Rightarrow> Some (([], [], Some e), S4\<lparr>rn_obs := None\<rparr>))
              | (None, S3) \<Rightarrow>
                  (case core opts items S3 of
                     None \<Rightarrow> None
                   | Some ((results, report, err), S4) \<Rightarrow>
                       (case run_publish opts None report tot True S4 of
                          (pe, S5) \<Rightarrow>
                            let err = (if pe = None then err else errors_join [err, pe]) in
                            (case run_event opts None (if err = None then EventRunCompleted else EventRunFailed) tot err S5 of
                               (le, S6) \<Rightarrow>
                                 let err = (if le = None then err else errors_join [err, le])
                                 in Some ((if err = None then results else [], report, err), S6\<lparr>rn_obs := None\<rparr>))))))))"

definition run_with :: "('v, 's, 'c, 'u) core \<Rightarrow> ('v, 's, 'c, 'u) run_options \<Rightarrow> ('v, 's, 'c, 'u) stage_spec list \<Rightarrow>
    'v list \<Rightarrow> ('s, 'c, 'u) run_state \<Rightarrow> ('v run_outcome \<times> ('s, 'c, 'u) run_state) option" where
  "run_with core ro stages items S =
     (case run_checks ro stages S of
        (Some e, opts, S1) \<Rightarrow> Some (([], [], Some e), S1\<lparr>rn_env := (if rn_env S = None then None else rn_env S1)\<rparr>)
      | (None, opts, S1) \<Rightarrow>
          map_option (\<lambda>(out, S2). (out, S2\<lparr>rn_env := (if rn_env S = None then None else rn_env S2)\<rparr>))
            (observed core opts items S1))"

text \<open>The stage of an override: it drains the stream, runs its step on the clean items in the order
  of their indexes through a nested \<open>Run\<close> without a reporter, and gives all items on.\<close>

definition is_clean :: "nat \<Rightarrow> 'v spot \<Rightarrow> bool" where
  "is_clean s q \<longleftrightarrow> (case q of Inbound t it \<Rightarrow> t = s \<and> \<not> flagged it | _ \<Rightarrow> False)"

definition spot_item :: "'v spot \<Rightarrow> 'v erasedItem" where
  "spot_item q = (case q of Inbound _ it \<Rightarrow> it | Inside _ it _ \<Rightarrow> it | Lost \<Rightarrow> erased 0)"

definition clean_positions :: "nat \<Rightarrow> 'v spot list \<Rightarrow> nat list" where
  "clean_positions s qs =
     sort_key (\<lambda>j. er_index (spot_item (qs ! j))) (filter (\<lambda>j. is_clean s (qs ! j)) [0 ..< length qs])"

text \<open>The first clean item whose value the stage does not expect.\<close>

definition rejected_item :: "('v \<Rightarrow> bool) \<Rightarrow> 'v erasedItem list \<Rightarrow> 'v erasedItem option" where
  "rejected_item accepts its =
     find (\<lambda>it. case er_value it of None \<Rightarrow> True | Some v \<Rightarrow> \<not> accepts v) its"

definition emitted :: "int \<Rightarrow> 'v fresult \<Rightarrow> 'v erasedItem" where
  "emitted i res =
     \<lparr>er_index = i,
      er_value = (if re_Quarantined res = None \<and> \<not> re_Skipped res then re_Value res else None),
      er_outcome = re_Cache res, er_quarantined = map_option (\<lambda>q. q\<lparr>ie_Index := i\<rparr>) (re_Quarantined res),
      er_skipped = re_Skipped res\<rparr>"

fun emit_all :: "nat \<Rightarrow> nat list \<Rightarrow> 'v fresult list \<Rightarrow> 'v spot list \<Rightarrow> 'v spot list" where
  "emit_all s (j # js) (res # ress) qs =
     emit_all s js ress (qs[j := Inbound (Suc s) (emitted (er_index (spot_item (qs ! j))) res)])"
| "emit_all s _ _ qs = qs"

definition pass_flagged :: "nat \<Rightarrow> 'v spot \<Rightarrow> 'v spot" where
  "pass_flagged s q = (case q of Inbound t it \<Rightarrow> if t = s \<and> flagged it then Inbound (Suc s) it else q | _ \<Rightarrow> q)"

definition nested_options :: "('v, 's, 'c, 'u) run_options \<Rightarrow> ('v, 's, 'c, 'u) run_options" where
  "nested_options ro = ro\<lparr>ro_flow := (ro_flow ro)\<lparr>fo_obs := (fo_obs (ro_flow ro))\<lparr>oo_Reporter := None\<rparr>\<rparr>\<rparr>"

definition nested_run :: "('v, 's, 'c, 'u) run_options \<Rightarrow> ('v, 's, 'c, 'u) stage_spec \<Rightarrow> ('v, 's, 'c, 'u) override \<Rightarrow>
    'v list \<Rightarrow> ('s, 'c, 'u) run_state \<Rightarrow> ('v run_outcome \<times> ('s, 'c, 'u) run_state) option" where
  "nested_run ro st f items S = run_with (core_override [] f (ss_step st)) (nested_options ro) [st] items S"

definition run_override :: "('v, 's, 'c, 'u) run_options \<Rightarrow>
    (('v, 's, 'c, 'u) stage_spec \<times> ('v, 's, 'c, 'u) stage_runner) list \<Rightarrow> nat \<Rightarrow> ('v, 's, 'c, 'u) pipe \<Rightarrow>
    ('v, 's, 'c, 'u) pipe option" where
  "run_override ro cfg s p =
     (if s < length cfg \<and> pi_status p ! s = Started \<and> upstream_closed p s
      then (case ss_override (fst (cfg ! s)) of
          None \<Rightarrow> None
        | Some f \<Rightarrow>
            let st = fst (cfg ! s); js = clean_positions s (pi_spots p);
                its = map (\<lambda>j. spot_item (pi_spots p ! j)) js in
            (case observe (rn_flow (pi_run p)) of
               (Some e, F) \<Rightarrow> Some (stage_fails s (ss_name st) e (set_flow F p))
             | (None, F) \<Rightarrow>
                 (case rejected_item (ss_accepts st) its of
                    Some it \<Rightarrow> Some (stage_fails s (ss_name st)
                      (Errorf ''item %d has type %T, stage expects %T'' [FInt (er_index it)] None) (set_flow F p))
                  | None \<Rightarrow>
                      (case nested_run ro st f (map (the \<circ> er_value) its) ((pi_run p)\<lparr>rn_flow := F\<rparr>) of
                         None \<Rightarrow> None
                       | Some ((results, report, err), S) \<Rightarrow>
                           let e = pi_engines p ! s;
                               p1 = p\<lparr>pi_run := S, pi_engines := (pi_engines p)[s :=
                                 e\<lparr>en_report := report_merge (en_report e) report\<rparr>]\<rparr>
                           in (case err of
                                 Some d \<Rightarrow> Some (stage_fails s (ss_name st) d p1)
                               | None \<Rightarrow> Some (p1\<lparr>pi_spots := map (pass_flagged s)
                                   (emit_all s js results (pi_spots p1))\<rparr>))))))
      else None)"

section \<open>\<open>runStages\<close>, \<open>runCore\<close> and \<open>Run\<close>\<close>

datatype pipe_move = StartStage nat | ItemMove nat | RunOverride nat | EndStage nat | StopFeeder
  | StopStage nat "nat option" | ReportTick

definition pipe_step :: "'k codec \<Rightarrow> 'v \<Rightarrow> ('v, 's, 'c, 'u) run_options \<Rightarrow> ('v, 's, 'c, 'u) flow_options \<Rightarrow> int \<Rightarrow>
    (('v, 's, 'c, 'u) stage_spec \<times> ('v, 's, 'c, 'u) stage_runner) list \<Rightarrow> pipe_move \<Rightarrow> ('v, 's, 'c, 'u) pipe \<Rightarrow>
    ('v, 's, 'c, 'u) pipe option" where
  "pipe_step C zero ro opts tot cfg m p =
     (case m of
        StartStage s \<Rightarrow> start_stage opts tot cfg s p
      | ItemMove j \<Rightarrow> item_move C zero cfg j p
      | RunOverride s \<Rightarrow> run_override ro cfg s p
      | EndStage s \<Rightarrow> end_stage opts tot cfg s p
      | StopFeeder \<Rightarrow> stop_feeder p
      | StopStage s unsent \<Rightarrow> stop_stage cfg s unsent p
      | ReportTick \<Rightarrow> report_tick opts tot cfg p)"

fun pipe_run :: "'k codec \<Rightarrow> 'v \<Rightarrow> ('v, 's, 'c, 'u) run_options \<Rightarrow> ('v, 's, 'c, 'u) flow_options \<Rightarrow> int \<Rightarrow>
    (('v, 's, 'c, 'u) stage_spec \<times> ('v, 's, 'c, 'u) stage_runner) list \<Rightarrow> pipe_move list \<Rightarrow> ('v, 's, 'c, 'u) pipe \<Rightarrow>
    ('v, 's, 'c, 'u) pipe option" where
  "pipe_run C zero ro opts tot cfg [] p = Some p"
| "pipe_run C zero ro opts tot cfg (m # ms) p =
     (case pipe_step C zero ro opts tot cfg m p of
        None \<Rightarrow> None | Some p' \<Rightarrow> pipe_run C zero ro opts tot cfg ms p')"

text \<open>\<open>group.Wait\<close> returns when every stage has.\<close>

definition pipe_ended :: "('v, 's, 'c, 'u) pipe \<Rightarrow> bool" where
  "pipe_ended p \<longleftrightarrow> list_all (closed_stage p) [0 ..< length (pi_status p)]"

text \<open>The collector puts what leaves the last stage at its index.\<close>

definition collect :: "nat \<Rightarrow> nat \<Rightarrow> 'v spot list \<Rightarrow> 'v erasedItem list" where
  "collect n k qs =
     fold (\<lambda>q rs. case q of Inbound s it \<Rightarrow> if s = n then rs[nat (er_index it) := it] else rs | _ \<Rightarrow> rs) qs
       (replicate k (erased 0))"

fun build_stages :: "('v, 's, 'c, 'u) flow_options \<Rightarrow> ('v, 's, 'c, 'u) stage_spec list \<Rightarrow>
    (('v, 's, 'c, 'u) stage_spec \<times> ('v, 's, 'c, 'u) stage_runner) list result" where
  "build_stages opts [] = Inr []"
| "build_stages opts (st # sts) =
     (case stage_build opts st of
        Inl e \<Rightarrow> Inl (stage_error (ss_name st) e)
      | Inr r \<Rightarrow> (case build_stages opts sts of Inl e \<Rightarrow> Inl e | Inr rs \<Rightarrow> Inr ((st, r) # rs)))"

definition runStages :: "'k codec \<Rightarrow> 'v \<Rightarrow> ('v, 's, 'c, 'u) run_options \<Rightarrow> pipe_move list \<Rightarrow>
    ('v, 's, 'c, 'u) stage_spec list \<Rightarrow> ('v, 's, 'c, 'u) flow_options \<Rightarrow> 'v erasedItem list \<Rightarrow> ('s, 'c, 'u) run_state \<Rightarrow>
    (('v erasedItem list \<times> report \<times> err option) \<times> ('s, 'c, 'u) run_state) option" where
  "runStages C zero ro sched stages opts inputs S =
     (case build_stages opts stages of
        Inl e \<Rightarrow> Some (([], [], Some e), S)
      | Inr cfg \<Rightarrow>
          (case pipe_run C zero ro opts (int (length inputs)) cfg sched (pipe_start (length cfg) inputs S) of
             None \<Rightarrow> None
           | Some p \<Rightarrow>
               if \<not> pipe_ended p then None
               else case (case pi_reporterErr p of Some e \<Rightarrow> Some e | None \<Rightarrow> pi_err p) of
                   Some e \<Rightarrow> Some (([], currentReport cfg p, Some e), pi_run p)
                 | None \<Rightarrow> Some ((collect (length cfg) (length inputs) (pi_spots p), currentReport cfg p, None), pi_run p)))"

definition indexed :: "'v list \<Rightarrow> 'v erasedItem list" where
  "indexed items = map (\<lambda>(i, v). (erased (int i))\<lparr>er_value := Some v\<rparr>) (enumerate 0 items)"

definition result_of :: "'v erasedItem \<Rightarrow> 'v fresult" where
  "result_of it = \<lparr>re_Value = (if flagged it then None else er_value it), re_Cache = er_outcome it,
     re_Quarantined = er_quarantined it, re_Skipped = er_skipped it\<rparr>"

definition runCore :: "'k codec \<Rightarrow> 'v \<Rightarrow> ('v, 's, 'c, 'u) run_options \<Rightarrow> report list \<Rightarrow> pipe_move list \<Rightarrow>
    ('v, 's, 'c, 'u) full_step \<Rightarrow> ('v, 's, 'c, 'u) core" where
  "runCore C zero ro reps sched s opts items S =
     (case st_override s of
        Some f \<Rightarrow> core_override reps f (st_step s) opts items S
      | None \<Rightarrow>
          map_option (\<lambda>((outs, report, err), S'). ((if err = None then map result_of outs else [], report, err), S'))
            (runStages C zero ro sched (stagesOf s) opts (indexed items) S))"

definition Run :: "'k codec \<Rightarrow> 'v \<Rightarrow> report list \<Rightarrow> pipe_move list \<Rightarrow> ('v, 's, 'c, 'u) full_step \<Rightarrow>
    'v list \<Rightarrow> ('v, 's, 'c, 'u) run_options \<Rightarrow> ('s, 'c, 'u) run_state \<Rightarrow>
    ('v run_outcome \<times> ('s, 'c, 'u) run_state) option" where
  "Run C zero reps sched s items ro S = run_with (runCore C zero ro reps sched s) ro (stagesOf s) items S"

end
