(* ===== verification/Pipeline_Facts.thy ===== *)
theory Pipeline_Facts
  imports Pipeline
begin

text \<open>
  What a pipeline promises under every schedule: results in the order of the inputs, each the
  end of one path through the stages (flagged items bypass the rest); budgets that pay for the
  work calls of all stages; no effect before every check has passed; and a journal with one
  start and one end.
\<close>

section \<open>The path of an item\<close>

lemma item_index [engine_simps]:
  "er_index (erased i) = i" "er_index (done_item r i v key dig) = i" "er_index (failed_item r i e cl n) = i"
  "er_index (hit_item i v dig) = i" "er_index (follower_item i call dig) = i"
  by (simp_all add: erased_def done_item_def failed_item_def hit_item_def follower_item_def)

lemma process_finish_index:
  assumes "process_finish r zero i x ro (S, fl) = Some (Inr it, S', fl')" and "runner_ok r"
  shows "er_index it = i"
proof (cases ro)
  case Uncached
  with assms(1) have w: "work r i x None [] S = Some (Inr it, S')" by (auto simp: process_finish_def)
  from work_effect [OF w assms(2)] show ?thesis
    by (auto simp: item_end_def engine_simps)
next
  case (Leads k d)
  with assms(1) obtain ops where l: "lead r ops i x k d S = Some (Inr it, S')" by (auto simp: process_finish_def split: option.splits)
  from lead_effect [OF l assms(2)] show ?thesis
    by (auto simp: item_end_def engine_simps)
next
  case (Follows d)
  with assms(1) obtain call where f: "follow r zero i call d S = Some (Inr it, S')" by (auto simp: process_finish_def split: option.splits)
  from follow_effect(2) [OF f] show ?thesis by (auto simp: engine_simps)
qed

text \<open>What a stage may make of an item: \<open>process\<close> for a plain stage, the result at the item's
  position of a nested run for a custom engine.\<close>

definition made :: "'v \<Rightarrow> ('v, 's, 'c, 'u) run_options \<Rightarrow> ('v, 's, 'c, 'u) stage_spec \<times> ('v, 's, 'c, 'u) stage_runner \<Rightarrow>
    int \<Rightarrow> 'v \<Rightarrow> 'v erasedItem \<Rightarrow> bool" where
  "made zero ro sr i v it \<longleftrightarrow>
     (case snd sr of
        TypedRunner r \<Rightarrow> (\<exists>role S fl S' fl'. process_finish r zero i v role (S, fl) = Some (Inr it, S', fl'))
      | OverrideRunner \<Rightarrow>
          (\<exists>f vs S results report S' k. ss_override (fst sr) = Some f \<and>
             nested_run ro (fst sr) f vs S = Some ((results, report, None), S') \<and>
             k < length vs \<and> vs ! k = v \<and> k < length results \<and> it = emitted i (results ! k)))"

inductive came_through :: "'v \<Rightarrow> ('v, 's, 'c, 'u) run_options \<Rightarrow>
    (('v, 's, 'c, 'u) stage_spec \<times> ('v, 's, 'c, 'u) stage_runner) list \<Rightarrow> 'v erasedItem \<Rightarrow> nat \<Rightarrow> 'v erasedItem \<Rightarrow> bool"
  for zero ro cfg input where
  fed: "came_through zero ro cfg input 0 input"
| bypassed: "came_through zero ro cfg input s it \<Longrightarrow> flagged it \<Longrightarrow> came_through zero ro cfg input (Suc s) it"
| processed: "came_through zero ro cfg input s it \<Longrightarrow> \<not> flagged it \<Longrightarrow> er_value it = Some v \<Longrightarrow>
     er_index it' = er_index it \<Longrightarrow> made zero ro (cfg ! s) (er_index it) v it' \<Longrightarrow>
     came_through zero ro cfg input (Suc s) it'"

inductive_cases came_through_Suc: "came_through zero ro cfg input (Suc s) it"

lemma came_through_index: "came_through zero ro cfg input s it \<Longrightarrow> er_index it = er_index input"
  by (induction rule: came_through.induct) simp_all

definition on_path :: "'v \<Rightarrow> ('v, 's, 'c, 'u) run_options \<Rightarrow>
    (('v, 's, 'c, 'u) stage_spec \<times> ('v, 's, 'c, 'u) stage_runner) list \<Rightarrow> 'v erasedItem \<Rightarrow> 'v spot \<Rightarrow> bool" where
  "on_path zero ro cfg input q \<longleftrightarrow>
     (case q of
        Inbound s it \<Rightarrow> s \<le> length cfg \<and> came_through zero ro cfg input s it
      | Inside s it role \<Rightarrow> s < length cfg \<and> came_through zero ro cfg input s it \<and> \<not> flagged it
      | Lost \<Rightarrow> True)"

definition paths :: "'v \<Rightarrow> ('v, 's, 'c, 'u) run_options \<Rightarrow>
    (('v, 's, 'c, 'u) stage_spec \<times> ('v, 's, 'c, 'u) stage_runner) list \<Rightarrow> 'v erasedItem list \<Rightarrow> 'v spot list \<Rightarrow> bool" where
  "paths zero ro cfg inputs qs \<longleftrightarrow> length qs = length inputs \<and>
     (\<forall>j < length qs. on_path zero ro cfg (inputs ! j) (qs ! j))"

definition cfg_ok :: "(('v, 's, 'c, 'u) stage_spec \<times> ('v, 's, 'c, 'u) stage_runner) list \<Rightarrow> bool" where
  "cfg_ok cfg \<longleftrightarrow> (\<forall>st r. (st, TypedRunner r) \<in> set cfg \<longrightarrow> runner_ok r \<and> ss_override st = None) \<and>
     (\<forall>st. (st, OverrideRunner) \<in> set cfg \<longrightarrow> ss_override st \<noteq> None)"

lemma build_stages_ok:
  "build_stages opts sts = Inr cfg \<Longrightarrow> cfg_ok cfg \<and> map fst cfg = sts \<and>
     (\<forall>st r. (st, TypedRunner r) \<in> set cfg \<longrightarrow> newTypedRunner (ss_step st) opts = Inr r)"
proof (induction sts arbitrary: cfg)
  case (Cons st sts)
  then obtain r rs where r: "stage_build opts st = Inr r" and rs: "build_stages opts sts = Inr rs" and cfg: "cfg = (st, r) # rs"
    by (auto split: sum.splits)
  have "(case r of TypedRunner t \<Rightarrow> runner_ok t \<and> ss_override st = None \<and> newTypedRunner (ss_step st) opts = Inr t
      | OverrideRunner \<Rightarrow> ss_override st \<noteq> None)"
    using r by (auto simp: stage_build_def split: option.splits sum.splits dest: newTypedRunner_ok)
  then show ?case using Cons.IH [OF rs] cfg by (auto simp: cfg_ok_def split: stage_runner.splits)
qed (simp add: cfg_ok_def)

lemmas pipe_defs = set_flow_def engine_save_def set_spot_def group_error_def stage_fails_def

lemma pipe_select [engine_simps]:
  "pi_spots (set_flow S p) = pi_spots p" "pi_spots (engine_save s S fl p) = pi_spots p"
  "pi_spots (set_spot j q p) = (pi_spots p)[j := q]" "pi_spots (group_error e p) = pi_spots p"
  "pi_spots (stage_fails s name e p) = pi_spots p"
  "pi_status (set_flow S p) = pi_status p" "pi_status (engine_save s S fl p) = pi_status p"
  "pi_status (set_spot j q p) = pi_status p" "pi_status (group_error e p) = pi_status p"
  "pi_status (stage_fails s name e p) = (pi_status p)[s := Failed]"
  "pi_err (set_flow S p) = pi_err p" "pi_err (engine_save s S fl p) = pi_err p"
  "pi_err (set_spot j q p) = pi_err p" "pi_err (group_error e p) = Some (case pi_err p of None \<Rightarrow> e | Some e' \<Rightarrow> e')"
  "pi_err (stage_fails s name e p) = Some (case pi_err p of None \<Rightarrow> stage_error name e | Some e' \<Rightarrow> e')"
  by (simp_all add: pipe_defs split: option.splits)

lemma paths_put: "paths zero ro cfg inputs qs \<Longrightarrow> (j < length qs \<Longrightarrow> on_path zero ro cfg (inputs ! j) q) \<Longrightarrow>
    paths zero ro cfg inputs (qs[j := q])"
  unfolding paths_def length_list_update by (metis nth_list_update_eq nth_list_update_neq)

lemma enter_item_paths:
  assumes "paths zero ro cfg inputs (pi_spots p)" and "j < length (pi_spots p)" and "pi_spots p ! j = Inbound s it"
    and "s < length cfg"
  shows "paths zero ro cfg inputs (pi_spots (enter_item C st r s j it p))"
proof -
  have at: "came_through zero ro cfg (inputs ! j) s it"
    using assms(1-3) by (auto simp: paths_def on_path_def dest!: spec [of _ j])
  show ?thesis
    using assms(1,4) at
    by (auto simp: enter_item_def engine_simps on_path_def intro!: paths_put came_through.bypassed
        split: option.splits sum.splits prod.splits)
qed

lemma leave_item_paths:
  assumes "paths zero ro cfg inputs (pi_spots p)" and "j < length (pi_spots p)" and "pi_spots p ! j = Inside s it role"
    and "cfg ! s = (st, TypedRunner r)" and ok: "cfg_ok cfg" and "leave_item st r zero s j it role p = Some p'"
  shows "paths zero ro cfg inputs (pi_spots p')"
proof -
  have at: "came_through zero ro cfg (inputs ! j) s it" "s < length cfg" "\<not> flagged it"
    using assms(1-3) by (auto simp: paths_def on_path_def dest!: spec [of _ j])
  have "(st, TypedRunner r) \<in> set cfg" using at(2) assms(4) by (metis nth_mem)
  then have r: "runner_ok r" using ok by (auto simp: cfg_ok_def)
  from assms(6) obtain v res S fl where v: "er_value it = Some v"
    and fin: "process_finish r zero (er_index it) v role (engine_view s p, en_calls (pi_engines p ! s)) = Some (res, S, fl)"
    and p': "p' = (case res of Inl e \<Rightarrow> set_spot j Lost (stage_fails s (ss_name st) e (engine_save s S fl p))
      | Inr it' \<Rightarrow> set_spot j (Inbound (Suc s) it') (engine_save s S fl p))"
    by (auto simp: leave_item_def split: option.splits sum.splits)
  show ?thesis
  proof (cases res)
    case (Inl e)
    then show ?thesis using p' assms(1) by (simp add: engine_simps paths_put on_path_def)
  next
    case (Inr it')
    have "made zero ro (cfg ! s) (er_index it) v it'" using fin [unfolded Inr]
      unfolding made_def assms(4) snd_conv stage_runner.case by (intro exI)
    from came_through.processed [OF at(1,3) v process_finish_index [OF fin [unfolded Inr] r] this]
    show ?thesis using p' Inr assms(1) at(2) by (simp add: engine_simps paths_put on_path_def)
  qed
qed

text \<open>The items a custom engine gives on.\<close>

lemma emit_all_length [simp]: "length (emit_all s js ress qs) = length qs"
  by (induction s js ress qs rule: emit_all.induct) simp_all

lemma emit_all_nth:
  "distinct js \<Longrightarrow> \<forall>j \<in> set js. j < length qs \<Longrightarrow> j < length qs \<Longrightarrow>
     emit_all s js ress qs ! j =
       (if \<exists>k < length js. k < length ress \<and> js ! k = j
        then Inbound (Suc s) (emitted (er_index (spot_item (qs ! j))) (ress ! (THE k. k < length js \<and> js ! k = j)))
        else qs ! j)"
proof (induction s js ress qs rule: emit_all.induct)
  case (1 s i js res ress qs)
  have i: "i < length qs" "i \<notin> set js" using "1.prems" by auto
  have IH: "emit_all s js ress (qs[i := Inbound (Suc s) (emitted (er_index (spot_item (qs ! i))) res)]) ! j =
      (if \<exists>k < length js. k < length ress \<and> js ! k = j
       then Inbound (Suc s) (emitted (er_index (spot_item (qs[i := Inbound (Suc s) (emitted (er_index (spot_item (qs ! i))) res)] ! j)))
         (ress ! (THE k. k < length js \<and> js ! k = j)))
       else qs[i := Inbound (Suc s) (emitted (er_index (spot_item (qs ! i))) res)] ! j)"
    using "1.IH" "1.prems" by simp
  show ?case
  proof (cases "i = j")
    case True
    have no: "\<not> (\<exists>k < length js. k < length ress \<and> js ! k = j)" using i(2) True by (metis nth_mem)
    have "(THE k. k < length (i # js) \<and> (i # js) ! k = j) = 0"
      using True i(2) by (intro the_equality) (auto simp: nth_Cons split: nat.splits)
    then show ?thesis using IH no True i(1) by auto
  next
    case False
    have ex: "(\<exists>k < length (i # js). k < length (res # ress) \<and> (i # js) ! k = j) \<longleftrightarrow>
        (\<exists>k < length js. k < length ress \<and> js ! k = j)" (is "?L \<longleftrightarrow> ?R")
    proof
      assume ?L
      then obtain k where "k < length (i # js)" "k < length (res # ress)" "(i # js) ! k = j" by blast
      then show ?R using False by (cases k) auto
    qed (metis Suc_less_eq length_Cons nth_Cons_Suc)
    have the: "(THE k. k < length (i # js) \<and> (i # js) ! k = j) = Suc (THE k. k < length js \<and> js ! k = j)" if ?R
    proof -
      from that obtain k where k: "k < length js" "js ! k = j" by blast
      have "distinct js" using "1.prems"(1) by simp
      then have "(THE k. k < length js \<and> js ! k = j) = k" using k by (intro the_equality) (auto simp: nth_eq_iff_index_eq)
      moreover have "(THE k. k < length (i # js) \<and> (i # js) ! k = j) = Suc k"
        using k "1.prems"(1) by (intro the_equality) (auto simp: nth_Cons nth_eq_iff_index_eq split: nat.splits)
      ultimately show ?thesis by simp
    qed
    show ?thesis unfolding ex using IH the False by auto
  qed
qed simp_all

lemma clean_positions_ok:
  "distinct (clean_positions s qs)" "j \<in> set (clean_positions s qs) \<longleftrightarrow> j < length qs \<and> is_clean s (qs ! j)"
  by (auto simp: clean_positions_def distinct_sort)

lemma rejected_item_None:
  "rejected_item acc its = None \<Longrightarrow> it \<in> set its \<Longrightarrow> \<exists>v. er_value it = Some v \<and> acc v"
  by (auto simp: rejected_item_def find_None_iff split: option.splits)

lemma pass_flagged_path: "on_path zero ro cfg input q \<Longrightarrow> s < length cfg \<Longrightarrow> on_path zero ro cfg input (pass_flagged s q)"
  by (auto simp: on_path_def pass_flagged_def intro: came_through.bypassed split: spot.splits)

lemma override_paths:
  fixes ro :: "('v, 's, 'c, 'u) run_options"
  assumes paths: "paths zero ro cfg inputs qs" and s: "s < length cfg" "snd (cfg ! s) = OverrideRunner"
    "ss_override (fst (cfg ! s)) = Some f" and js: "js = clean_positions s qs"
    and its: "its = map (\<lambda>j. spot_item (qs ! j)) js" and ok: "rejected_item acc its = None"
    and run: "nested_run ro (fst (cfg ! s)) f (map (the \<circ> er_value) its) S = Some ((results, report, None), S')"
  shows "paths zero ro cfg inputs (map (pass_flagged s) (emit_all s js results qs))"
proof -
  let ?qs = "emit_all s js results qs"
  have d: "distinct js" and within: "\<forall>j \<in> set js. j < length qs"
    by (simp_all add: clean_positions_ok js)
  have "on_path zero ro cfg (inputs ! j) (?qs ! j)" if j: "j < length qs" for j
  proof (cases "\<exists>k < length js. k < length results \<and> js ! k = j")
    case False
    then show ?thesis using paths j emit_all_nth [OF d within j, of s results] by (auto simp: paths_def)
  next
    case True
    then obtain k where k: "k < length js" "k < length results" "js ! k = j" by blast
    have the: "(THE k. k < length js \<and> js ! k = j) = k" using k d by (intro the_equality) (auto simp: nth_eq_iff_index_eq)
    have clean: "is_clean s (qs ! j)" using clean_positions_ok(2) [of j s qs] nth_mem [OF k(1)] k(3) js by simp
    then obtain it where it: "qs ! j = Inbound s it" "\<not> flagged it" by (auto simp: is_clean_def split: spot.splits)
    have item: "its ! k = it" "k < length its" using k it its by (simp_all add: spot_item_def)
    obtain v where v: "er_value it = Some v" using rejected_item_None [OF ok] item by (metis nth_mem)
    have at: "came_through zero ro cfg (inputs ! j) s it" using paths j it(1) by (auto simp: paths_def on_path_def dest!: spec [of _ j])
    have here: "?qs ! j = Inbound (Suc s) (emitted (er_index it) (results ! k))"
      using True emit_all_nth [OF d within j, of s results] it(1) the by (simp add: spot_item_def)
    have "made zero ro (cfg ! s) (er_index it) v (emitted (er_index it) (results ! k))"
      unfolding made_def s(2) stage_runner.case
      by (rule exI [of _ f], rule exI [of _ "map (the \<circ> er_value) its"]) (use s(3) run item v k in force)
    from came_through.processed [OF at it(2) v _ this] show ?thesis using here s(1) by (simp add: on_path_def emitted_def)
  qed
  then show ?thesis using paths s(1) by (simp add: paths_def pass_flagged_path)
qed

lemma pipe_step_paths:
  assumes "pipe_step C zero ro opts tot cfg m p = Some p'" and "paths zero ro cfg inputs (pi_spots p)" and ok: "cfg_ok cfg"
  shows "paths zero ro cfg inputs (pi_spots p')"
proof (cases m)
  case (ItemMove j)
  with assms(1) have mv: "item_move C zero cfg j p = Some p'" by (simp add: pipe_step_def)
  then have j: "j < length (pi_spots p)" by (auto simp: item_move_def split: if_splits)
  show ?thesis
  proof (cases "pi_spots p ! j")
    case (Inbound s it)
    with mv j obtain st r where "s < length cfg" "p' = enter_item C st r s j it p"
      by (auto simp: item_move_def split: if_splits prod.splits stage_runner.splits)
    then show ?thesis using enter_item_paths [OF assms(2) j Inbound] by simp
  next
    case (Inside s it role)
    with mv j obtain st r where "cfg ! s = (st, TypedRunner r)" "leave_item st r zero s j it role p = Some p'"
      by (auto simp: item_move_def split: if_splits prod.splits stage_runner.splits)
    then show ?thesis using leave_item_paths [OF assms(2) j Inside _ ok] by blast
  qed (use mv j in \<open>simp add: item_move_def\<close>)
next
  case (RunOverride s)
  with assms(1) have mv: "run_override ro cfg s p = Some p'" by (simp add: pipe_step_def)
  then obtain f where s: "s < length cfg" and f: "ss_override (fst (cfg ! s)) = Some f"
    by (auto simp: run_override_def split: if_splits option.splits)
  have "snd (cfg ! s) = OverrideRunner"
  proof (cases "snd (cfg ! s)")
    case (TypedRunner r)
    then have "(fst (cfg ! s), TypedRunner r) \<in> set cfg" using s by (metis nth_mem prod.collapse)
    then show ?thesis using ok f by (auto simp: cfg_ok_def)
  qed simp
  note over = override_paths [OF assms(2) s this f refl refl]
  show ?thesis using mv s f assms(2)
    by (auto simp: run_override_def Let_def engine_simps simp del: map_map split: if_splits option.splits prod.splits intro: over)
qed (use assms in \<open>auto simp: pipe_step_def start_stage_def end_stage_def stop_feeder_def stop_stage_def report_tick_def
    Let_def engine_simps on_path_def paths_def nth_list_update split: if_splits option.splits prod.splits\<close>)

lemma pipe_run_paths:
  "pipe_run C zero ro opts tot cfg ms p = Some p' \<Longrightarrow> cfg_ok cfg \<Longrightarrow> paths zero ro cfg inputs (pi_spots p) \<Longrightarrow>
     paths zero ro cfg inputs (pi_spots p')"
  by (induction ms arbitrary: p) (auto split: option.splits dest: pipe_step_paths)

section \<open>A run without an error is complete\<close>

definition past :: "nat \<Rightarrow> 'v spot \<Rightarrow> bool" where
  "past s q \<longleftrightarrow> (case q of Inbound t _ \<Rightarrow> s < t | Inside t _ _ \<Rightarrow> s < t | Lost \<Rightarrow> True)"

definition forward :: "'v spot \<Rightarrow> 'v spot \<Rightarrow> bool" where
  "forward q q' \<longleftrightarrow> q' = q \<or> (\<exists>s it it' ro. (q = Inbound s it \<or> q = Inside s it ro) \<and> q' = Inbound (Suc s) it') \<or>
     (\<exists>s it it' ro. q = Inbound s it \<and> q' = Inside s it' ro)"

lemma past_forward: "forward q q' \<Longrightarrow> past s q \<Longrightarrow> past s q'"
  by (auto simp: forward_def past_def)

definition calm :: "nat \<Rightarrow> ('v, 's, 'c, 'u) pipe \<Rightarrow> bool" where
  "calm n p \<longleftrightarrow> length (pi_status p) = n \<and>
     (pi_err p = None \<longrightarrow> (\<forall>j < length (pi_spots p). pi_spots p ! j \<noteq> Lost) \<and>
        (\<forall>s < n. pi_status p ! s \<noteq> Failed) \<and>
        (\<forall>s < n. pi_status p ! s = Completed \<longrightarrow> (\<forall>j < length (pi_spots p). past s (pi_spots p ! j))))"

lemma calm_error: "length (pi_status p) = n \<Longrightarrow> pi_err p \<noteq> None \<Longrightarrow> calm n p"
  by (auto simp: calm_def)

lemma calm_forward:
  assumes "calm n p" and "pi_status p' = pi_status p" and "pi_err p' = pi_err p"
    and "length (pi_spots p') = length (pi_spots p)"
    and "\<And>j. j < length (pi_spots p) \<Longrightarrow> forward (pi_spots p ! j) (pi_spots p' ! j)"
  shows "calm n p'"
proof -
  have "pi_spots p' ! j \<noteq> Lost" if "j < length (pi_spots p)" "pi_spots p ! j \<noteq> Lost" for j
    using assms(5) [OF that(1)] that(2) by (auto simp: forward_def)
  moreover have "past s (pi_spots p' ! j)" if "j < length (pi_spots p)" "past s (pi_spots p ! j)" for s j
    using past_forward [OF assms(5)] that by blast
  ultimately show ?thesis using assms(1-4) by (auto simp: calm_def)
qed

lemma forward_put: "forward (qs ! j) q \<Longrightarrow> i < length qs \<Longrightarrow> forward (qs ! i) (qs[j := q] ! i)"
  by (cases "i = j") (auto simp: forward_def)

lemma item_move_calm:
  assumes "item_move C zero cfg j p = Some p'" and "calm n p"
  shows "calm n p'"
proof -
  have j: "j < length (pi_spots p)" using assms(1) by (auto simp: item_move_def split: if_splits)
  note len = assms(2) [unfolded calm_def, THEN conjunct1]
  have put: "calm n p'" if "pi_status p' = pi_status p" "pi_err p' = pi_err p" "pi_spots p' = (pi_spots p)[j := q]"
      "forward (pi_spots p ! j) q" for q
    using assms(2) that by (intro calm_forward [OF assms(2)]) (simp_all add: forward_put)
  show ?thesis
  proof (cases "pi_spots p ! j")
    case (Inbound s it)
    with assms(1) j obtain st r where p': "p' = enter_item C st r s j it p"
      by (auto simp: item_move_def split: if_splits prod.splits stage_runner.splits)
    show ?thesis
    proof (cases "pi_err p' = None")
      case False
      then show ?thesis using len p' by (intro calm_error) (auto simp: enter_item_def engine_simps split: option.splits sum.splits prod.splits)
    next
      case True
      then have "pi_status p' = pi_status p \<and> pi_err p' = pi_err p \<and>
          (\<exists>q. pi_spots p' = (pi_spots p)[j := q] \<and> forward (pi_spots p ! j) q)"
        using p' Inbound by (auto simp: enter_item_def engine_simps forward_def split: if_splits option.splits sum.splits prod.splits)
      then show ?thesis using put by blast
    qed
  next
    case (Inside s it role)
    with assms(1) j obtain st r where p': "leave_item st r zero s j it role p = Some p'"
      by (auto simp: item_move_def split: if_splits prod.splits stage_runner.splits)
    show ?thesis
    proof (cases "pi_err p' = None")
      case False
      then show ?thesis using len p' by (intro calm_error) (auto simp: leave_item_def engine_simps split: option.splits sum.splits prod.splits)
    next
      case True
      then have "pi_status p' = pi_status p \<and> pi_err p' = pi_err p \<and>
          (\<exists>q. pi_spots p' = (pi_spots p)[j := q] \<and> forward (pi_spots p ! j) q)"
        using p' Inside by (auto simp: leave_item_def engine_simps forward_def split: if_splits option.splits sum.splits prod.splits)
      then show ?thesis using put by blast
    qed
  qed (use assms(1) j in \<open>simp add: item_move_def\<close>)
qed

lemma end_stage_calm:
  assumes "end_stage opts tot cfg s p = Some p'" and c: "calm n p" and n: "n = length cfg"
  shows "calm n p'"
proof -
  note len = c [unfolded calm_def, THEN conjunct1]
  from assms(1) have s: "s < n" "upstream_closed p s" "\<not> list_ex (inside s) (pi_spots p)" "\<not> list_ex (inbound s) (pi_spots p)"
    using n by (auto simp: end_stage_def split: if_splits)
  obtain e S where ev: "stage_event opts (ss_name (fst (cfg ! s))) EventStepCompleted tot (rn_flow (pi_run p)) = (e, S)" by fastforce
  show ?thesis
  proof (cases "e = None \<and> pi_err p = None")
    case False
    then have "pi_err p' \<noteq> None \<and> length (pi_status p') = n"
      using assms(1) ev len by (auto simp: end_stage_def engine_simps split: if_splits option.splits)
    then show ?thesis by (simp add: calm_error)
  next
    case True
    then have p': "p' = (set_flow S p)\<lparr>pi_status := (pi_status p)[s := Completed]\<rparr>"
      using assms(1) ev by (auto simp: end_stage_def split: if_splits)
    have "past s (pi_spots p ! j)" if j: "j < length (pi_spots p)" for j
    proof -
      have no: "\<not> inside s (pi_spots p ! j)" "\<not> inbound s (pi_spots p ! j)" using s(3,4) j by (auto simp: list_ex_iff)
      have "s = 0 \<or> past (s - 1) (pi_spots p ! j)"
      proof (cases s)
        case (Suc t)
        then have "pi_status p ! t = Completed" using s(1,2) c True by (auto simp: upstream_closed_def closed_stage_def calm_def)
        then show ?thesis using Suc s(1) c True j by (auto simp: calm_def)
      qed simp
      then show ?thesis using no by (auto simp: past_def inside_def inbound_def split: spot.splits)
    qed
    then show ?thesis using c True s(1) by (auto simp: p' calm_def engine_simps nth_list_update)
  qed
qed

lemma start_stage_calm:
  assumes "start_stage opts tot cfg s p = Some p'" and c: "calm n p" and n: "n = length cfg"
  shows "calm n p'"
proof -
  note len = c [unfolded calm_def, THEN conjunct1]
  have s: "s < n" using assms(1) n by (auto simp: start_stage_def split: if_splits)
  obtain e S where ev: "stage_event opts (ss_name (fst (cfg ! s))) EventStepStarted tot (rn_flow (pi_run p)) = (e, S)" by fastforce
  show ?thesis
  proof (cases e)
    case None
    then have "p' = (set_flow S p)\<lparr>pi_status := (pi_status p)[s := Started]\<rparr>"
      using assms(1) ev by (auto simp: start_stage_def split: if_splits)
    then show ?thesis using c s by (auto simp: calm_def engine_simps nth_list_update)
  next
    case (Some d)
    then have "p' = stage_fails s (ss_name (fst (cfg ! s))) d (set_flow S p)"
      using assms(1) ev by (auto simp: start_stage_def split: if_splits)
    then show ?thesis using len by (intro calm_error) (simp_all add: engine_simps)
  qed
qed

lemma forward_pass: "q' = q \<or> (\<exists>it it'. q = Inbound s it \<and> q' = Inbound (Suc s) it') \<Longrightarrow> forward q (pass_flagged s q')"
  by (cases q) (auto simp: forward_def pass_flagged_def split: if_splits)

lemma run_override_calm:
  assumes mv: "run_override ro cfg s p = Some p'" and c: "calm n p"
  shows "calm n p'"
proof -
  note len = c [unfolded calm_def, THEN conjunct1]
  let ?js = "clean_positions s (pi_spots p)"
  have go: "forward (pi_spots p ! j) (map (pass_flagged s) (emit_all s ?js results (pi_spots p)) ! j)"
    if j: "j < length (pi_spots p)" for results j
  proof -
    have d: "distinct ?js" and within: "\<forall>j \<in> set ?js. j < length (pi_spots p)" by (simp_all add: clean_positions_ok)
    let ?q = "emit_all s ?js results (pi_spots p) ! j"
    have "?q = pi_spots p ! j \<or> (\<exists>it it'. pi_spots p ! j = Inbound s it \<and> ?q = Inbound (Suc s) it')"
    proof (cases "\<exists>k < length ?js. k < length results \<and> ?js ! k = j")
      case True
      then have "j \<in> set ?js" by (metis nth_mem)
      then obtain it where "pi_spots p ! j = Inbound s it" by (auto simp: clean_positions_ok is_clean_def split: spot.splits)
      then show ?thesis using True emit_all_nth [OF d within j, of s results] by auto
    qed (use emit_all_nth [OF d within j, of s results] in auto)
    then have "forward (pi_spots p ! j) (pass_flagged s ?q)" by (rule forward_pass)
    then show ?thesis using j by simp
  qed
  show ?thesis
  proof (cases "pi_err p' = None")
    case False
    have "length (pi_status p') = n" using mv len
      by (auto simp: run_override_def Let_def engine_simps split: if_splits option.splits prod.splits)
    then show ?thesis using False by (rule calm_error)
  next
    case True
    then obtain results where "pi_status p' = pi_status p" "pi_err p' = pi_err p"
      "pi_spots p' = map (pass_flagged s) (emit_all s ?js results (pi_spots p))"
      using mv by (auto simp: run_override_def Let_def engine_simps simp del: map_map split: if_splits option.splits prod.splits)
    then show ?thesis using go by (intro calm_forward [OF c]) simp_all
  qed
qed

lemma pipe_step_calm:
  assumes "pipe_step C zero ro opts tot cfg m p = Some p'" and c: "calm n p" and n: "n = length cfg"
  shows "calm n p'"
proof -
  note len = c [unfolded calm_def, THEN conjunct1]
  show ?thesis
  proof (cases m)
    case StopFeeder
    with assms(1) len have "pi_err p' \<noteq> None" "length (pi_status p') = n"
      by (auto simp: pipe_step_def stop_feeder_def engine_simps split: prod.splits option.splits)
    then show ?thesis using calm_error by blast
  next
    case (StopStage s unsent)
    with assms(1) len have "pi_err p' \<noteq> None" "length (pi_status p') = n"
      by (auto simp: pipe_step_def stop_stage_def Let_def engine_simps split: if_splits prod.splits option.splits)
    then show ?thesis using calm_error by blast
  next
    case ReportTick
    with assms(1) have "pi_status p' = pi_status p" "pi_err p' = pi_err p" "pi_spots p' = pi_spots p"
      by (auto simp: pipe_step_def report_tick_def Let_def split: if_splits prod.splits option.splits)
    then show ?thesis by (intro calm_forward [OF c]) (simp_all add: forward_def)
  qed (use assms(1) n item_move_calm [OF _ c] end_stage_calm [OF _ c] start_stage_calm [OF _ c] run_override_calm [OF _ c]
       in \<open>simp_all add: pipe_step_def\<close>)
qed

lemma pipe_run_calm:
  "pipe_run C zero ro opts tot cfg ms p = Some p' \<Longrightarrow> calm (length cfg) p \<Longrightarrow> calm (length cfg) p'"
  by (induction ms arbitrary: p) (auto split: option.splits dest: pipe_step_calm)

lemma calm_start: "calm n (pipe_start n inputs S)"
  by (auto simp: calm_def pipe_start_def)

lemma paths_start: "paths zero ro cfg inputs (pi_spots (pipe_start n inputs S))"
  by (auto simp: paths_def pipe_start_def on_path_def intro: came_through.fed)

lemma ended_collected:
  assumes calm: "calm (length cfg) p" and paths: "paths zero ro cfg inputs (pi_spots p)"
    and "pipe_ended p" and "pi_err p = None" and j: "j < length inputs"
  shows "\<exists>it. pi_spots p ! j = Inbound (length cfg) it \<and> came_through zero ro cfg (inputs ! j) (length cfg) it"
proof -
  let ?q = "pi_spots p ! j"
  have len: "length (pi_spots p) = length inputs" using paths by (simp add: paths_def)
  have path: "on_path zero ro cfg (inputs ! j) ?q" using paths j len by (simp add: paths_def)
  have "past s ?q" if "s < length cfg" for s
  proof -
    have "closed_stage p s" "pi_status p ! s \<noteq> Failed"
      using assms(3,4) calm that by (auto simp: pipe_ended_def list_all_iff calm_def)
    then have "pi_status p ! s = Completed" by (simp add: closed_stage_def)
    then show ?thesis using calm assms(4) that j len by (auto simp: calm_def)
  qed
  moreover have "?q \<noteq> Lost" using calm assms(4) j len by (auto simp: calm_def)
  ultimately show ?thesis using path
    by (cases ?q) (fastforce simp: on_path_def past_def dest: le_neq_implies_less)+
qed

section \<open>The results of a run\<close>

lemma collect_fold:
  assumes "\<And>j. j < length qs \<Longrightarrow> \<exists>it. qs ! j = Inbound n it \<and> er_index it = int j" and "m \<le> length qs" and "length rs = length qs"
  shows "let out = fold (\<lambda>q rs. case q of Inbound s it \<Rightarrow> if s = n then rs[nat (er_index it) := it] else rs | _ \<Rightarrow> rs) (take m qs) rs
    in length out = length qs \<and> (\<forall>j < m. out ! j = spot_item (qs ! j))"
  using assms(2)
proof (induction m)
  case 0
  show ?case using assms(3) by simp
next
  case (Suc m)
  from assms(1) [of m] Suc.prems obtain it where it: "qs ! m = Inbound n it" "er_index it = int m" by auto
  show ?case using Suc it by (simp add: take_Suc_conv_app_nth Let_def nth_list_update less_Suc_eq spot_item_def)
qed

lemma collect_nth:
  assumes "\<And>j. j < length qs \<Longrightarrow> \<exists>it. qs ! j = Inbound n it \<and> er_index it = int j"
  shows "length (collect n (length qs) qs) = length qs" and "j < length qs \<Longrightarrow> collect n (length qs) qs ! j = spot_item (qs ! j)"
  using collect_fold [OF assms, of "length qs" "replicate (length qs) (erased 0)"] by (simp_all add: collect_def Let_def)

lemma indexed_nth: "length (indexed items) = length items"
  "j < length items \<Longrightarrow> er_index (indexed items ! j) = int j \<and> er_value (indexed items ! j) = Some (items ! j) \<and> \<not> flagged (indexed items ! j)"
  by (simp_all add: indexed_def nth_enumerate_eq erased_def flagged_def)

text \<open>The ends of a run, peeled down to its core.\<close>

lemma run_with_core:
  assumes "run_with core ro stages items S = Some ((results, report, None), S')"
  shows "\<exists>env S1 S2 report'. core (with_env env ro) items S1 = Some ((results, report', None), S2)"
proof -
  obtain opts S1 where chk: "run_checks ro stages S = (None, opts, S1)"
    using assms by (auto simp: run_with_def split: prod.splits option.splits)
  then have opts: "\<exists>env. opts = with_env env ro"
    by (auto simp: run_checks_def Let_def split: option.splits prod.splits)
  from assms chk obtain S3 where obs: "observed core opts items S1 = Some ((results, report, None), S3)"
    by (auto simp: run_with_def split: option.splits)
  have "\<exists>S4 S5 report'. core opts items S4 = Some ((results, report', None), S5)"
    using obs by (auto simp: observed_def Let_def errors_join_def map_filter_simps split: if_splits prod.splits option.splits list.splits)
  then show ?thesis using opts by blast
qed

text \<open>What a run of plain stages gives.\<close>

lemma run_came_through:
  assumes "Run C zero reps sched s items ro S = Some ((results, report, None), S')" and "st_override s = None"
  shows "length results = length items \<and>
    (\<exists>env cfg. build_stages (with_env env ro) (stagesOf s) = Inr cfg \<and>
       (\<forall>j < length items. \<exists>it. came_through zero ro cfg ((erased (int j))\<lparr>er_value := Some (items ! j)\<rparr>) (length cfg) it \<and>
          results ! j = result_of it))"
proof -
  from run_with_core [OF assms(1) [unfolded Run_def]] obtain env S1 S2 report'
    where "runCore C zero ro reps sched s (with_env env ro) items S1 = Some ((results, report', None), S2)" by blast
  then obtain outs where run: "runStages C zero ro sched (stagesOf s) (with_env env ro) (indexed items) S1
      = Some ((outs, report', None), S2)" and res: "results = map result_of outs"
    using assms(2) by (auto simp: runCore_def)
  then obtain cfg p where cfg: "build_stages (with_env env ro) (stagesOf s) = Inr cfg"
    and go: "pipe_run C zero ro (with_env env ro) (int (length (indexed items))) cfg sched
        (pipe_start (length cfg) (indexed items) S1) = Some p"
    and p: "pipe_ended p" "pi_err p = None" "outs = collect (length cfg) (length (indexed items)) (pi_spots p)"
    by (auto simp: runStages_def split: sum.splits option.splits if_splits)
  note ok = build_stages_ok [OF cfg, THEN conjunct1]
  have paths: "paths zero ro cfg (indexed items) (pi_spots p)" by (rule pipe_run_paths [OF go ok paths_start])
  have calm: "calm (length cfg) p" by (rule pipe_run_calm [OF go calm_start])
  have len: "length (pi_spots p) = length items" using paths by (simp add: paths_def indexed_nth)
  have at: "\<exists>it. pi_spots p ! j = Inbound (length cfg) it \<and> er_index it = int j \<and>
      came_through zero ro cfg (indexed items ! j) (length cfg) it" if "j < length items" for j
    using ended_collected [OF calm paths p(1,2), of j] that came_through_index indexed_nth by metis
  have here: "\<exists>it. pi_spots p ! j = Inbound (length cfg) it \<and> er_index it = int j" if "j < length (pi_spots p)" for j
    using at that len by auto
  have outs: "length outs = length items" "\<And>j. j < length items \<Longrightarrow> outs ! j = spot_item (pi_spots p ! j)"
    using collect_nth [OF here] p(3) by (simp_all add: len indexed_nth)
  have "indexed items ! j = (erased (int j))\<lparr>er_value := Some (items ! j)\<rparr>" if "j < length items" for j
    using that by (simp add: indexed_def nth_enumerate_eq)
  then have "\<exists>it. came_through zero ro cfg ((erased (int j))\<lparr>er_value := Some (items ! j)\<rparr>) (length cfg) it \<and> results ! j = result_of it"
    if "j < length items" for j
    using at [OF that] outs that res by (auto simp: spot_item_def)
  then show ?thesis using cfg outs(1) res by auto
qed


text \<open>Two uncached stages over strings: the first quarantines the empty string, the second adds a
  mark to what it is given.\<close>

definition mark_step :: "string \<Rightarrow> (string, string, nat) step" where
  "mark_step name = \<lparr>fs_Name = name, fs_Identity = \<lparr>id_Kind = [], id_Version = [], id_Key = None\<rparr>,
     fs_Policy = fs_Policy demo_step, fs_Barrier = False, fs_Do = fs_Do demo_step,
     fs_Meter = None, fs_AttemptMeter = None, fs_OnResult = None\<rparr>"

definition plain_step :: "(string, string, nat) step \<Rightarrow> (string, unit, unit, nat) full_step" where
  "plain_step st = \<lparr>st_step = st, st_accepts = (\<lambda>_. True), st_override = None, st_validateOverride = None,
     st_extraPlans = [], st_extraPolicies = [], st_stages = None\<rparr>"

definition mark_options :: "(string, unit, unit, nat) run_options" where
  "mark_options = \<lparr>ro_flow = \<lparr>fo_Store = None,
       fo_obs = \<lparr>oo_Reporter = None, oo_Ledger = None, oo_ReportInterval = 0, oo_Clock = None, oo_wall = (\<lambda>u. (0, u))\<rparr>,
       fo_env = newRunEnv [] None 0, fo_custom = (\<lambda>_ _ _ c. (None, c)), fo_int63n = (\<lambda>u n. 0)\<rparr>,
     ro_Rates = [], ro_Preflight = None, ro_fresh = 0\<rparr>"

definition mark_state :: "(unit, unit, nat) run_state" where
  "mark_state = \<lparr>rn_flow = \<lparr>fl_counts = zero_report, fl_meters = [], fl_store = (), fl_world = empty_world, fl_user = 0,
     fl_moments = [], fl_sleeps = []\<rparr>, rn_env = None, rn_obs = None\<rparr>"

definition mark_run :: "(string run_outcome \<times> (unit, unit, nat) run_state) option" where
  "mark_run = Run demo_codec [] []
     [StartStage 0, StartStage 1, ItemMove 1, ItemMove 0, ItemMove 1, ItemMove 1, ItemMove 0, ItemMove 0, EndStage 0,
      ItemMove 0, EndStage 1]
     (Pipe2 (plain_step (mark_step ''one'')) (plain_step (mark_step ''two''))) [''a'', []] mark_options mark_state"

lemma mark_run_returns: "\<exists>results report S'. mark_run = Some ((results, report, None), S') \<and>
    map re_Value results = [Some ''a!!'', None]"
proof -
  have "map_option (\<lambda>((rs, rep, e), S). (map re_Value rs, Option.is_none e)) mark_run = Some ([Some ''a!!'', None], True)"
    by code_simp
  then show ?thesis by (auto simp: Option.is_none_def)
qed


section \<open>Nothing happens before the checks\<close>

lemma no_check_fails: "first_error es = None \<longleftrightarrow> (\<forall>e \<in> set es. e = None)"
  by (induction es rule: first_error.induct) auto



section \<open>The journal of a run\<close>

text \<open>A ledger that notes the events it is given before it hands them on.\<close>

definition noting :: "'u obs_options \<Rightarrow> (Event list \<times> 'u) obs_options" where
  "noting opts =
     \<lparr>oo_Reporter = map_option (\<lambda>rep c snap (log, u). case rep c snap u of (e, u') \<Rightarrow> (e, log, u')) (oo_Reporter opts),
      oo_Ledger = map_option (\<lambda>led c ev (log, u). case led c ev u of (e, u') \<Rightarrow> (e, log @ [ev], u')) (oo_Ledger opts),
      oo_ReportInterval = oo_ReportInterval opts,
      oo_Clock = map_option (\<lambda>clock (log, u). case clock u of (t, u') \<Rightarrow> (t, log, u')) (oo_Clock opts),
      oo_wall = (\<lambda>(log, u). case oo_wall opts u of (t, u') \<Rightarrow> (t, log, u'))\<rparr>"

definition journal :: "('s, 'c, Event list \<times> 'u) run_state \<Rightarrow> Event list" where
  "journal S = fst (fl_user (rn_flow S))"

definition run_types :: "EventType set" where
  "run_types = {EventRunStarted, EventRunCompleted, EventRunFailed}"

text \<open>A core adds only events of steps and items.\<close>

definition adds_item_events :: "('v, 's, 'c, Event list \<times> 'u) core \<Rightarrow> bool" where
  "adds_item_events core \<longleftrightarrow> (\<forall>opts items S out S'. core opts items S = Some (out, S') \<longrightarrow>
     (\<exists>evs. journal S' = journal S @ evs \<and> (\<forall>ev \<in> set evs. ev_Type ev \<notin> run_types)))"

lemma now_noting: "\<exists>t u'. now (noting obs) (log, u) = (t, log, u')"
  by (auto simp: now_def noting_def split: option.splits prod.splits)

lemma emit_noting:
  assumes "oo_Ledger obs \<noteq> None" and "emitLedger (noting obs) c ev (log, u) = (e, s)"
  shows "\<exists>ev' u'. s = (log @ [ev'], u') \<and> ev_Type ev' = ev_Type ev"
proof -
  obtain led where led: "oo_Ledger obs = Some led" using assms(1) by blast
  obtain t u1 where "now (noting obs) (log, u) = (t, log, u1)" using now_noting [of obs log u] by auto
  then show ?thesis using assms(2) led
    by (auto simp: emitLedger_def noting_def Let_def split: option.splits prod.splits)
qed

lemma publish_noting:
  assumes "publish (noting obs) c rep tot term ob (log, u) = (e, ob', s)"
  shows "\<exists>u'. s = (log, u')"
proof (cases "oo_Reporter obs")
  case None
  then show ?thesis using assms by (auto simp: publish_def noting_def)
next
  case (Some reporter)
  obtain snap ob1 s1 where snap: "obs_snapshot (noting obs) rep tot term ob (log, u) = (snap, ob1, s1)" by (metis prod_cases3)
  have "\<exists>u1. s1 = (log, u1)"
  proof (cases ob)
    case None
    obtain t u1 where 1: "now (noting obs) (log, u) = (t, log, u1)" using now_noting [of obs log u] by auto
    obtain t' u2 where "now (noting obs) (log, u1) = (t', log, u2)" using now_noting [of obs log u1] by auto
    then show ?thesis using snap 1 None by (auto simp: obs_snapshot_def Let_def)
  next
    case (Some st)
    obtain t u1 where "now (noting obs) (log, u) = (t, log, u1)" using now_noting [of obs log u] by auto
    then show ?thesis using snap Some by (auto simp: obs_snapshot_def Let_def)
  qed
  then show ?thesis using assms snap Some
    by (auto simp: publish_def noting_def split: option.splits prod.splits)
qed

lemma run_event_noting:
  assumes "fo_obs opts = noting obs" and "oo_Ledger obs \<noteq> None" and "run_event opts c ty tot err S = (e, S')"
  shows "\<exists>ev. journal S' = journal S @ [ev] \<and> ev_Type ev = ty"
proof -
  obtain log u where u: "fl_user (rn_flow S) = (log, u)" by fastforce
  obtain s where em: "emitLedger (noting obs) c (zero_event\<lparr>ev_Index := - 1, ev_Type := ty, ev_Total := tot, ev_Error := err\<rparr>) (log, u) = (e, s)"
    and s: "fl_user (rn_flow S') = s"
    using assms(1,3) u by (auto simp: run_event_def split: prod.splits)
  from emit_noting [OF assms(2) em] show ?thesis using u s by (auto simp: journal_def)
qed

lemma run_publish_noting:
  assumes "fo_obs opts = noting obs" and "run_publish opts c rep tot term S = (e, S')"
  shows "journal S' = journal S"
proof -
  obtain log u where u: "fl_user (rn_flow S) = (log, u)" by fastforce
  obtain e' ob s where p: "(if term then publishTerminal (noting obs) rep tot (rn_obs S) (log, u)
      else publish (noting obs) c rep tot False (rn_obs S) (log, u)) = (e', ob, s)" by (metis prod_cases3)
  have s: "fl_user (rn_flow S') = s" using assms(2) unfolding run_publish_def assms(1) u p by auto
  have "\<exists>u'. s = (log, u')"
    using p by (auto simp: publishTerminal_def dest: publish_noting split: if_splits option.splits)
  then show ?thesis using u s by (auto simp: journal_def)
qed


definition quiet_core :: "(string, unit, unit, Event list \<times> nat) core" where
  "quiet_core opts items S = Some ((map (\<lambda>v. zero_result\<lparr>re_Value := Some v\<rparr>) items, [], None), S)"

definition noted_options :: "(string, unit, unit, Event list \<times> nat) flow_options" where
  "noted_options = \<lparr>fo_Store = None,
     fo_obs = noting \<lparr>oo_Reporter = None, oo_Ledger = Some (\<lambda>c ev u. (None, u)), oo_ReportInterval = 0, oo_Clock = None,
       oo_wall = (\<lambda>u. (0, u))\<rparr>,
     fo_env = newRunEnv [] None 0, fo_custom = (\<lambda>_ _ _ c. (None, c)), fo_int63n = (\<lambda>u n. 0)\<rparr>"

definition noted_state :: "(unit, unit, Event list \<times> nat) run_state" where
  "noted_state = \<lparr>rn_flow = \<lparr>fl_counts = zero_report, fl_meters = [], fl_store = (), fl_world = empty_world, fl_user = ([], 0),
     fl_moments = [], fl_sleeps = []\<rparr>, rn_env = None, rn_obs = None\<rparr>"


end
