(* ===== verification/Bulk.thy ===== *)
theory Bulk
  imports Pipeline Cached_Batch_Map
begin

text \<open>
  The bulk engine, \<open>Bulk\<close> and \<open>runBulk\<close> of \<open>src/flow/bulk.go\<close>: a step whose provider call takes
  many items, while every result is cached under its own key.

  The fields a \<open>typedRunner\<close> and \<open>runBulk\<close> both derive from a step (classifier, attempts, backoff,
  resources) are the record \<open>typed_runner\<close>, and what both do with the same text (the pause before a
  retry, ledger events, the result hook) are its operations of \<open>Step_Runner\<close>. The batches run in
  \<open>Map\<close>; the closure of a batch is one move of its schedule. The closures share \<open>bulk_state\<close>: the
  state of the run, the results, and \<open>bk_stuck\<close>, which notes an admission that does not end within
  its moment, so that the call has not returned. \<open>bk_calls\<close> is a history variable: the batches given
  to the provider. A cancelled group context stays the context of the run from then on: the call then
  fails, or the run itself was cancelled. \<open>None\<close> also stands for the panic of \<open>make\<close> for a negative
  capacity (\<open>batches_cap\<close>). The progress log and the log line of a failed call are left out.
\<close>

section \<open>Groups of equal keys\<close>

record 't bulk_group = "'t keyGroup" +
  bg_digest :: string

definition zero_key :: Key where
  "zero_key = \<lparr>k_Step = [], k_Version = [], k_InputDigest = []\<rparr>"

definition bulk_runner :: "('i, 'o, 'u) step \<Rightarrow> ('o, 's, 'c, 'u) flow_options \<Rightarrow> ('i, 'o, 's, 'c, 'u) typed_runner" where
  "bulk_runner s opts =
     (let retry = Retry (fs_Policy s); workers = po_Workers (fs_Policy s) in
      \<lparr>tr_step = s, tr_options = opts,
       tr_classifier = (case Class retry of None \<Rightarrow> (\<lambda>e. DefaultClassifier (Some e)) | Some f \<Rightarrow> f),
       tr_backoff = withDefaults (Backoff retry),
       tr_attempts = (if Attempts retry < 1 then 1 else Attempts retry),
       tr_workers = max workers 1,
       tr_resources = map rs_Name (Admission (fs_Policy s))\<rparr>)"

text \<open>The loop that groups the items of a cached step by their digests.\<close>

fun bulk_group_loop :: "'k codec \<Rightarrow> ('i, 'o, 's, 'c, 'u) typed_runner \<Rightarrow> nat \<Rightarrow> 'i list \<Rightarrow>
    'i bulk_group list \<times> (string \<times> nat) list \<Rightarrow> 'i bulk_group list result" where
  "bulk_group_loop C r i [] (gs, bd) = Inr gs"
| "bulk_group_loop C r i (x # xs) (gs, bd) =
     (case step_Key C (fs_Name (tr_step r)) (fs_Identity (tr_step r)) x of
        Inl e \<Rightarrow> Inl e
      | Inr k \<Rightarrow>
          (case Digest C k of
             Inl e \<Rightarrow> Inl (step_error r '': %w'' (int i) [] (Some e))
           | Inr d \<Rightarrow>
               (case map_of bd d of
                  Some j \<Rightarrow> bulk_group_loop C r (Suc i) xs
                    (gs[j := (gs ! j)\<lparr>kg_indexes := kg_indexes (gs ! j) @ [i]\<rparr>], bd)
                | None \<Rightarrow> bulk_group_loop C r (Suc i) xs
                    (gs @ [\<lparr>kg_key = k, kg_item = x, kg_indexes = [i], bg_digest = d\<rparr>],
                     AList.update d (length gs) bd))))"

definition bulk_groups :: "'k codec \<Rightarrow> ('i, 'o, 's, 'c, 'u) typed_runner \<Rightarrow> bool \<Rightarrow> 'i list \<Rightarrow>
    'i bulk_group list result" where
  "bulk_groups C r cached items =
     (if cached then bulk_group_loop C r 0 items ([], [])
      else Inr (map (\<lambda>(i, x). \<lparr>kg_key = zero_key, kg_item = x, kg_indexes = [i], bg_digest = []\<rparr>) (enumerate 0 items)))"

section \<open>Loading the hits\<close>

record ('v, 's, 'c, 'u) bulk_state =
  bk_flow :: "('s, 'c, 'u) flow_state"
  bk_results :: "'v fresult list"
  bk_stuck :: bool
  bk_calls :: "'v bulk_group list list"

definition set_result :: "nat \<Rightarrow> 'v fresult \<Rightarrow> ('v, 's, 'c, 'u) bulk_state \<Rightarrow> ('v, 's, 'c, 'u) bulk_state" where
  "set_result i res B = B\<lparr>bk_results := (bk_results B)[i := res]\<rparr>"

definition fresh_result :: "'v \<Rightarrow> CacheOutcome \<Rightarrow> 'v fresult" where
  "fresh_result v oc = zero_result\<lparr>re_Value := Some v, re_Cache := oc\<rparr>"

fun bulk_hits :: "('v, 'v, 's, 'c, 'u) typed_runner \<Rightarrow> 'v \<Rightarrow> CacheOutcome \<Rightarrow> nat list \<Rightarrow> ('v, 's, 'c, 'u) bulk_state \<Rightarrow>
    err option \<times> ('v, 's, 'c, 'u) bulk_state" where
  "bulk_hits r v oc [] B = (None, B)"
| "bulk_hits r v oc (i # is) B =
     (case event_then_notify r (zero_event\<lparr>ev_Index := int i, ev_Type := EventHit\<rparr>) (int i) v oc
             (update_counts (\<lambda>c. c\<lparr>Hits := Hits c + 1\<rparr>) (bk_flow B)) of
        (Some e, S) \<Rightarrow> (Some e, set_result i (fresh_result v oc) (B\<lparr>bk_flow := S\<rparr>))
      | (None, S) \<Rightarrow> bulk_hits r v oc is (set_result i (fresh_result v oc) (B\<lparr>bk_flow := S\<rparr>)))"

fun bulk_load :: "('v, 'v, 's, 'c, 'u) typed_runner \<Rightarrow> ('v, 's) store_ops \<Rightarrow> 'v bulk_group list \<Rightarrow> 'v bulk_group list \<Rightarrow>
    ('v, 's, 'c, 'u) bulk_state \<Rightarrow> (err option \<times> 'v bulk_group list) \<times> ('v, 's, 'c, 'u) bulk_state" where
  "bulk_load r ops [] misses B = ((None, misses), B)"
| "bulk_load r ops (g # gs) misses B =
     (case observe (bk_flow B) of (c, S) \<Rightarrow>
        (case so_Load ops c (kg_key g) (fl_store S) of
           Inl e \<Rightarrow> ((Some (step_error r '': load cache entry: %w'' (int (kg_indexes g ! 0)) [] (Some e)), misses),
             B\<lparr>bk_flow := S\<rparr>)
         | Inr None \<Rightarrow>
             bulk_load r ops gs (misses @ [g])
               (B\<lparr>bk_flow := update_counts (\<lambda>c. c\<lparr>Misses := Misses c + int (length (kg_indexes g))\<rparr>) S\<rparr>)
         | Inr (Some v) \<Rightarrow>
             (case bulk_hits r v \<lparr>co_KeyDigest = bg_digest g, co_State = CacheHit\<rparr> (kg_indexes g) (B\<lparr>bk_flow := S\<rparr>) of
                (Some e, B1) \<Rightarrow> ((Some e, misses), B1)
              | (None, B1) \<Rightarrow> bulk_load r ops gs misses B1)))"

text \<open>The loop that cuts the misses into batches.\<close>

function bulk_batches :: "nat \<Rightarrow> 'a list \<Rightarrow> 'a list list" where
  "bulk_batches sz xs = (if sz = 0 \<or> xs = [] then [] else take sz xs # bulk_batches sz (drop sz xs))"
  by pat_completeness auto
termination
  by (relation "measure (\<lambda>(sz, xs). length xs)") auto

declare bulk_batches.simps [simp del]

section \<open>One batch\<close>

type_synonym ('v, 'u) bulk_fun = "ctx \<Rightarrow> 'v list \<Rightarrow> 'u \<Rightarrow> 'v list \<times> err option \<times> 'u"

text \<open>The errors of a batch name the step only.\<close>

definition bulk_error :: "('i, 'o, 's, 'c, 'u) typed_runner \<Rightarrow> string \<Rightarrow> farg list \<Rightarrow> err option \<Rightarrow> err" where
  "bulk_error r text args e = Errorf (''step %q'' @ text) (FStr (fs_Name (tr_step r)) # args) e"

definition bulk_admit :: "('i, 'o, 's, 'c, 'u) typed_runner \<Rightarrow> int \<Rightarrow> int \<Rightarrow> ('s, 'c, 'u) flow_state \<Rightarrow>
    (err option \<times> ('s, 'c, 'u) flow_state) option" where
  "bulk_admit r units attempt S =
     (let (m, S1) = advance S; env = fo_env (tr_options r) in
      case admit (fo_custom (tr_options r)) env (tr_resources r) units (fl_world S1) (m_waits m) of
        None \<Rightarrow> None
      | Some ((name, e), w, _) \<Rightarrow>
          (case e of
             None \<Rightarrow> Some (None, S1\<lparr>fl_world := w\<rparr>)
           | Some e \<Rightarrow>
               if errors_is ErrBudgetExceeded e
               then let plan = env_plan env name in
                 Some (Some (bulk_error r
                   '' attempt %d: resource %q admission refused a %d-item batch: %w; stated ceiling %d, admitted budget %d - cache hits are free''
                   [FInt attempt, FStr name, FInt units, FInt (rp_Ceiling plan), FInt (rp_Budget plan)] (Some e)),
                   S1\<lparr>fl_world := w\<rparr>)
               else Some (Some (bulk_error r '' attempt %d: wait for resource %q: %w'' [FInt attempt, FStr name] (Some e)),
                   S1\<lparr>fl_world := w\<rparr>)))"

fun bulk_meter :: "('i, 'o, 's, 'c, 'u) typed_runner \<Rightarrow> meters list \<Rightarrow> ('s, 'c, 'u) flow_state \<Rightarrow>
    err option \<times> ('s, 'c, 'u) flow_state" where
  "bulk_meter r [] S = (None, S)"
| "bulk_meter r (metered # ms) S =
     (case AddChecked (fl_meters S) metered of
        (Some e, ms') \<Rightarrow> (Some (bulk_error r '': %w'' [] (Some e)), S\<lparr>fl_meters := ms'\<rparr>)
      | (None, ms') \<Rightarrow> bulk_meter r ms (S\<lparr>fl_meters := ms'\<rparr>))"

text \<open>One provider call with its counters and attempt meters.\<close>

definition call_bulk :: "('v, 'v, 's, 'c, 'u) typed_runner \<Rightarrow> ('v, 'u) bulk_fun \<Rightarrow> 'v list \<Rightarrow> int \<Rightarrow> ('s, 'c, 'u) flow_state \<Rightarrow>
    ('v list \<times> err option) result \<times> ('s, 'c, 'u) flow_state" where
  "call_bulk r f items attempt S =
     (let S1 = (if attempt = 1 then update_counts (\<lambda>c. c\<lparr>StartedSequences := StartedSequences c + 1\<rparr>) S else S);
          (c, S2) = observe S1 in
      case f c items (fl_user S2) of
        (vs, e, u) \<Rightarrow>
          let S3 = update_counts (\<lambda>c. c\<lparr>WorkCalls := WorkCalls c + 1\<rparr>) (S2\<lparr>fl_user := u\<rparr>) in
          (case fs_AttemptMeter (tr_step r) of
             None \<Rightarrow> (Inr (vs, e), S3)
           | Some am \<Rightarrow>
               (case bulk_meter r (map (\<lambda>v. am v e) vs) S3 of
                  (Some me, S4) \<Rightarrow> (Inl me, S4)
                | (None, S4) \<Rightarrow> (Inr (vs, e), S4))))"

fun bulk_events :: "('i, 'o, 's, 'c, 'u) typed_runner \<Rightarrow> Event list \<Rightarrow> ('s, 'c, 'u) flow_state \<Rightarrow>
    err option \<times> ('s, 'c, 'u) flow_state" where
  "bulk_events r [] S = (None, S)"
| "bulk_events r (ev # evs) S =
     (case event r ev S of (Some e, S1) \<Rightarrow> (Some e, S1) | (None, S1) \<Rightarrow> bulk_events r evs S1)"

definition bulk_indexes :: "'v bulk_group list \<Rightarrow> nat list" where
  "bulk_indexes gs = concat (map kg_indexes gs)"

definition bulk_judge :: "('v, 'v, 's, 'c, 'u) typed_runner \<Rightarrow> 'v bulk_group list \<Rightarrow> nat \<Rightarrow> int \<Rightarrow> err \<Rightarrow> ('s, 'c, 'u) flow_state \<Rightarrow>
    verdict \<times> ('s, 'c, 'u) flow_state" where
  "bulk_judge r gs left attempt e S =
     (case observe S of (c, S1) \<Rightarrow>
        if c \<noteq> None then (Stop (bulk_error r '': %w'' [] (Some e)), S1)
        else let class = tr_classifier r e in
          if \<not> valid_class class
          then (Stop (bulk_error r '': classifier returned unknown error class %d'' [FInt class] None), S1)
          else if class = Transient \<and> 0 < left
          then (case bulk_events r (map (\<lambda>i. zero_event\<lparr>ev_Index := int i, ev_Type := EventRetry,
                        ev_Class := class_String class, ev_Attempt := attempt, ev_Error := Some e\<rparr>) (bulk_indexes gs))
                      (update_counts (\<lambda>c. c\<lparr>Retries := Retries c + 1,
                         RetriesByClass := AList.update (class_String class)
                           (lookup0 0 (RetriesByClass c) (class_String class) + 1) (RetriesByClass c)\<rparr>) S1) of
                  (Some d, S2) \<Rightarrow> (Stop d, S2)
                | (None, S2) \<Rightarrow> (Again, S2))
          else (GiveUp class, S1))"

text \<open>The retry loop: an error of the closure, the values of a call, or the last failure with its class
  and the number of attempts. \<open>None\<close> is an admission that does not end. The calls are noted.\<close>

datatype 'v bulk_end = Values "'v list" | Exhausted err ErrorClass int

fun bulk_attempts :: "('v, 'v, 's, 'c, 'u) typed_runner \<Rightarrow> ('v, 'u) bulk_fun \<Rightarrow> 'v bulk_group list \<Rightarrow> nat \<Rightarrow> int \<Rightarrow> duration \<Rightarrow>
    ('v, 's, 'c, 'u) bulk_state \<Rightarrow> ('v bulk_end result \<times> ('v, 's, 'c, 'u) bulk_state) option" where
  "bulk_attempts r f gs left attempt delay B =
     (case retry_pause r attempt delay (bk_flow B) of
        (Inl e, S1) \<Rightarrow> Some (Inl e, B\<lparr>bk_flow := S1\<rparr>)
      | (Inr delay', S1) \<Rightarrow>
     (case bulk_admit r (int (length gs)) attempt S1 of
        None \<Rightarrow> None
      | Some (Some e, S2) \<Rightarrow> Some (Inl e, B\<lparr>bk_flow := S2\<rparr>)
      | Some (None, S2) \<Rightarrow>
     (case call_bulk r f (map kg_item gs) attempt S2 of
        (Inl e, S3) \<Rightarrow> Some (Inl e, B\<lparr>bk_flow := S3, bk_calls := bk_calls B @ [gs]\<rparr>)
      | (Inr (vs, None), S3) \<Rightarrow>
          Some (if length vs \<noteq> length gs
                then Inl (bulk_error r '': bulk call returned %d results for %d items''
                       [FInt (int (length vs)), FInt (int (length gs))] None)
                else Inr (Values vs), B\<lparr>bk_flow := S3, bk_calls := bk_calls B @ [gs]\<rparr>)
      | (Inr (vs, Some e), S3) \<Rightarrow>
     (case bulk_judge r gs left attempt e S3 of
        (Stop d, S4) \<Rightarrow> Some (Inl d, B\<lparr>bk_flow := S4, bk_calls := bk_calls B @ [gs]\<rparr>)
      | (GiveUp class, S4) \<Rightarrow> Some (Inr (Exhausted e class attempt), B\<lparr>bk_flow := S4, bk_calls := bk_calls B @ [gs]\<rparr>)
      | (Again, S4) \<Rightarrow>
          (case left of
             0 \<Rightarrow> None
           | Suc n \<Rightarrow> bulk_attempts r f gs n (attempt + 1) delay' (B\<lparr>bk_flow := S4, bk_calls := bk_calls B @ [gs]\<rparr>))))))"

text \<open>A failed batch: every item of it is skipped or quarantined.\<close>

definition failed_result :: "('v, 'v, 's, 'c, 'u) typed_runner \<Rightarrow> nat \<Rightarrow> err \<Rightarrow> ErrorClass \<Rightarrow> int \<Rightarrow> 'v fresult" where
  "failed_result r i cause class attempts =
     (if OnError (fs_Policy (tr_step r)) = Skip_item then zero_result\<lparr>re_Skipped := True\<rparr>
      else zero_result\<lparr>re_Quarantined := Some \<lparr>ie_Step = fs_Name (tr_step r), ie_Index = int i, ie_Class = class,
             ie_Attempts = attempts, ie_Message = cause\<rparr>\<rparr>)"

fun bulk_failed :: "('v, 'v, 's, 'c, 'u) typed_runner \<Rightarrow> err \<Rightarrow> ErrorClass \<Rightarrow> int \<Rightarrow> nat list \<Rightarrow> ('v, 's, 'c, 'u) bulk_state \<Rightarrow>
    err option \<times> ('v, 's, 'c, 'u) bulk_state" where
  "bulk_failed r cause class attempts [] B = (None, B)"
| "bulk_failed r cause class attempts (i # is) B =
     (let skips = OnError (fs_Policy (tr_step r)) = Skip_item;
          S1 = update_counts (\<lambda>c. if skips then c\<lparr>Skipped := Skipped c + 1\<rparr> else c\<lparr>Quarantined := Quarantined c + 1\<rparr>) (bk_flow B);
          B1 = set_result i (failed_result r i cause class attempts) B in
      case event r (zero_event\<lparr>ev_Index := int i, ev_Type := (if skips then EventSkipped else EventQuarantined),
             ev_Class := class_String class, ev_Error := Some cause\<rparr>) S1 of
        (Some e, S2) \<Rightarrow> (Some e, B1\<lparr>bk_flow := S2\<rparr>)
      | (None, S2) \<Rightarrow> bulk_failed r cause class attempts is (B1\<lparr>bk_flow := S2\<rparr>))"

text \<open>A batch that returned: each value is stored, becomes the result of every index of its group, and
  is announced. The store runs under \<open>context.WithoutCancel\<close>.\<close>

fun bulk_announce :: "('v, 'v, 's, 'c, 'u) typed_runner \<Rightarrow> EventType \<Rightarrow> 'v \<Rightarrow> CacheOutcome \<Rightarrow> nat list \<Rightarrow>
    ('s, 'c, 'u) flow_state \<Rightarrow> err option \<times> ('s, 'c, 'u) flow_state" where
  "bulk_announce r ty v oc [] S = (None, S)"
| "bulk_announce r ty v oc (i # is) S =
     (case event_then_notify r (zero_event\<lparr>ev_Index := int i, ev_Type := ty\<rparr>) (int i) v oc S of
        (Some e, S1) \<Rightarrow> (Some e, S1)
      | (None, S1) \<Rightarrow> bulk_announce r ty v oc is S1)"

fun bulk_done :: "('v, 'v, 's, 'c, 'u) typed_runner \<Rightarrow> ('v, 's) store_ops option \<Rightarrow> ('v bulk_group \<times> 'v) list \<Rightarrow>
    ('v, 's, 'c, 'u) bulk_state \<Rightarrow> err option \<times> ('v, 's, 'c, 'u) bulk_state" where
  "bulk_done r store [] B = (None, B)"
| "bulk_done r store ((g, v) # ps) B =
     (case (case store of
              None \<Rightarrow> (None, zero_outcome, EventDone, bk_flow B)
            | Some ops \<Rightarrow>
                (case so_Store ops None (kg_key g) v (fl_store (bk_flow B)) of
                   (Some e, s') \<Rightarrow> (Some (step_error r '': store cache entry: %w'' (int (kg_indexes g ! 0)) [] (Some e)),
                     zero_outcome, EventDone, (bk_flow B)\<lparr>fl_store := s'\<rparr>)
                 | (None, s') \<Rightarrow> (None, \<lparr>co_KeyDigest = bg_digest g, co_State = CacheStored\<rparr>, EventStored,
                     update_counts (\<lambda>c. c\<lparr>Stored := Stored c + 1\<rparr>) ((bk_flow B)\<lparr>fl_store := s'\<rparr>)))) of
        (Some e, oc, ty, S1) \<Rightarrow> (Some e, B\<lparr>bk_flow := S1\<rparr>)
      | (None, oc, ty, S1) \<Rightarrow>
          let B1 = fold (\<lambda>i. set_result i (fresh_result v oc)) (kg_indexes g) (B\<lparr>bk_flow := S1\<rparr>) in
          (case bulk_announce r ty v oc (kg_indexes g) (bk_flow B1) of
             (Some e, S2) \<Rightarrow> (Some e, B1\<lparr>bk_flow := S2\<rparr>)
           | (None, S2) \<Rightarrow> bulk_done r store ps (B1\<lparr>bk_flow := S2\<rparr>)))"

definition bulk_finish :: "('v, 'v, 's, 'c, 'u) typed_runner \<Rightarrow> ('v, 's) store_ops option \<Rightarrow> 'v bulk_group list \<Rightarrow> 'v bulk_end \<Rightarrow>
    ('v, 's, 'c, 'u) bulk_state \<Rightarrow> err option \<times> ('v, 's, 'c, 'u) bulk_state" where
  "bulk_finish r store gs end_of B =
     (case end_of of
        Exhausted e class attempts \<Rightarrow>
          if class = Fatal \<or> OnError (fs_Policy (tr_step r)) = FailFast
          then (Some (bulk_error r '' batch [%s]: %w'' [FStr (class_String class)] (Some e)), B)
          else bulk_failed r e class attempts (bulk_indexes gs) B
      | Values vs \<Rightarrow>
          (case (case fs_Meter (tr_step r) of None \<Rightarrow> (None, bk_flow B) | Some m \<Rightarrow> bulk_meter r (map m vs) (bk_flow B)) of
             (Some e, S1) \<Rightarrow> (Some e, B\<lparr>bk_flow := S1\<rparr>)
           | (None, S1) \<Rightarrow> bulk_done r store (zip gs vs) (B\<lparr>bk_flow := S1\<rparr>)))"

definition under :: "ctx \<Rightarrow> ('s, 'c, 'u) flow_state \<Rightarrow> ('s, 'c, 'u) flow_state" where
  "under c S = (case c of None \<Rightarrow> S | Some e \<Rightarrow> S\<lparr>fl_world := env_event (CancelCtx e) (fl_world S)\<rparr>)"

text \<open>The result hook gets the context of the run, not that of the group. While the group is not
  cancelled, the run is not. After that \<open>seen i\<close> is what the hook of item \<open>i\<close> finds: an argument, as the
  schedule is.\<close>

definition outer_hook :: "(nat \<Rightarrow> ctx) \<Rightarrow> ('i, 'o, 's, 'c, 'u) typed_runner \<Rightarrow> ('i, 'o, 's, 'c, 'u) typed_runner" where
  "outer_hook seen r = r\<lparr>tr_step := (tr_step r)\<lparr>fs_OnResult :=
     map_option (\<lambda>hook c i. hook (if c = None then None else seen (nat i)) i) (fs_OnResult (tr_step r))\<rparr>\<rparr>"

definition bulk_work :: "('v, 'v, 's, 'c, 'u) typed_runner \<Rightarrow> ('v, 's) store_ops option \<Rightarrow> ('v, 'u) bulk_fun \<Rightarrow>
    ('v bulk_group list, unit, ('v, 's, 'c, 'u) bulk_state) work" where
  "bulk_work r store f c gs B =
     (case bulk_attempts r f gs (nat (tr_attempts r) - 1) 1 (Base (tr_backoff r)) (B\<lparr>bk_flow := under c (bk_flow B)\<rparr>) of
        None \<Rightarrow> (Inr (), B\<lparr>bk_stuck := True\<rparr>)
      | Some (Inl e, B1) \<Rightarrow> (Inl e, B1)
      | Some (Inr end_of, B1) \<Rightarrow>
          (case bulk_finish r store gs end_of B1 of (Some e, B2) \<Rightarrow> (Inl e, B2) | (None, B2) \<Rightarrow> (Inr (), B2)))"

section \<open>runBulk\<close>

text \<open>The errors \<open>validateOverride\<close> and the engine itself check for.\<close>

definition bulk_invalid :: "('v, 'v, 'u) step \<Rightarrow> ('v, 'u) bulk_fun option \<Rightarrow> int \<Rightarrow> err option" where
  "bulk_invalid s fo sz =
     (if fo = None then Some (Errorf ''bulk step %q needs a bulk function'' [FStr (fs_Name s)] None)
      else if sz < 1 then Some (Errorf ''bulk step %q batch size must be positive'' [FStr (fs_Name s)] None)
      else if fs_Name s = [] then Some (Errorf ''every step needs a name'' [] None)
      else if fs_Meter s \<noteq> None \<and> fs_AttemptMeter s \<noteq> None
      then Some (Errorf ''step %q cannot set both Meter and AttemptMeter'' [FStr (fs_Name s)] None)
      else None)"

definition bulk_map_options :: "('v, 'v, 's, 'c, 'u) typed_runner \<Rightarrow> ('v bulk_group list, ('v, 's, 'c, 'u) bulk_state) map_options" where
  "bulk_map_options r = \<lparr>mo_workers = tr_workers r, mo_limiter = None, mo_cost = None\<rparr>"

text \<open>The engine on its own counters and meters; \<open>fail\<close> and the regular return both carry the report.\<close>

definition bulk_engine :: "'k codec \<Rightarrow> errgroup \<Rightarrow> map_event list \<Rightarrow> (nat \<Rightarrow> ctx) \<Rightarrow> ('v, 'u) bulk_fun option \<Rightarrow> int \<Rightarrow>
    ('v, 'v, 's, 'c, 'u) typed_runner \<Rightarrow> 'v list \<Rightarrow> ('v, 's, 'c, 'u) bulk_state \<Rightarrow>
    (err option \<times> ('v, 's, 'c, 'u) bulk_state) option" where
  "bulk_engine C eg evs seen fo sz r items B =
     (case bulk_invalid (tr_step r) fo sz of
        Some e \<Rightarrow> Some (Some e, B)
      | None \<Rightarrow>
          let store = (if is_cached r then fo_Store (tr_options r) else None);
              B0 = B\<lparr>bk_flow := update_counts (\<lambda>c. c\<lparr>Items := int (length items)\<rparr>) (bk_flow B),
                     bk_results := replicate (length items) zero_result\<rparr> in
     (case bulk_groups C r (store \<noteq> None) items of
        Inl e \<Rightarrow> Some (Some e, B0)
      | Inr gs \<Rightarrow>
     (case (case store of None \<Rightarrow> ((None, gs), B0) | Some ops \<Rightarrow> bulk_load r ops gs [] B0) of
        ((Some e, misses), B1) \<Rightarrow> Some (Some e, B1)
      | ((None, misses), B1) \<Rightarrow>
          if misses = [] then Some (None, B1)
          else if batches_cap sz (length misses) < 0 then None
          else (case bounded_Map eg (bulk_map_options r) (Some (bulk_work (outer_hook seen r) store (the fo)))
                        (lctx (fl_world (bk_flow B1))) (bulk_batches (nat sz) misses) evs B1 of
                  None \<Rightarrow> None
                | Some (res, B2) \<Rightarrow>
                    if bk_stuck B2 then None
                    else Some (case res of Inl e \<Rightarrow> Some e | Inr _ \<Rightarrow> None, B2)))))"

definition bulk_start :: "('s, 'c, 'u) flow_state \<Rightarrow> ('v, 's, 'c, 'u) bulk_state" where
  "bulk_start F = \<lparr>bk_flow = F\<lparr>fl_counts := zero_report, fl_meters := []\<rparr>, bk_results = [], bk_stuck = False, bk_calls = []\<rparr>"

definition runBulk :: "'k codec \<Rightarrow> errgroup \<Rightarrow> map_event list \<Rightarrow> (nat \<Rightarrow> ctx) \<Rightarrow> ('v, 'u) bulk_fun option \<Rightarrow> int \<Rightarrow>
    ('v, 's, 'c, 'u) override" where
  "runBulk C eg evs seen fo sz s opts items S =
     (let F = rn_flow S; r = bulk_runner s opts in
      case bulk_engine C eg evs seen fo sz r items (bulk_start F) of
        None \<Rightarrow> None
      | Some (e, B) \<Rightarrow>
          Some ((if e = None then bk_results B else [], runner_report r (bk_flow B), e),
            S\<lparr>rn_flow := (bk_flow B)\<lparr>fl_counts := fl_counts F, fl_meters := fl_meters F\<rparr>\<rparr>))"

definition Bulk :: "'k codec \<Rightarrow> errgroup \<Rightarrow> map_event list \<Rightarrow> (nat \<Rightarrow> ctx) \<Rightarrow> ('v, 's, 'c, 'u) full_step \<Rightarrow> ('v, 'u) bulk_fun option \<Rightarrow> int \<Rightarrow>
    ('v, 's, 'c, 'u) full_step" where
  "Bulk C eg evs seen s fo sz =
     s\<lparr>st_step := (st_step s)\<lparr>fs_Do := None\<rparr>, st_override := Some (runBulk C eg evs seen fo sz),
       st_validateOverride := Some (\<lambda>current. bulk_invalid current fo sz)\<rparr>"

end
