(* ===== verification/Bulk_Facts.thy ===== *)
theory Bulk_Facts
  imports Bulk Step_Accounting
begin

text \<open>
  What a bulk run costs and where its results come from.

  \<open>charged r u S S'\<close> says that every budget was charged \<open>u\<close> units, for each place it stands in the
  limiters of the step's resources. The lemmas follow one batch through \<open>bulk_attempts\<close> and
  \<open>bulk_finish\<close>; the locale \<open>map_client\<close> of \<open>Bounded_Map\<close> then gives the run, for every schedule of
  the workers.
\<close>

section \<open>Two runs\<close>

text \<open>A provider that is busy on its first call and then appends a mark to every item.\<close>

definition batch_demo :: "(string, nat) bulk_fun" where
  "batch_demo = (\<lambda>c xs n. if n = 0 then ([], Some (StatusErr 503 None), 1) else (map (\<lambda>x. x @ ''!'') xs, None, n + 1))"

definition bulk_seen :: "(err option \<times> (string, (Key \<times> string) list, unit, nat) bulk_state) option \<Rightarrow>
    (bool \<times> string option list \<times> nat list \<times> int) option" where
  "bulk_seen = map_option (\<lambda>(e, B). (Option.is_none e, map re_Value (bk_results B), map length (bk_calls B),
     WorkCalls (fl_counts (bk_flow B))))"

lemma bulk_seen_run:
  assumes "bulk_seen x = Some (True, vs, ns, n)"
  obtains B where "x = Some (None, B)" and "map re_Value (bk_results B) = vs" and "map length (bk_calls B) = ns"
    and "WorkCalls (fl_counts (bk_flow B)) = n"
  using assms by (auto simp: bulk_seen_def Option.is_none_def)

section \<open>Charging units\<close>

definition charged :: "('i, 'o, 's, 'c, 'u) typed_runner \<Rightarrow> nat \<Rightarrow> ('s, 'c, 'u) flow_state \<Rightarrow> ('s, 'c, 'u) flow_state \<Rightarrow> bool" where
  "charged r u S S' \<longleftrightarrow> budgets (fl_world S') = charge_budgets (int u) (occ r) (budgets (fl_world S)) \<and>
     (budgets_ok (budgets (fl_world S)) \<longrightarrow> budgets_ok (budgets (fl_world S')))"

lemma charged_refl: "charged r 0 S S"
  by (simp add: charged_def)

lemma charged_trans: "charged r u S S1 \<Longrightarrow> charged r v S1 S2 \<Longrightarrow> charged r (u + v) S S2"
  by (auto simp: charged_def charge_budgets_twice)

lemma effect_charged: "effect r t S S' \<Longrightarrow> t_work t = 0 \<Longrightarrow> charged r 0 S S'"
  by (simp add: effect_def charged_def)

lemma effect_counted: "effect r t S S' \<Longrightarrow> tally_of (fl_counts S') = tally_of (fl_counts S) + t"
  by (simp add: effect_def)

text \<open>The counters of \<open>S\<close> and a tally without work, the budgets unchanged.\<close>

definition unspent :: "('i, 'o, 's, 'c, 'u) typed_runner \<Rightarrow> ('s, 'c, 'u) flow_state \<Rightarrow> ('s, 'c, 'u) flow_state \<Rightarrow> bool" where
  "unspent r S S' \<longleftrightarrow> (\<exists>t. effect r t S S' \<and> t_work t = 0 \<and> t_started t = 0)"

lemma unspent_effect: "effect r 0 S S' \<Longrightarrow> unspent r S S'"
  by (auto simp: unspent_def engine_simps)

lemma unspent_refl [simp]: "unspent r S S"
  by (simp add: unspent_effect effect_refl)

lemma unspent_trans: "unspent r S S1 \<Longrightarrow> unspent r S1 S2 \<Longrightarrow> unspent r S S2"
  unfolding unspent_def by (metis effect_trans tally_selectors(5,6) add_0)

lemma unspent_counts:
  "tally_of (f (fl_counts S)) = tally_of (fl_counts S) + t \<Longrightarrow> t_work t = 0 \<Longrightarrow> t_started t = 0 \<Longrightarrow> unspent r S (update_counts f S)"
  unfolding unspent_def using effect_counts by blast

lemma unspent_same:
  "fl_counts S' = fl_counts S \<Longrightarrow> budgets (fl_world S') = budgets (fl_world S) \<Longrightarrow> unspent r S S'"
  by (simp add: unspent_effect effect_same)

text \<open>What \<open>n\<close> provider calls with \<open>u\<close> units in all, begun \<open>q\<close> times, leave behind.\<close>

definition spends :: "('i, 'o, 's, 'c, 'u) typed_runner \<Rightarrow> int \<Rightarrow> int \<Rightarrow> nat \<Rightarrow> ('s, 'c, 'u) flow_state \<Rightarrow> ('s, 'c, 'u) flow_state \<Rightarrow> bool" where
  "spends r n q u S S' \<longleftrightarrow> WorkCalls (fl_counts S') = WorkCalls (fl_counts S) + n \<and>
     StartedSequences (fl_counts S') = StartedSequences (fl_counts S) + q \<and> charged r u S S'"

lemma spends_refl: "spends r 0 0 0 S S"
  by (simp add: spends_def charged_refl)

lemma spends_trans: "spends r n q u S S1 \<Longrightarrow> spends r n' q' u' S1 S2 \<Longrightarrow> spends r (n + n') (q + q') (u + u') S S2"
  by (auto simp: spends_def intro: charged_trans)

lemma unspent_spends:
  assumes "unspent r S S'"
  shows "spends r 0 0 0 S S'"
proof -
  from assms obtain t where t: "effect r t S S'" "t_work t = 0" "t_started t = 0" by (auto simp: unspent_def)
  note sum = effect_counted [OF t(1)]
  from arg_cong [OF sum, of t_work] arg_cong [OF sum, of t_started] effect_charged [OF t(1,2)] t show ?thesis
    by (simp add: spends_def tally_selectors tally_of_def)
qed

lemma spends_unspent: "spends r n q u S S1 \<Longrightarrow> unspent r S1 S2 \<Longrightarrow> spends r n q u S S2"
  using spends_trans [OF _ unspent_spends] by fastforce

lemma unspent_spends_trans: "unspent r S S1 \<Longrightarrow> spends r n q u S1 S2 \<Longrightarrow> spends r n q u S S2"
  using spends_trans [OF unspent_spends] by fastforce

section \<open>The operations of a batch\<close>

lemma bulk_meter_unspent: "bulk_meter r ms S = (e, S') \<Longrightarrow> unspent r S S'"
proof (induction r ms S rule: bulk_meter.induct)
  case (2 r metered ms S)
  obtain d ms' where m: "AddChecked (fl_meters S) metered = (d, ms')" by fastforce
  have q: "unspent r S (S\<lparr>fl_meters := ms'\<rparr>)" by (rule unspent_same) simp_all
  show ?case
  proof (cases d)
    case None
    with "2.prems" m have "bulk_meter r ms (S\<lparr>fl_meters := ms'\<rparr>) = (e, S')" by simp
    then show ?thesis using q "2.IH" [OF m [symmetric] None] by (blast intro: unspent_trans)
  next
    case (Some x)
    with "2.prems" m q show ?thesis by auto
  qed
qed simp

lemma bulk_events_unspent: "bulk_events r evs S = (e, S') \<Longrightarrow> unspent r S S'"
proof (induction r evs S rule: bulk_events.induct)
  case (2 r ev evs S)
  obtain d S1 where ev: "event r ev S = (d, S1)" by fastforce
  note q = unspent_effect [OF event_effect(1) [OF ev]]
  show ?case
  proof (cases d)
    case None
    with "2.prems" ev have "bulk_events r evs S1 = (e, S')" by simp
    then show ?thesis using q "2.IH" [OF ev [symmetric] None] by (blast intro: unspent_trans)
  next
    case (Some x)
    with "2.prems" ev q show ?thesis by auto
  qed
qed simp

lemma bulk_judge_unspent:
  assumes "bulk_judge r gs left attempt e S = (vd, S')"
  shows "unspent r S S'" and "vd = Again \<Longrightarrow> 0 < left"
    and "vd = GiveUp cl \<Longrightarrow> valid_class cl \<and> cl = tr_classifier r e \<and> (cl = Transient \<longrightarrow> left = 0)"
proof -
  obtain c S1 where ob: "observe S = (c, S1)" by fastforce
  have one: "unspent r S S1" using observe_same [OF ob] by (intro unspent_same)
  let ?cl = "tr_classifier r e"
  let ?upd = "\<lambda>c. c\<lparr>Retries := Retries c + 1, RetriesByClass := AList.update (class_String ?cl)
          (lookup0 0 (RetriesByClass c) (class_String ?cl) + 1) (RetriesByClass c)\<rparr>"
  have two: "unspent r S1 (update_counts ?upd S1)"
    by (rule unspent_counts [where t = "Tally 0 0 0 0 0 0 1 0 0"]) (simp_all add: tally_of_def)
  show "unspent r S S'" using assms ob one two
    by (auto simp: bulk_judge_def Let_def split: if_splits option.splits prod.splits
        intro: unspent_trans dest!: bulk_events_unspent)
  show "vd = Again \<Longrightarrow> 0 < left" using assms ob
    by (auto simp: bulk_judge_def Let_def split: if_splits option.splits prod.splits)
  show "vd = GiveUp cl \<Longrightarrow> valid_class cl \<and> cl = tr_classifier r e \<and> (cl = Transient \<longrightarrow> left = 0)" using assms ob
    by (auto simp: bulk_judge_def Let_def split: if_splits option.splits prod.splits)
qed

lemma bulk_admit_spends:
  assumes "bulk_admit r (int n) attempt S = Some (e, S')"
  shows "spends r 0 0 (if e = None then n else 0) S S'"
proof -
  obtain m S1 where adv: "advance S = (m, S1)" by fastforce
  note same = advance_same [OF adv]
  obtain name e1 w evs where adm: "admit (fo_custom (tr_options r)) (fo_env (tr_options r)) (tr_resources r) (int n)
      (fl_world S1) (m_waits m) = Some ((name, e1), w, evs)"
    and S': "S' = S1\<lparr>fl_world := w\<rparr>" and e: "e = None \<longleftrightarrow> e1 = None"
    using assms adv by (auto simp: bulk_admit_def Let_def split: option.splits if_splits)
  have "charged r (if e = None then n else 0) S S'"
  proof (cases e1)
    case (Some d)
    then have "budgets w = budgets (fl_world S1)"
      using admit_loop_refusal [OF _ limiter_lim.undoes_start] adm unfolding admit_def by blast
    then show ?thesis using same e Some by (auto simp: charged_def S')
  next
    case None
    have o: "occ r = (\<lambda>a. sum_list (map (named_occurrences (fo_env (tr_options r)) a) (tr_resources r)))"
      by (simp add: occ_def [abs_def])
    have w: "fl_world S' = w" by (simp add: S')
    have "e = None" using e None by simp
    then show ?thesis unfolding charged_def w o same(5) [symmetric] if_P [OF \<open>e = None\<close>]
      using admit_loop_grant [OF adm [unfolded admit_def None]] by blast
  qed
  then show ?thesis using same by (simp add: spends_def S')
qed

text \<open>What a provider call answered for some items.\<close>

definition answered :: "('v, 'u) bulk_fun \<Rightarrow> 'v list \<Rightarrow> 'v list \<Rightarrow> err option \<Rightarrow> bool" where
  "answered f items vs e \<longleftrightarrow> (\<exists>c u u'. f c items u = (vs, e, u'))"

lemma call_bulk_spends:
  assumes "call_bulk r f items attempt S = (res, S')"
  shows "spends r 1 (if attempt = 1 then 1 else 0) 0 S S'"
    and "res = Inr (vs, e) \<Longrightarrow> answered f items vs e"
proof -
  let ?S1 = "if attempt = 1 then update_counts (\<lambda>c. c\<lparr>StartedSequences := StartedSequences c + 1\<rparr>) S else S"
  obtain c S2 where ob: "observe ?S1 = (c, S2)" by fastforce
  obtain vs' e' u where fv: "f c items (fl_user S2) = (vs', e', u)" by (metis prod_cases3)
  let ?S3 = "update_counts (\<lambda>c. c\<lparr>WorkCalls := WorkCalls c + 1\<rparr>) (S2\<lparr>fl_user := u\<rparr>)"
  have three: "spends r 1 (if attempt = 1 then 1 else 0) 0 S ?S3"
    using observe_same [OF ob] by (auto simp: update_counts_def spends_def charged_def)
  have "unspent r ?S3 S' \<and> (res = Inr (vs, e) \<longrightarrow> vs = vs' \<and> e = e')"
  proof (cases "fs_AttemptMeter (tr_step r)")
    case None
    then show ?thesis using assms ob fv by (auto simp: call_bulk_def Let_def)
  next
    case (Some am)
    obtain me S4 where me: "bulk_meter r (map (\<lambda>v. am v e') vs') ?S3 = (me, S4)" by fastforce
    then have "S' = S4 \<and> (res = Inr (vs, e) \<longrightarrow> vs = vs' \<and> e = e')"
      using assms ob fv Some by (cases me) (auto simp: call_bulk_def Let_def)
    then show ?thesis using bulk_meter_unspent [OF me] by simp
  qed
  then show "spends r 1 (if attempt = 1 then 1 else 0) 0 S S'" "res = Inr (vs, e) \<Longrightarrow> answered f items vs e"
    using three fv by (auto intro: spends_unspent simp: answered_def)
qed

lemma admitted_call:
  assumes "bulk_admit r (int n) attempt S = Some (None, S1)" and "call_bulk r f items attempt S1 = (res, S')"
  shows "spends r 1 (if attempt = 1 then 1 else 0) n S S'"
  using spends_trans [OF bulk_admit_spends [OF assms(1)] call_bulk_spends(1) [OF assms(2)]] by simp

section \<open>The attempts of a batch\<close>

text \<open>What an end of the retry loop says: the values of an answer without error, one for each group, or
  the error of the last answer with its class, after at most \<open>lim\<close> attempts.\<close>

definition end_ok :: "('v, 'v, 's, 'c, 'u) typed_runner \<Rightarrow> ('v, 'u) bulk_fun \<Rightarrow> 'v bulk_group list \<Rightarrow> int \<Rightarrow> 'v bulk_end \<Rightarrow> bool" where
  "end_ok r f gs lim x = (case x of
     Values vs \<Rightarrow> answered f (map kg_item gs) vs None \<and> length vs = length gs
   | Exhausted e cl n \<Rightarrow> (\<exists>vs. answered f (map kg_item gs) vs (Some e)) \<and> valid_class cl \<and> cl = tr_classifier r e
       \<and> n \<le> lim \<and> (cl = Transient \<longrightarrow> n = lim))"

text \<open>The retry loop with at most \<open>k\<close> attempts left, of which the last is number \<open>lim\<close>.\<close>

definition attempts_ok :: "('v, 'v, 's, 'c, 'u) typed_runner \<Rightarrow> ('v, 'u) bulk_fun \<Rightarrow> 'v bulk_group list \<Rightarrow> int \<Rightarrow> nat \<Rightarrow> bool \<Rightarrow>
    ('v, 's, 'c, 'u) bulk_state \<Rightarrow> 'v bulk_end result \<Rightarrow> ('v, 's, 'c, 'u) bulk_state \<Rightarrow> bool" where
  "attempts_ok r f gs lim k begins B res B' \<longleftrightarrow> bk_results B' = bk_results B \<and> bk_stuck B' = bk_stuck B \<and>
     (\<forall>x. res = Inr x \<longrightarrow> end_ok r f gs lim x) \<and>
     (\<exists>n \<le> k. bk_calls B' = bk_calls B @ replicate n gs \<and>
        spends r (int n) (if begins \<and> 0 < n then 1 else 0) (n * length gs) (bk_flow B) (bk_flow B'))"

lemma attempts_none:
  "unspent r (bk_flow B) S \<Longrightarrow> attempts_ok r f gs lim k begins B (Inl e) (B\<lparr>bk_flow := S\<rparr>)"
  by (auto simp: attempts_ok_def intro!: exI [of _ 0] unspent_spends)

lemma attempts_one:
  "spends r 1 (if begins then 1 else 0) (length gs) (bk_flow B) S \<Longrightarrow> (\<forall>x. res = Inr x \<longrightarrow> end_ok r f gs lim x) \<Longrightarrow>
   attempts_ok r f gs lim (Suc k) begins B res (B\<lparr>bk_flow := S, bk_calls := bk_calls B @ [gs]\<rparr>)"
  by (auto simp: attempts_ok_def intro!: exI [of _ 1])

lemma attempts_more:
  assumes "spends r 1 (if begins then 1 else 0) (length gs) (bk_flow B) S"
    and "attempts_ok r f gs lim k False (B\<lparr>bk_flow := S, bk_calls := bk_calls B @ [gs]\<rparr>) res B'"
  shows "attempts_ok r f gs lim (Suc k) begins B res B'"
proof -
  from assms(2) obtain n where n: "bk_calls B' = bk_calls B @ replicate (Suc n) gs" "n \<le> k"
    "spends r (int n) 0 (n * length gs) S (bk_flow B')" by (auto simp: attempts_ok_def)
  from spends_trans [OF assms(1) n(3)] have "spends r (int (Suc n)) (if begins \<and> 0 < Suc n then 1 else 0) (Suc n * length gs)
      (bk_flow B) (bk_flow B')" by simp
  then show ?thesis using assms(2) n(1,2) unfolding attempts_ok_def by (intro conjI exI [of _ "Suc n"]) auto
qed

lemma bulk_attempts_ok:
  assumes "bulk_attempts r f gs left attempt delay B = Some (res, B')" and "1 \<le> attempt"
  shows "attempts_ok r f gs (attempt + int left) (Suc left) (attempt = 1) B res B'"
  using assms
proof (induction left arbitrary: attempt delay B rule: less_induct)
  case (less left)
  let ?ok = "attempts_ok r f gs (attempt + int left) (Suc left) (attempt = 1) B res B'"
  obtain p S1 where pause: "retry_pause r attempt delay (bk_flow B) = (p, S1)" by fastforce
  have q1: "unspent r (bk_flow B) S1" by (rule unspent_effect [OF retry_pause_effect(1) [OF pause]])
  show ?case
  proof (cases p)
    case (Inl e)
    with less.prems pause have "res = Inl e" "B' = B\<lparr>bk_flow := S1\<rparr>" by simp_all
    then show ?thesis using attempts_none [OF q1] by simp
  next
    case (Inr delay')
    note run = less.prems(1) [unfolded bulk_attempts.simps [of r f gs left], unfolded pause Inr, simplified]
    from run obtain adm S2 where admit: "bulk_admit r (int (length gs)) attempt S1 = Some (adm, S2)"
      by (auto split: option.splits)
    show ?thesis
    proof (cases adm)
      case (Some e)
      with run admit have "res = Inl e" "B' = B\<lparr>bk_flow := S2\<rparr>" by simp_all
      moreover have "attempts_ok r f gs (attempt + int left) (Suc left) (attempt = 1) B (Inl e) (B\<lparr>bk_flow := S2\<rparr>)"
        using unspent_spends_trans [OF q1 bulk_admit_spends [OF admit]] Some
        by (auto simp: attempts_ok_def intro!: exI [of _ 0])
      ultimately show ?thesis by simp
    next
      case None
      obtain ans S3 where call: "call_bulk r f (map kg_item gs) attempt S2 = (ans, S3)" by fastforce
      note q3 = unspent_spends_trans [OF q1 admitted_call [OF admit [unfolded None] call]]
      note rest = run [unfolded admit None, simplified, unfolded call, simplified]
      show ?thesis
      proof (cases ans)
        case (Inl e)
        with rest have "res = Inl e" "B' = B\<lparr>bk_flow := S3, bk_calls := bk_calls B @ [gs]\<rparr>" by simp_all
        then show ?thesis using attempts_one [OF q3] by simp
      next
        case (Inr ve)
        obtain vs e where ve: "ve = (vs, e)" by fastforce
        have said: "answered f (map kg_item gs) vs e" by (rule call_bulk_spends(2) [OF call]) (simp add: Inr ve)
        show ?thesis
        proof (cases e)
          case None
          with rest Inr ve have "res = (if length vs \<noteq> length gs
                then Inl (bulk_error r '': bulk call returned %d results for %d items''
                       [FInt (int (length vs)), FInt (int (length gs))] None) else Inr (Values vs))"
            "B' = B\<lparr>bk_flow := S3, bk_calls := bk_calls B @ [gs]\<rparr>" by simp_all
          moreover from this said None have "\<forall>x. res = Inr x \<longrightarrow> end_ok r f gs (attempt + int left) x"
            by (auto simp: end_ok_def split: if_splits)
          ultimately show ?thesis using attempts_one [OF q3] by simp
        next
          case (Some d)
          obtain vd S4 where judge: "bulk_judge r gs left attempt d S3 = (vd, S4)" by fastforce
          note q4 = spends_unspent [OF q3 bulk_judge_unspent(1) [OF judge]]
          note rest' = rest [unfolded Inr ve Some, simplified, unfolded judge, simplified]
          show ?thesis
          proof (cases vd)
            case (Stop x)
            with rest' have "res = Inl x" "B' = B\<lparr>bk_flow := S4, bk_calls := bk_calls B @ [gs]\<rparr>" by simp_all
            then show ?thesis using attempts_one [OF q4] by simp
          next
            case (GiveUp cl)
            with rest' have out: "res = Inr (Exhausted d cl attempt)" "B' = B\<lparr>bk_flow := S4, bk_calls := bk_calls B @ [gs]\<rparr>"
              by simp_all
            have "end_ok r f gs (attempt + int left) (Exhausted d cl attempt)"
              using bulk_judge_unspent(3) [OF judge GiveUp] said Some by (auto simp: end_ok_def)
            then show ?thesis using attempts_one [OF q4] out by simp
          next
            case Again
            then obtain n where n: "left = Suc n" using bulk_judge_unspent(2) [OF judge] by (cases left) auto
            have "attempts_ok r f gs (attempt + 1 + int n) (Suc n) (attempt + 1 = 1)
                (B\<lparr>bk_flow := S4, bk_calls := bk_calls B @ [gs]\<rparr>) res B'"
              by (rule less.IH) (use rest' Again n less.prems(2) in auto)
            from attempts_more [OF q4] this show ?thesis using less.prems(2) n by (simp add: algebra_simps)
          qed
        qed
      qed
    qed
  qed
qed

section \<open>The results of a batch\<close>

text \<open>Only results at indexes of \<open>I\<close> were set, nothing was spent, no call was made.\<close>

definition sets :: "('i, 'o, 's, 'c, 'u) typed_runner \<Rightarrow> nat set \<Rightarrow> ('v, 's, 'c, 'u) bulk_state \<Rightarrow> ('v, 's, 'c, 'u) bulk_state \<Rightarrow> bool" where
  "sets r I B B' \<longleftrightarrow> bk_calls B' = bk_calls B \<and> bk_stuck B' = bk_stuck B \<and>
     length (bk_results B') = length (bk_results B) \<and> (\<forall>i. i \<notin> I \<longrightarrow> bk_results B' ! i = bk_results B ! i) \<and>
     unspent r (bk_flow B) (bk_flow B')"

lemma sets_refl: "sets r I B B"
  by (simp add: sets_def)

lemma sets_mono: "sets r I B B' \<Longrightarrow> I \<subseteq> J \<Longrightarrow> sets r J B B'"
  by (auto simp: sets_def)

lemma sets_trans: "sets r I B B1 \<Longrightarrow> sets r I B1 B2 \<Longrightarrow> sets r I B B2"
  by (auto simp: sets_def intro: unspent_trans)

lemma sets_union: "sets r I B B1 \<Longrightarrow> sets r J B1 B2 \<Longrightarrow> sets r (I \<union> J) B B2"
  by (blast intro: sets_trans sets_mono)

lemma sets_flow: "unspent r (bk_flow B) S \<Longrightarrow> sets r I B (B\<lparr>bk_flow := S\<rparr>)"
  by (simp add: sets_def)

lemma set_result_frame [simp]:
  "bk_flow (set_result i x B) = bk_flow B" "length (bk_results (set_result i x B)) = length (bk_results B)"
  "bk_calls (set_result i x B) = bk_calls B" "bk_stuck (set_result i x B) = bk_stuck B"
  "i \<noteq> j \<Longrightarrow> bk_results (set_result i x B) ! j = bk_results B ! j"
  "i < length (bk_results B) \<Longrightarrow> bk_results (set_result i x B) ! i = x"
  by (simp_all add: set_result_def)

lemma sets_result:
  assumes "i \<in> I"
  shows "sets r I B (set_result i x B)"
proof -
  have "i \<noteq> j" if "j \<notin> I" for j using assms that by blast
  then show ?thesis by (simp add: sets_def)
qed

lemma set_all:
  "bk_flow (fold (\<lambda>i. set_result i x) is B) = bk_flow B"
  "sets r (set is) B (fold (\<lambda>i. set_result i x) is B)"
  "i \<in> set is \<Longrightarrow> i < length (bk_results B) \<Longrightarrow> bk_results (fold (\<lambda>i. set_result i x) is B) ! i = x"
proof (induction "is" arbitrary: B)
  case (Cons j "is")
  {
    case 1
    show ?case using Cons.IH(1) by simp
  next
    case 2
    show ?case using sets_union [OF sets_result [of j "{j}" r B x] Cons.IH(2)] by simp
  next
    case 3
    show ?case
    proof (cases "i \<in> set is")
      case True
      then show ?thesis using Cons.IH(3) [of "set_result j x B"] 3 by simp
    next
      case False
      then have "bk_results (fold (\<lambda>i. set_result i x) is (set_result j x B)) ! i = bk_results (set_result j x B) ! i"
        using Cons.IH(2) [of "set_result j x B"] by (simp add: sets_def)
      then show ?thesis using 3 False by auto
    qed
  }
qed (simp_all add: sets_refl)

lemma bulk_failed_sets:
  assumes "bulk_failed r cause cl n is B = (e, B')"
  shows "sets r (set is) B B'"
    and "e = None \<Longrightarrow> i \<in> set is \<Longrightarrow> i < length (bk_results B) \<Longrightarrow> bk_results B' ! i = failed_result r i cause cl n"
proof -
  have "sets r (set is) B B' \<and> (e = None \<longrightarrow> (\<forall>i \<in> set is. i < length (bk_results B) \<longrightarrow>
      bk_results B' ! i = failed_result r i cause cl n))"
    using assms
  proof (induction "is" arbitrary: B)
    case (Cons j "is")
    let ?skips = "OnError (fs_Policy (tr_step r)) = Skip_item"
    let ?upd = "\<lambda>c. if ?skips then c\<lparr>Skipped := Skipped c + 1\<rparr> else c\<lparr>Quarantined := Quarantined c + 1\<rparr>"
    let ?B1 = "set_result j (failed_result r j cause cl n) B"
    have one: "unspent r (bk_flow B) (update_counts ?upd (bk_flow B))"
      by (rule unspent_counts [where t = "if ?skips then Tally 0 0 0 0 0 0 0 0 1 else Tally 0 0 0 0 0 0 0 1 0"])
        (simp_all add: tally_of_def)
    obtain d S2 where ev: "event r (zero_event\<lparr>ev_Index := int j, ev_Type := (if ?skips then EventSkipped else EventQuarantined),
             ev_Class := class_String cl, ev_Error := Some cause\<rparr>) (update_counts ?upd (bk_flow B)) = (d, S2)" by fastforce
    have "unspent r (bk_flow ?B1) S2" using unspent_trans [OF one unspent_effect [OF event_effect(1) [OF ev]]] by simp
    then have head: "sets r {j} B (?B1\<lparr>bk_flow := S2\<rparr>)"
      by (blast intro: sets_trans sets_result sets_flow)
    show ?case
    proof (cases d)
      case (Some x)
      then have "B' = ?B1\<lparr>bk_flow := S2\<rparr>" "e = Some x" using Cons.prems ev by (simp_all add: Let_def)
      then show ?thesis using sets_mono [OF head] by simp
    next
      case None
      then have run: "bulk_failed r cause cl n is (?B1\<lparr>bk_flow := S2\<rparr>) = (e, B')"
        using Cons.prems ev by (simp add: Let_def)
      note IH = Cons.IH [OF run]
      have "bk_results B' ! j = failed_result r j cause cl n" if "j \<notin> set is" "j < length (bk_results B)"
        using IH that by (auto simp: sets_def)
      then show ?thesis using IH sets_union [OF head, of "set is" B'] by auto
    qed
  qed (simp_all add: sets_refl)
  then show "sets r (set is) B B'"
    "e = None \<Longrightarrow> i \<in> set is \<Longrightarrow> i < length (bk_results B) \<Longrightarrow> bk_results B' ! i = failed_result r i cause cl n" by auto
qed

lemma bulk_announce_unspent: "bulk_announce r ty v oc is S = (e, S') \<Longrightarrow> unspent r S S'"
proof (induction "is" arbitrary: S)
  case (Cons i "is")
  obtain d S1 where one: "event_then_notify r (zero_event\<lparr>ev_Index := int i, ev_Type := ty\<rparr>) (int i) v oc S = (d, S1)" by fastforce
  note q = unspent_effect [OF event_then_notify_effect(1) [OF one]]
  show ?case
  proof (cases d)
    case None
    with Cons.prems one have "bulk_announce r ty v oc is S1 = (e, S')" by simp
    then show ?thesis using q Cons.IH by (blast intro: unspent_trans)
  next
    case (Some x)
    with Cons.prems one q show ?thesis by auto
  qed
qed simp

text \<open>The outcome of a value of the batch: stored under the key of its group, or not cached.\<close>

definition value_outcome :: "('v, 's) store_ops option \<Rightarrow> 'v bulk_group \<Rightarrow> CacheOutcome" where
  "value_outcome store g = (if store = None then zero_outcome else \<lparr>co_KeyDigest = bg_digest g, co_State = CacheStored\<rparr>)"

definition commit :: "('v, 'v, 's, 'c, 'u) typed_runner \<Rightarrow> ('v, 's) store_ops option \<Rightarrow> 'v bulk_group \<Rightarrow> 'v \<Rightarrow>
    ('s, 'c, 'u) flow_state \<Rightarrow> err option \<times> CacheOutcome \<times> EventType \<times> ('s, 'c, 'u) flow_state" where
  "commit r store g v S = (case store of
      None \<Rightarrow> (None, zero_outcome, EventDone, S)
    | Some ops \<Rightarrow>
        (case so_Store ops None (kg_key g) v (fl_store S) of
           (Some e, s') \<Rightarrow> (Some (step_error r '': store cache entry: %w'' (int (kg_indexes g ! 0)) [] (Some e)),
             zero_outcome, EventDone, S\<lparr>fl_store := s'\<rparr>)
         | (None, s') \<Rightarrow> (None, \<lparr>co_KeyDigest = bg_digest g, co_State = CacheStored\<rparr>, EventStored,
             update_counts (\<lambda>c. c\<lparr>Stored := Stored c + 1\<rparr>) (S\<lparr>fl_store := s'\<rparr>))))"

lemma commit_unspent:
  assumes "commit r store g v S = (e, oc, ty, S')"
  shows "unspent r S S'" and "e = None \<Longrightarrow> oc = value_outcome store g"
proof -
  have "unspent r S (S\<lparr>fl_store := s'\<rparr>)" for s' by (rule unspent_same) simp_all
  moreover have "unspent r (S\<lparr>fl_store := s'\<rparr>) (update_counts (\<lambda>c. c\<lparr>Stored := Stored c + 1\<rparr>) (S\<lparr>fl_store := s'\<rparr>))" for s'
    by (rule unspent_counts [where t = "Tally 0 0 0 1 0 0 0 0 0"]) (simp_all add: tally_of_def)
  ultimately show "unspent r S S'" "e = None \<Longrightarrow> oc = value_outcome store g" using assms
    by (auto simp: commit_def value_outcome_def intro: unspent_trans split: option.splits prod.splits)
qed

lemma bulk_done_commit:
  "bulk_done r store ((g, v) # ps) B =
     (case commit r store g v (bk_flow B) of
        (Some e, oc, ty, S1) \<Rightarrow> (Some e, B\<lparr>bk_flow := S1\<rparr>)
      | (None, oc, ty, S1) \<Rightarrow>
          let B1 = fold (\<lambda>i. set_result i (fresh_result v oc)) (kg_indexes g) (B\<lparr>bk_flow := S1\<rparr>) in
          (case bulk_announce r ty v oc (kg_indexes g) (bk_flow B1) of
             (Some e, S2) \<Rightarrow> (Some e, B1\<lparr>bk_flow := S2\<rparr>)
           | (None, S2) \<Rightarrow> bulk_done r store ps (B1\<lparr>bk_flow := S2\<rparr>)))"
  by (simp add: commit_def)

lemma bulk_done_sets:
  assumes "bulk_done r store ps B = (e, B')"
  shows "sets r (\<Union>p \<in> set ps. set (kg_indexes (fst p))) B B'"
    and "e = None \<Longrightarrow> p \<in> set ps \<Longrightarrow> i \<in> set (kg_indexes (fst p)) \<Longrightarrow> i < length (bk_results B) \<Longrightarrow>
      \<exists>(g, v) \<in> set ps. i \<in> set (kg_indexes g) \<and> bk_results B' ! i = fresh_result v (value_outcome store g)"
proof -
  let ?I = "\<lambda>ps. \<Union>p \<in> set ps. set (kg_indexes (fst p))"
  let ?at = "\<lambda>B' i g v. i \<in> set (kg_indexes g) \<and> bk_results B' ! i = fresh_result v (value_outcome store g)"
  have "sets r (?I ps) B B' \<and> (e = None \<longrightarrow> (\<forall>i \<in> ?I ps. i < length (bk_results B) \<longrightarrow> (\<exists>(g, v) \<in> set ps. ?at B' i g v)))"
    using assms
  proof (induction ps arbitrary: B)
    case (Cons p ps)
    obtain g v where p: "p = (g, v)" by fastforce
    obtain d oc ty S1 where co: "commit r store g v (bk_flow B) = (d, oc, ty, S1)" by (metis prod_cases4)
    note q1 = commit_unspent(1) [OF co]
    show ?case
    proof (cases d)
      case (Some x)
      then have "B' = B\<lparr>bk_flow := S1\<rparr>" "e = Some x"
        using Cons.prems unfolding p bulk_done_commit by (simp_all add: co)
      then show ?thesis using sets_flow [OF q1] by simp
    next
      case None
      let ?B1 = "fold (\<lambda>i. set_result i (fresh_result v oc)) (kg_indexes g) (B\<lparr>bk_flow := S1\<rparr>)"
      obtain a S2 where an: "bulk_announce r ty v oc (kg_indexes g) (bk_flow ?B1) = (a, S2)" by fastforce
      have oc: "oc = value_outcome store g" by (rule commit_unspent(2) [OF co None])
      have mid: "sets r (set (kg_indexes g)) B (?B1\<lparr>bk_flow := S2\<rparr>)"
        using sets_trans [OF sets_trans [OF sets_flow [OF q1] set_all(2)] sets_flow [OF bulk_announce_unspent [OF an]]] .
      have set: "bk_results (?B1\<lparr>bk_flow := S2\<rparr>) ! i = fresh_result v (value_outcome store g)"
        if "i \<in> set (kg_indexes g)" "i < length (bk_results B)" for i
        using set_all(3) [OF that(1), of "B\<lparr>bk_flow := S1\<rparr>" "fresh_result v oc"] that(2) oc by simp
      show ?thesis
      proof (cases a)
        case (Some x)
        then have "B' = ?B1\<lparr>bk_flow := S2\<rparr>" "e = Some x"
          using Cons.prems None unfolding p bulk_done_commit by (simp_all add: co an Let_def)
        then show ?thesis using sets_mono [OF mid] p by simp
      next
        case Non: None
        then have run: "bulk_done r store ps (?B1\<lparr>bk_flow := S2\<rparr>) = (e, B')"
          using Cons.prems None unfolding p bulk_done_commit by (simp add: co an Let_def)
        note IH = Cons.IH [OF run]
        have len: "length (bk_results (?B1\<lparr>bk_flow := S2\<rparr>)) = length (bk_results B)" using mid by (simp add: sets_def)
        have "\<exists>(g, v) \<in> set (p # ps). ?at B' i g v" if e: "e = None" and i: "i \<in> ?I (p # ps)" "i < length (bk_results B)" for i
        proof (cases "i \<in> ?I ps")
          case True
          then show ?thesis using IH e i(2) len by auto
        next
          case False
          then have "i \<in> set (kg_indexes g)" "bk_results B' ! i = bk_results (?B1\<lparr>bk_flow := S2\<rparr>) ! i"
            using i(1) IH p by (auto simp: sets_def)
          then show ?thesis using set i(2) p by auto
        qed
        then show ?thesis using sets_union [OF mid conjunct1 [OF IH]] p by auto
      qed
    qed
  qed (simp add: sets_refl)
  then show "sets r (?I ps) B B'"
    "e = None \<Longrightarrow> p \<in> set ps \<Longrightarrow> i \<in> set (kg_indexes (fst p)) \<Longrightarrow> i < length (bk_results B) \<Longrightarrow>
      \<exists>(g, v) \<in> set ps. ?at B' i g v" by blast+
qed

text \<open>Where the result of an index of a finished batch comes from.\<close>

definition batch_value :: "('v, 's) store_ops option \<Rightarrow> ('v, 'u) bulk_fun \<Rightarrow> 'v bulk_group list \<Rightarrow> nat \<Rightarrow> 'v fresult \<Rightarrow> bool" where
  "batch_value store f gs i x \<longleftrightarrow> (\<exists>vs p. answered f (map kg_item gs) vs None \<and> length vs = length gs \<and> p < length gs \<and>
     i \<in> set (kg_indexes (gs ! p)) \<and> x = fresh_result (vs ! p) (value_outcome store (gs ! p)))"

definition batch_failure :: "('v, 'v, 's, 'c, 'u) typed_runner \<Rightarrow> ('v, 'u) bulk_fun \<Rightarrow> 'v bulk_group list \<Rightarrow> nat \<Rightarrow> 'v fresult \<Rightarrow> bool" where
  "batch_failure r f gs i x \<longleftrightarrow> (\<exists>vs e n. answered f (map kg_item gs) vs (Some e) \<and> valid_class (tr_classifier r e) \<and>
     tr_classifier r e \<noteq> Fatal \<and> OnError (fs_Policy (tr_step r)) \<noteq> FailFast \<and> n \<le> max 1 (tr_attempts r) \<and>
     (tr_classifier r e = Transient \<longrightarrow> n = max 1 (tr_attempts r)) \<and> x = failed_result r i e (tr_classifier r e) n)"

definition batch_result :: "('v, 'v, 's, 'c, 'u) typed_runner \<Rightarrow> ('v, 's) store_ops option \<Rightarrow> ('v, 'u) bulk_fun \<Rightarrow>
    'v bulk_group list \<Rightarrow> nat \<Rightarrow> 'v fresult \<Rightarrow> bool" where
  "batch_result r store f gs i x \<longleftrightarrow> batch_value store f gs i x \<or> batch_failure r f gs i x"

lemma bulk_finish_sets:
  assumes "bulk_finish r store gs x B = (e, B')" and "end_ok r f gs (max 1 (tr_attempts r)) x"
  shows "sets r (set (bulk_indexes gs)) B B'"
    and "e = None \<Longrightarrow> i \<in> set (bulk_indexes gs) \<Longrightarrow> i < length (bk_results B) \<Longrightarrow> batch_result r store f gs i (bk_results B' ! i)"
proof -
  have "sets r (set (bulk_indexes gs)) B B' \<and> (e = None \<longrightarrow> (\<forall>i \<in> set (bulk_indexes gs). i < length (bk_results B) \<longrightarrow>
      batch_result r store f gs i (bk_results B' ! i)))"
  proof (cases x)
    case (Exhausted d cl n)
    show ?thesis
    proof (cases "cl = Fatal \<or> OnError (fs_Policy (tr_step r)) = FailFast")
      case True
      then show ?thesis using assms(1) Exhausted by (auto simp: bulk_finish_def sets_refl)
    next
      case False
      then have run: "bulk_failed r d cl n (bulk_indexes gs) B = (e, B')"
        using assms(1) Exhausted by (simp add: bulk_finish_def)
      have "batch_failure r f gs i (failed_result r i d cl n)" for i
        using assms(2) Exhausted False unfolding batch_failure_def end_ok_def by auto
      then show ?thesis using bulk_failed_sets [OF run] by (auto simp: batch_result_def)
    qed
  next
    case (Values vs)
    obtain d S1 where m: "(case fs_Meter (tr_step r) of None \<Rightarrow> (None, bk_flow B) | Some m \<Rightarrow> bulk_meter r (map m vs) (bk_flow B)) = (d, S1)"
      by fastforce
    have q: "unspent r (bk_flow B) S1" using m by (auto split: option.splits dest: bulk_meter_unspent)
    have len: "length vs = length gs" and said: "answered f (map kg_item gs) vs None"
      using assms(2) Values by (simp_all add: end_ok_def)
    show ?thesis
    proof (cases d)
      case (Some y)
      then show ?thesis using assms(1) Values m sets_flow [OF q] by (auto simp: bulk_finish_def)
    next
      case None
      then have run: "bulk_done r store (zip gs vs) (B\<lparr>bk_flow := S1\<rparr>) = (e, B')"
        using assms(1) Values m by (simp add: bulk_finish_def)
      have I: "(\<Union>p \<in> set (zip gs vs). set (kg_indexes (fst p))) = set (bulk_indexes gs)"
        using len by (simp add: bulk_indexes_def) (metis image_image map_fst_zip set_map)
      have "batch_result r store f gs i (bk_results B' ! i)"
        if e: "e = None" and i: "i \<in> set (bulk_indexes gs)" "i < length (bk_results B)" for i
      proof -
        from i(1) obtain pr where "pr \<in> set (zip gs vs)" "i \<in> set (kg_indexes (fst pr))" unfolding I [symmetric] by blast
        from bulk_done_sets(2) [OF run e this] i(2) obtain g v where gv: "(g, v) \<in> set (zip gs vs)" "i \<in> set (kg_indexes g)"
          "bk_results B' ! i = fresh_result v (value_outcome store g)" by auto
        then obtain k where "k < length gs" "gs ! k = g" "vs ! k = v" using len by (auto simp: in_set_zip)
        then show ?thesis using gv said len unfolding batch_result_def batch_value_def by blast
      qed
      then show ?thesis using sets_trans [OF sets_flow [OF q] bulk_done_sets(1) [OF run, unfolded I]] by blast
    qed
  qed
  then show "sets r (set (bulk_indexes gs)) B B'"
    "e = None \<Longrightarrow> i \<in> set (bulk_indexes gs) \<Longrightarrow> i < length (bk_results B) \<Longrightarrow> batch_result r store f gs i (bk_results B' ! i)"
    by blast+
qed

text \<open>One batch, whatever came of it.\<close>

definition batch_ok :: "('v, 'v, 's, 'c, 'u) typed_runner \<Rightarrow> ('v, 's) store_ops option \<Rightarrow> ('v, 'u) bulk_fun \<Rightarrow>
    'v bulk_group list \<Rightarrow> ('v, 's, 'c, 'u) bulk_state \<Rightarrow> unit result \<Rightarrow> ('v, 's, 'c, 'u) bulk_state \<Rightarrow> bool" where
  "batch_ok r store f gs B res B' \<longleftrightarrow>
     (\<exists>n. bk_calls B' = bk_calls B @ replicate n gs \<and> int n \<le> max 1 (tr_attempts r) \<and>
        spends r (int n) (if 0 < n then 1 else 0) (n * length gs) (bk_flow B) (bk_flow B')) \<and>
     length (bk_results B') = length (bk_results B) \<and>
     (\<forall>i. i \<notin> set (bulk_indexes gs) \<longrightarrow> bk_results B' ! i = bk_results B ! i) \<and>
     (bk_stuck B \<longrightarrow> bk_stuck B') \<and> (\<not> isl res \<longrightarrow> \<not> bk_stuck B' \<longrightarrow> (\<forall>i \<in> set (bulk_indexes gs). i < length (bk_results B) \<longrightarrow>
        batch_result r store f gs i (bk_results B' ! i)))"

lemma bulk_work_ok:
  assumes "bulk_work r store f c gs B = (res, B')" and "1 \<le> tr_attempts r"
  shows "batch_ok r store f gs B res B'"
proof -
  let ?B0 = "B\<lparr>bk_flow := under c (bk_flow B)\<rparr>"
  have q: "unspent r (bk_flow B) (bk_flow ?B0)"
    by (rule unspent_same) (auto simp: under_def limiter_simps split: option.splits)
  show ?thesis
  proof (cases "bulk_attempts r f gs (nat (tr_attempts r) - 1) 1 (Base (tr_backoff r)) ?B0")
    case None
    then have "B' = B\<lparr>bk_stuck := True\<rparr>" using assms(1) by (simp add: bulk_work_def)
    then show ?thesis using assms(2) by (auto simp: batch_ok_def spends_refl intro!: exI [of _ 0])
  next
    case (Some p)
    obtain x B1 where p: "p = (x, B1)" by fastforce
    have at: "1 + int (nat (tr_attempts r) - 1) = max 1 (tr_attempts r)" "Suc (nat (tr_attempts r) - 1) = nat (tr_attempts r)"
      using assms(2) by auto
    from bulk_attempts_ok [OF Some [unfolded p]] have ok: "attempts_ok r f gs (max 1 (tr_attempts r)) (nat (tr_attempts r)) True ?B0 x B1"
      unfolding at by simp
    then obtain n where n: "bk_calls B1 = bk_calls B @ replicate n gs" "n \<le> nat (tr_attempts r)"
      "spends r (int n) (if 0 < n then 1 else 0) (n * length gs) (bk_flow B) (bk_flow B1)"
      unfolding attempts_ok_def using unspent_spends_trans [OF q] by auto
    have same: "bk_results B1 = bk_results B" "bk_stuck B1 = bk_stuck B" using ok by (simp_all add: attempts_ok_def)
    have rest: "sets r (set (bulk_indexes gs)) B1 B' \<and> (\<not> isl res \<longrightarrow> (\<forall>i \<in> set (bulk_indexes gs). i < length (bk_results B) \<longrightarrow>
        batch_result r store f gs i (bk_results B' ! i)))"
    proof (cases x)
      case (Inl e)
      then have "res = Inl e" "B' = B1" using assms(1) Some p by (simp_all add: bulk_work_def)
      then show ?thesis by (simp add: sets_refl)
    next
      case (Inr y)
      obtain e B2 where fin: "bulk_finish r store gs y B1 = (e, B2)" by fastforce
      have "B' = B2 \<and> (\<not> isl res \<longrightarrow> e = None)" using assms(1) Some p Inr fin by (cases e) (auto simp: bulk_work_def)
      moreover have "end_ok r f gs (max 1 (tr_attempts r)) y" using ok Inr by (simp add: attempts_ok_def)
      note bulk_finish_sets [OF fin this]
      ultimately show ?thesis unfolding same(1) by blast
    qed
    have "bk_calls B' = bk_calls B @ replicate n gs \<and> int n \<le> max 1 (tr_attempts r) \<and>
        spends r (int n) (if 0 < n then 1 else 0) (n * length gs) (bk_flow B) (bk_flow B')"
      using n rest assms(2) spends_unspent [OF n(3)] by (simp add: sets_def)
    then show ?thesis using rest same unfolding batch_ok_def sets_def by metis
  qed
qed

section \<open>The groups of a run\<close>

text \<open>The groups of the first \<open>n\<close> items: every index stands in one group, and a cached group has the
  digest of each of its items.\<close>

definition bulk_group_ok :: "'k codec \<Rightarrow> ('v, 'v, 's, 'c, 'u) typed_runner \<Rightarrow> bool \<Rightarrow> 'v list \<Rightarrow> 'v bulk_group \<Rightarrow> bool" where
  "bulk_group_ok C r cached xs g \<longleftrightarrow> kg_indexes g \<noteq> [] \<and> kg_item g = xs ! hd (kg_indexes g) \<and>
     (if cached then step_Key C (fs_Name (tr_step r)) (fs_Identity (tr_step r)) (kg_item g) = Inr (kg_key g) \<and>
        (\<forall>i \<in> set (kg_indexes g). \<exists>k. step_Key C (fs_Name (tr_step r)) (fs_Identity (tr_step r)) (xs ! i) = Inr k \<and>
           Digest C k = Inr (bg_digest g))
      else length (kg_indexes g) = 1)"

definition bulk_groups_ok :: "'k codec \<Rightarrow> ('v, 'v, 's, 'c, 'u) typed_runner \<Rightarrow> bool \<Rightarrow> 'v list \<Rightarrow> nat \<Rightarrow> 'v bulk_group list \<Rightarrow> bool" where
  "bulk_groups_ok C r cached xs n gs \<longleftrightarrow> (\<forall>g \<in> set gs. bulk_group_ok C r cached xs g) \<and>
     set (bulk_indexes gs) = {..< n} \<and> distinct (bulk_indexes gs) \<and> (cached \<longrightarrow> distinct (map bg_digest gs))"

definition digest_index :: "'v bulk_group list \<Rightarrow> (string \<times> nat) list \<Rightarrow> bool" where
  "digest_index gs bd \<longleftrightarrow> (let ds = map bg_digest gs in
     (\<forall>d j. map_of bd d = Some j \<longrightarrow> j < length ds \<and> ds ! j = d) \<and> (\<forall>d \<in> set ds. map_of bd d \<noteq> None))"

lemma bulk_indexes_update:
  assumes "j < length gs"
  shows "mset (bulk_indexes (gs[j := (gs ! j)\<lparr>kg_indexes := kg_indexes (gs ! j) @ [i]\<rparr>])) = add_mset i (mset (bulk_indexes gs))"
proof -
  have "gs[j := x] = take j gs @ x # drop (Suc j) gs" for x using assms by (simp add: upd_conv_take_nth_drop)
  moreover have "gs = take j gs @ gs ! j # drop (Suc j) gs" using assms by (rule id_take_nth_drop)
  then have "mset (bulk_indexes gs) = mset (bulk_indexes (take j gs)) + mset (kg_indexes (gs ! j)) + mset (bulk_indexes (drop (Suc j) gs))"
    by (metis (no_types, opaque_lifting) bulk_indexes_def concat.simps(2) concat_append list.simps(9) map_append mset_append union_assoc)
  ultimately show ?thesis by (simp add: bulk_indexes_def)
qed

lemma mset_indexes:
  "mset is' = add_mset n (mset is) \<Longrightarrow> set is = {..< n} \<Longrightarrow> distinct is \<Longrightarrow> set is' = {..< Suc n} \<and> distinct is'"
  by (metis distinct_append distinct.simps(2) distinct_count_atmost_1 lessThan_Suc lessThan_iff less_irrefl list.simps(15)
      mset.simps(2) mset_eq_setD mset_eq_imp_distinct_iff)

lemma bulk_group_step:
  assumes ok: "bulk_groups_ok C r True xs i gs" "digest_index gs bd" and i: "i < length xs"
    and key: "step_Key C (fs_Name (tr_step r)) (fs_Identity (tr_step r)) (xs ! i) = Inr k" "Digest C k = Inr d"
  shows "map_of bd d = Some j \<Longrightarrow> bulk_groups_ok C r True xs (Suc i) (gs[j := (gs ! j)\<lparr>kg_indexes := kg_indexes (gs ! j) @ [i]\<rparr>]) \<and>
      digest_index (gs[j := (gs ! j)\<lparr>kg_indexes := kg_indexes (gs ! j) @ [i]\<rparr>]) bd"
    and "map_of bd d = None \<Longrightarrow> bulk_groups_ok C r True xs (Suc i)
        (gs @ [\<lparr>kg_key = k, kg_item = xs ! i, kg_indexes = [i], bg_digest = d\<rparr>]) \<and>
      digest_index (gs @ [\<lparr>kg_key = k, kg_item = xs ! i, kg_indexes = [i], bg_digest = d\<rparr>]) (AList.update d (length gs) bd)"
proof -
  assume d: "map_of bd d = Some j"
  with ok(2) have j: "j < length gs" "bg_digest (gs ! j) = d"
    unfolding digest_index_def Let_def by (metis length_map nth_map)+
  let ?g = "(gs ! j)\<lparr>kg_indexes := kg_indexes (gs ! j) @ [i]\<rparr>"
  have old: "bulk_group_ok C r True xs (gs ! j)" using ok(1) j(1) by (auto simp: bulk_groups_ok_def)
  then have "bulk_group_ok C r True xs ?g" using key j(2) by (auto simp: bulk_group_ok_def)
  then have "\<forall>g \<in> set (gs[j := ?g]). bulk_group_ok C r True xs g"
    using ok(1) by (auto simp: bulk_groups_ok_def dest!: set_update_subset_insert [THEN subsetD])
  moreover have dig: "map bg_digest (gs[j := ?g]) = map bg_digest gs"
    using j(1) by (simp add: map_update list_update_same_conv)
  moreover have "set (bulk_indexes (gs[j := ?g])) = {..< Suc i} \<and> distinct (bulk_indexes (gs[j := ?g]))"
    by (rule mset_indexes [OF bulk_indexes_update [OF j(1)]]) (use ok(1) in \<open>auto simp: bulk_groups_ok_def\<close>)
  moreover have "digest_index (gs[j := ?g]) bd" using ok(2) unfolding digest_index_def dig .
  ultimately show "bulk_groups_ok C r True xs (Suc i) (gs[j := ?g]) \<and> digest_index (gs[j := ?g]) bd"
    using ok(1) unfolding bulk_groups_ok_def by metis
next
  assume d: "map_of bd d = None"
  with ok(2) have new: "d \<notin> bg_digest ` set gs" unfolding digest_index_def Let_def by auto
  let ?g = "\<lparr>kg_key = k, kg_item = xs ! i, kg_indexes = [i], bg_digest = d\<rparr>"
  have "bulk_group_ok C r True xs ?g" "bulk_indexes (gs @ [?g]) = bulk_indexes gs @ [i]"
    using key by (simp_all add: bulk_group_ok_def bulk_indexes_def)
  note grown = this
  have "\<forall>d j. map_of bd d = Some j \<longrightarrow> j < length gs \<and> bg_digest (gs ! j) = d"
    using ok(2) unfolding digest_index_def Let_def by (metis length_map nth_map)
  moreover have "\<forall>g \<in> set gs. map_of bd (bg_digest g) \<noteq> None"
    using ok(2) unfolding digest_index_def Let_def by auto
  ultimately have "digest_index (gs @ [?g]) (AList.update d (length gs) bd)"
    unfolding digest_index_def Let_def update_conv by (auto simp: nth_append less_Suc_eq)
  then show "bulk_groups_ok C r True xs (Suc i) (gs @ [?g]) \<and> digest_index (gs @ [?g]) (AList.update d (length gs) bd)"
    using ok new grown by (auto simp: bulk_groups_ok_def)
qed

lemma bulk_group_loop_ok:
  assumes "bulk_group_loop C r i ys (gs, bd) = Inr gs'" and "ys = drop i xs"
    and "bulk_groups_ok C r True xs i gs" and "digest_index gs bd" and "i \<le> length xs"
  shows "bulk_groups_ok C r True xs (length xs) gs'"
  using assms
proof (induction ys arbitrary: i gs bd)
  case Nil
  then show ?case by simp
next
  case (Cons y ys)
  then have i: "i < length xs" and y: "y = xs ! i" and ys: "ys = drop (Suc i) xs"
    by (metis drop_all linorder_not_less list.distinct(1)) (metis Cons.prems(2) nth_via_drop, metis Cons.prems(2) drop_Suc tl_drop list.sel(3))
  from Cons.prems(1) obtain k d where key: "step_Key C (fs_Name (tr_step r)) (fs_Identity (tr_step r)) (xs ! i) = Inr k"
    "Digest C k = Inr d" by (auto simp: y split: sum.splits)
  show ?case
  proof (cases "map_of bd d")
    case None
    then show ?thesis using Cons.prems(1) y key bulk_group_step(2) [OF Cons.prems(3,4) i key None] i
      by (intro Cons.IH [OF _ ys]) auto
  next
    case (Some j)
    then show ?thesis using Cons.prems(1) y key bulk_group_step(1) [OF Cons.prems(3,4) i key Some] i
      by (intro Cons.IH [OF _ ys]) auto
  qed
qed

lemma bulk_groups_fine:
  assumes "bulk_groups C r cached xs = Inr gs"
  shows "bulk_groups_ok C r cached xs (length xs) gs"
proof (cases cached)
  case True
  have "bulk_groups_ok C r True xs (length xs) gs"
    by (rule bulk_group_loop_ok [of C r 0 xs "[]" "[]"])
      (use True assms in \<open>simp_all add: bulk_groups_def bulk_groups_ok_def digest_index_def bulk_indexes_def\<close>)
  then show ?thesis using True by simp
next
  case False
  then have gs: "gs = map (\<lambda>(i, x). \<lparr>kg_key = zero_key, kg_item = x, kg_indexes = [i], bg_digest = []\<rparr>) (enumerate 0 xs)"
    using assms by (simp add: bulk_groups_def)
  have "bulk_indexes gs = map fst (enumerate 0 xs)"
    unfolding gs bulk_indexes_def by (induction xs rule: rev_induct) (simp_all add: enumerate_append_eq)
  then have "bulk_indexes gs = [0 ..< length xs]" by (simp add: map_fst_enumerate)
  then show ?thesis using False
    by (auto simp: bulk_groups_ok_def bulk_group_ok_def gs in_set_enumerate_eq)
qed

section \<open>The hits of a run\<close>

definition group_hit :: "('v, 's) store_ops \<Rightarrow> 'v bulk_group \<Rightarrow> 'v \<Rightarrow> bool" where
  "group_hit ops g v \<longleftrightarrow> (\<exists>c s. so_Load ops c (kg_key g) s = Inr (Some v))"

lemma bulk_hits_sets:
  assumes "bulk_hits r v oc is B = (e, B')"
  shows "sets r (set is) B B'"
    and "e = None \<Longrightarrow> i \<in> set is \<Longrightarrow> i < length (bk_results B) \<Longrightarrow> bk_results B' ! i = fresh_result v oc"
proof -
  have "sets r (set is) B B' \<and> (e = None \<longrightarrow> (\<forall>i \<in> set is. i < length (bk_results B) \<longrightarrow> bk_results B' ! i = fresh_result v oc))"
    using assms
  proof (induction "is" arbitrary: B)
    case (Cons j "is")
    have one: "unspent r (bk_flow B) (update_counts (\<lambda>c. c\<lparr>Hits := Hits c + 1\<rparr>) (bk_flow B))"
      by (rule unspent_counts [where t = "Tally 0 1 0 0 0 0 0 0 0"]) (simp_all add: tally_of_def)
    obtain d S where ev: "event_then_notify r (zero_event\<lparr>ev_Index := int j, ev_Type := EventHit\<rparr>) (int j) v oc
        (update_counts (\<lambda>c. c\<lparr>Hits := Hits c + 1\<rparr>) (bk_flow B)) = (d, S)" by fastforce
    let ?B1 = "set_result j (fresh_result v oc) (B\<lparr>bk_flow := S\<rparr>)"
    have head: "sets r {j} B ?B1"
      using unspent_trans [OF one unspent_effect [OF event_then_notify_effect(1) [OF ev]]]
      by (blast intro: sets_trans sets_result sets_flow)
    show ?case
    proof (cases d)
      case (Some x)
      then have "B' = ?B1" "e = Some x" using Cons.prems ev by simp_all
      then show ?thesis using sets_mono [OF head] by simp
    next
      case None
      then have run: "bulk_hits r v oc is ?B1 = (e, B')" using Cons.prems ev by simp
      note IH = Cons.IH [OF run]
      have "bk_results B' ! j = fresh_result v oc" if "j \<notin> set is" "j < length (bk_results B)"
        using IH that by (auto simp: sets_def)
      then show ?thesis using IH sets_union [OF head, of "set is" B'] by auto
    qed
  qed (simp_all add: sets_refl)
  then show "sets r (set is) B B'"
    "e = None \<Longrightarrow> i \<in> set is \<Longrightarrow> i < length (bk_results B) \<Longrightarrow> bk_results B' ! i = fresh_result v oc" by auto
qed

definition hit_outcome :: "'v bulk_group \<Rightarrow> CacheOutcome" where
  "hit_outcome g = \<lparr>co_KeyDigest = bg_digest g, co_State = CacheHit\<rparr>"

lemma subseq_indexes: "subseq new gs \<Longrightarrow> set (bulk_indexes new) \<subseteq> set (bulk_indexes gs)"
  by (auto simp: bulk_indexes_def subseq_conv_nths dest: in_set_nthsD)

text \<open>The misses are groups of the run in their order; every other group is a hit.\<close>

definition load_split :: "('v, 'v, 's, 'c, 'u) typed_runner \<Rightarrow> ('v, 's) store_ops \<Rightarrow> 'v bulk_group list \<Rightarrow> 'v bulk_group list \<Rightarrow>
    ('v, 's, 'c, 'u) bulk_state \<Rightarrow> err option \<Rightarrow> ('v, 's, 'c, 'u) bulk_state \<Rightarrow> bool" where
  "load_split r ops gs new B e B' \<longleftrightarrow> subseq new gs \<and> sets r (set (bulk_indexes gs) - set (bulk_indexes new)) B B' \<and>
    (e = None \<longrightarrow> (\<forall>g \<in> set gs. g \<in> set new \<or> (\<exists>v. group_hit ops g v \<and>
       (\<forall>i \<in> set (kg_indexes g). i < length (bk_results B) \<longrightarrow> bk_results B' ! i = fresh_result v (hit_outcome g)))))"

lemma load_split_stop: "sets r I B B' \<Longrightarrow> I \<subseteq> set (bulk_indexes gs) \<Longrightarrow> load_split r ops gs [] B (Some x) B'"
  by (auto simp: load_split_def bulk_indexes_def intro: sets_mono)

lemma bulk_load_splits:
  assumes "bulk_load r ops gs ms B = ((e, ms'), B')" and "distinct (bulk_indexes gs)"
  shows "\<exists>new. ms' = ms @ new \<and> load_split r ops gs new B e B'"
  using assms
proof (induction gs arbitrary: ms B)
  case Nil
  then show ?case by (auto simp: load_split_def sets_refl)
next
  case (Cons g gs)
  have apart: "set (kg_indexes g) \<inter> set (bulk_indexes gs) = {}" "distinct (bulk_indexes gs)"
    using Cons.prems(2) by (auto simp: bulk_indexes_def)
  have ix: "set (bulk_indexes (g # gs)) = set (kg_indexes g) \<union> set (bulk_indexes gs)" for gs by (simp add: bulk_indexes_def)
  obtain c S where ob: "observe (bk_flow B) = (c, S)" by fastforce
  have q: "unspent r (bk_flow B) S" using observe_same [OF ob] by (intro unspent_same)
  show ?case
  proof (cases "so_Load ops c (kg_key g) (fl_store S)")
    case (Inl x)
    with Cons.prems(1) ob have "ms' = ms" "B' = B\<lparr>bk_flow := S\<rparr>" "\<exists>x. e = Some x" by auto
    then show ?thesis using load_split_stop [OF sets_flow [OF q, of "{}"]] by auto
  next
    case (Inr w)
    show ?thesis
    proof (cases w)
      case None
      let ?upd = "\<lambda>c. c\<lparr>Misses := Misses c + int (length (kg_indexes g))\<rparr>"
      let ?B1 = "B\<lparr>bk_flow := update_counts ?upd S\<rparr>"
      have run: "bulk_load r ops gs (ms @ [g]) ?B1 = ((e, ms'), B')" using Cons.prems(1) ob Inr None by simp
      have "unspent r S (update_counts ?upd S)"
        by (rule unspent_counts [where t = "Tally 0 0 (int (length (kg_indexes g))) 0 0 0 0 0 0"]) (simp_all add: tally_of_def)
      then have head: "sets r {} B ?B1" using q by (blast intro: sets_flow unspent_trans)
      from Cons.IH [OF run apart(2)] obtain new where new: "ms' = (ms @ [g]) @ new" "load_split r ops gs new ?B1 e B'" by blast
      have I: "{} \<union> (set (bulk_indexes gs) - set (bulk_indexes new)) \<subseteq> set (bulk_indexes (g # gs)) - set (bulk_indexes (g # new))"
        using apart(1) unfolding ix by blast
      have "sets r (set (bulk_indexes (g # gs)) - set (bulk_indexes (g # new))) B B'"
        using new(2) by (intro sets_mono [OF sets_union [OF head] I]) (simp add: load_split_def)
      then show ?thesis using new by (intro exI [of _ "g # new"]) (auto simp: load_split_def)
    next
      case (Some v)
      obtain d B1 where hit: "bulk_hits r v (hit_outcome g) (kg_indexes g) (B\<lparr>bk_flow := S\<rparr>) = (d, B1)" by fastforce
      have head: "sets r (set (kg_indexes g)) B B1"
        using sets_trans [OF sets_flow [OF q] bulk_hits_sets(1) [OF hit]] .
      show ?thesis
      proof (cases d)
        case (Some x)
        then have "ms' = ms" "B' = B1" "e = Some x"
          using Cons.prems(1) ob Inr \<open>w = Some v\<close> hit by (simp_all add: hit_outcome_def)
        then show ?thesis using load_split_stop [OF head] ix by auto
      next
        case None
        then have run: "bulk_load r ops gs ms B1 = ((e, ms'), B')"
          using Cons.prems(1) ob Inr \<open>w = Some v\<close> hit by (simp add: hit_outcome_def)
        from Cons.IH [OF this apart(2)] obtain new where new: "ms' = ms @ new" "load_split r ops gs new B1 e B'" by blast
        have sub: "set (bulk_indexes new) \<subseteq> set (bulk_indexes gs)" using new(2) by (simp add: load_split_def subseq_indexes)
        have I: "set (kg_indexes g) \<union> (set (bulk_indexes gs) - set (bulk_indexes new)) \<subseteq>
            set (bulk_indexes (g # gs)) - set (bulk_indexes new)"
          using apart(1) sub unfolding ix by blast
        have "sets r (set (bulk_indexes (g # gs)) - set (bulk_indexes new)) B B'"
          using new(2) by (intro sets_mono [OF sets_union [OF head] I]) (simp add: load_split_def)
        moreover have "bk_results B' ! i = fresh_result v (hit_outcome g)" if "i \<in> set (kg_indexes g)" "i < length (bk_results B)" for i
        proof -
          have "bk_results B1 ! i = fresh_result v (hit_outcome g)"
            using bulk_hits_sets(2) [OF hit None that(1)] that(2) by simp
          moreover have "i \<notin> set (bulk_indexes gs) - set (bulk_indexes new)" using apart(1) that(1) by blast
          ultimately show ?thesis using new(2) by (simp add: load_split_def sets_def)
        qed
        moreover have "group_hit ops g v" using Inr \<open>w = Some v\<close> by (auto simp: group_hit_def)
        moreover have "length (bk_results B1) = length (bk_results B)" using head by (simp add: sets_def)
        ultimately show ?thesis using new by (intro exI [of _ new]) (auto simp: load_split_def)
      qed
    qed
  qed
qed

section \<open>The batches of a run\<close>

lemma bulk_batches_facts:
  assumes "0 < sz"
  shows "concat (bulk_batches sz xs) = xs" and "b \<in> set (bulk_batches sz xs) \<Longrightarrow> b \<noteq> [] \<and> length b \<le> sz"
    and "length (bulk_batches sz xs) = (length xs + sz - 1) div sz"
proof -
  have "concat (bulk_batches sz xs) = xs \<and> (\<forall>b \<in> set (bulk_batches sz xs). b \<noteq> [] \<and> length b \<le> sz) \<and>
    length (bulk_batches sz xs) = (length xs + sz - 1) div sz"
    using assms
  proof (induction sz xs rule: bulk_batches.induct)
    case (1 sz xs)
    show ?case
    proof (cases "xs = []")
      case True
      then show ?thesis using 1(2) by (simp add: bulk_batches.simps [of sz "[]"])
    next
      case False
      note IH = 1(1) [OF _ 1(2)]
      have step: "bulk_batches sz xs = take sz xs # bulk_batches sz (drop sz xs)"
        using False 1(2) by (simp add: bulk_batches.simps [of sz xs])
      have "(length xs + sz - 1) div sz = Suc ((length (drop sz xs) + sz - 1) div sz)"
      proof (cases "sz \<le> length xs")
        case True
        then have "length xs + sz - 1 = (length (drop sz xs) + sz - 1) + sz" using 1(2) by simp
        then show ?thesis using 1(2) by (simp only: div_add_self2)
      next
        case short: False
        then have "length xs + sz - 1 = (length xs - 1) + sz" "length xs - 1 < sz" using False by (cases xs; simp)+
        then have "(length xs + sz - 1) div sz = 1" using 1(2) by (simp only: div_add_self2) simp
        then show ?thesis using short 1(2) by simp
      qed
      then show ?thesis unfolding step using IH False 1(2) by (auto simp: append_take_drop_id)
    qed
  qed
  then show "concat (bulk_batches sz xs) = xs" "b \<in> set (bulk_batches sz xs) \<Longrightarrow> b \<noteq> [] \<and> length b \<le> sz"
    "length (bulk_batches sz xs) = (length xs + sz - 1) div sz" by blast+
qed

text \<open>What holds of the shared state while the batches run: the calls are calls of batches that were
  worked on, at most the step's attempts for each; the units were charged; the results of a batch that
  returned are its own; no other result changed.\<close>

definition bulk_inv :: "('v, 'v, 's, 'c, 'u) typed_runner \<Rightarrow> ('v, 's) store_ops option \<Rightarrow> ('v, 'u) bulk_fun \<Rightarrow> 'v bulk_group list list \<Rightarrow>
    ('v, 's, 'c, 'u) bulk_state \<Rightarrow> (nat \<times> unit result) list \<Rightarrow> ('v, 's, 'c, 'u) bulk_state \<Rightarrow> bool" where
  "bulk_inv r store f bs B0 cs B \<longleftrightarrow>
     fst ` set cs \<subseteq> {..< length bs} \<and>
     (\<exists>hist q. bk_calls B = bk_calls B0 @ hist \<and> set hist \<subseteq> set bs \<and>
        (\<forall>X. int (length (filter X hist)) \<le> max 1 (tr_attempts r) * int (length (filter (\<lambda>c. X (bs ! fst c)) cs))) \<and>
        0 \<le> q \<and> q \<le> int (length cs) \<and> int (length hist) \<le> max 1 (tr_attempts r) * q \<and>
        spends r (int (length hist)) q (sum_list (map length hist)) (bk_flow B0) (bk_flow B)) \<and>
     length (bk_results B) = length (bk_results B0) \<and>
     (\<forall>i. (\<forall>c \<in> set cs. i \<notin> set (bulk_indexes (bs ! fst c))) \<longrightarrow> bk_results B ! i = bk_results B0 ! i) \<and>
     (\<not> bk_stuck B \<longrightarrow> (\<forall>c \<in> set cs. \<not> isl (snd c) \<longrightarrow> (\<forall>i \<in> set (bulk_indexes (bs ! fst c)). i < length (bk_results B0) \<longrightarrow>
        batch_result r store f (bs ! fst c) i (bk_results B ! i))))"

definition apart :: "'v bulk_group list list \<Rightarrow> bool" where
  "apart bs \<longleftrightarrow> (\<forall>j < length bs. \<forall>k < length bs. j \<noteq> k \<longrightarrow> set (bulk_indexes (bs ! j)) \<inter> set (bulk_indexes (bs ! k)) = {})"

lemma bulk_inv_start: "bulk_inv r store f bs B0 [] B0"
  by (auto simp: bulk_inv_def spends_refl intro!: exI [of _ "[]"] exI [of _ 0])

lemma bulk_inv_spend:
  fixes r :: "('v, 'v, 's, 'c, 'u) typed_runner" and B0 B B' :: "('v, 's, 'c, 'u) bulk_state"
  assumes "bk_calls B = bk_calls B0 @ hist" and "set hist \<subseteq> set bs"
    and "\<And>X. int (length (filter X hist)) \<le> m * int (length (filter (\<lambda>c. X (bs ! fst c)) cs))"
    and "0 \<le> q" and "q \<le> int (length cs)" and "int (length hist) \<le> m * q"
    and "spends r (int (length hist)) q (sum_list (map length hist)) (bk_flow B0) (bk_flow B)"
    and "k < length bs" and "bk_calls B' = bk_calls B @ replicate n (bs ! k)" and "int n \<le> m"
    and "spends r (int n) (if 0 < n then 1 else 0) (n * length (bs ! k)) (bk_flow B) (bk_flow B')"
    and "hist' = hist @ replicate n (bs ! k)" and "q' = q + (if 0 < n then 1 else 0)"
  shows "bk_calls B' = bk_calls B0 @ hist'" and "set hist' \<subseteq> set bs"
    and "int (length (filter X hist')) \<le> m * int (length (filter (\<lambda>c. X (bs ! fst c)) (cs @ [(k, res)])))"
    and "0 \<le> q' \<and> q' \<le> int (length (cs @ [(k, res)])) \<and> int (length hist') \<le> m * q'"
    and "spends r (int (length hist')) q' (sum_list (map length hist')) (bk_flow B0) (bk_flow B')"
proof -
  show "bk_calls B' = bk_calls B0 @ hist'" using assms(1,9,12) by simp
  show "set hist' \<subseteq> set bs" using assms(2,8,12) by (auto simp: set_replicate_conv_if)
  show "int (length (filter X hist')) \<le> m * int (length (filter (\<lambda>c. X (bs ! fst c)) (cs @ [(k, res)])))"
    using assms(3) [of X] assms(10,12) by (simp add: algebra_simps)
  show "0 \<le> q' \<and> q' \<le> int (length (cs @ [(k, res)])) \<and> int (length hist') \<le> m * q'"
    using assms(4-6,10,12,13) by (auto simp: algebra_simps)
  have "sum_list (map length hist') = sum_list (map length hist) + n * length (bs ! k)"
    using assms(12) by (simp add: sum_list_replicate)
  then show "spends r (int (length hist')) q' (sum_list (map length hist')) (bk_flow B0) (bk_flow B')"
    using spends_trans [OF assms(7,11)] assms(12,13) by simp
qed

lemma bulk_client:
  fixes r :: "('v, 'v, 's, 'c, 'u) typed_runner" and B0 :: "('v, 's, 'c, 'u) bulk_state"
  assumes ap: "apart bs" and at: "1 \<le> tr_attempts r"
  shows "map_client (bulk_map_options r) (bulk_work r store f) bs (bulk_inv r store f bs B0)"
proof
  fix k c res and cs :: "(nat \<times> unit result) list" and B B' :: "('v, 's, 'c, 'u) bulk_state"
  assume k: "k < length bs" "k \<notin> fst ` set cs" and inv: "bulk_inv r store f bs B0 cs B"
    and work: "bulk_work r store f c (bs ! k) B = (res, B')"
  note ok = bulk_work_ok [OF work at, unfolded batch_ok_def]
  let ?m = "max 1 (tr_attempts r)"
  from inv obtain hist q where h: "bk_calls B = bk_calls B0 @ hist" "set hist \<subseteq> set bs"
    "\<And>X. int (length (filter X hist)) \<le> ?m * int (length (filter (\<lambda>c. X (bs ! fst c)) cs))"
    "0 \<le> q" "q \<le> int (length cs)" "int (length hist) \<le> ?m * q"
    "spends r (int (length hist)) q (sum_list (map length hist)) (bk_flow B0) (bk_flow B)"
    unfolding bulk_inv_def by blast
  from ok obtain n where n: "bk_calls B' = bk_calls B @ replicate n (bs ! k)" "int n \<le> ?m"
    "spends r (int n) (if 0 < n then 1 else 0) (n * length (bs ! k)) (bk_flow B) (bk_flow B')" by blast
  have cs: "fst ` set cs \<subseteq> {..< length bs}" using inv by (simp add: bulk_inv_def)
  have len: "length (bk_results B) = length (bk_results B0)" using inv by (simp add: bulk_inv_def)
  note spend = bulk_inv_spend [OF h k(1) n refl refl]
  have spent: "\<exists>hist q. bk_calls B' = bk_calls B0 @ hist \<and> set hist \<subseteq> set bs \<and>
      (\<forall>X. int (length (filter X hist)) \<le> ?m * int (length (filter (\<lambda>c. X (bs ! fst c)) (cs @ [(k, res)])))) \<and>
      0 \<le> q \<and> q \<le> int (length (cs @ [(k, res)])) \<and> int (length hist) \<le> ?m * q \<and>
      spends r (int (length hist)) q (sum_list (map length hist)) (bk_flow B0) (bk_flow B')"
    using spend by blast
  have other: "bk_results B' ! i = bk_results B ! i" if "c' \<in> set cs" "i \<in> set (bulk_indexes (bs ! fst c'))" for c' i
  proof -
    have "fst c' < length bs" "fst c' \<noteq> k" using cs k(2) that(1) by (force, blast)
    then have "i \<notin> set (bulk_indexes (bs ! k))" using ap k(1) that(2) unfolding apart_def by blast
    then show ?thesis using ok by blast
  qed
  have frame: "bk_results B' ! i = bk_results B0 ! i"
    if "\<forall>c \<in> set (cs @ [(k, res)]). i \<notin> set (bulk_indexes (bs ! fst c))" for i
  proof -
    have "bk_results B' ! i = bk_results B ! i" using that ok by simp
    then show ?thesis using inv that unfolding bulk_inv_def by simp
  qed
  have new: "batch_result r store f (bs ! fst c') i (bk_results B' ! i)"
    if "\<not> bk_stuck B'" "c' \<in> set (cs @ [(k, res)])" "\<not> isl (snd c')" "i \<in> set (bulk_indexes (bs ! fst c'))"
      "i < length (bk_results B0)" for c' i
  proof (cases "c' = (k, res)")
    case True
    then show ?thesis using ok that len by simp
  next
    case False
    then have "c' \<in> set cs" using that(2) by simp
    then have "batch_result r store f (bs ! fst c') i (bk_results B ! i)"
      using inv that ok unfolding bulk_inv_def by blast
    then show ?thesis using other [OF \<open>c' \<in> set cs\<close> that(4)] by simp
  qed
  show "bulk_inv r store f bs B0 (cs @ [(k, res)]) B'"
    unfolding bulk_inv_def
  proof (intro conjI)
    show "fst ` set (cs @ [(k, res)]) \<subseteq> {..< length bs}" using cs k(1) by simp
    show "length (bk_results B') = length (bk_results B0)" using ok len by simp
  qed (use spent frame new in blast)+
qed (simp add: bulk_map_options_def)

lemma submultiset_distinct:
  assumes "mset xs \<subseteq># mset ys" and "distinct ys"
  shows "distinct xs"
  unfolding distinct_count_atmost_1
proof (intro allI)
  fix a
  have "count (mset xs) a \<le> count (mset ys) a" using assms(1) by (rule mset_subset_eq_count)
  also have "\<dots> \<le> 1" using assms(2) by (simp add: distinct_count_atmost_1)
  finally have "count (mset xs) a \<le> 1" .
  moreover have "1 \<le> count (mset xs) a" if "a \<in> set xs" using that by (simp add: Suc_le_eq)
  ultimately show "count (mset xs) a = (if a \<in> set xs then 1 else 0)"
    by (metis le_antisym not_in_iff set_mset_mset)
qed

text \<open>What the map of a run leaves behind, for every outcome.\<close>

lemma bulk_map_ends:
  assumes eg: "errgroup_spec eg" and ap: "apart bs" and at: "1 \<le> tr_attempts r"
    and run: "bounded_Map eg (bulk_map_options r) (Some (bulk_work r store f)) c bs evs B0 = Some (res, B)"
  shows "\<exists>cs. bulk_inv r store f bs B0 cs B \<and> distinct (map fst cs) \<and>
    (\<not> isl res \<longrightarrow> set (map fst cs) = {..< length bs} \<and> (\<forall>c \<in> set cs. \<not> isl (snd c)))"
proof (cases res)
  case (Inl e)
  from map_client.map_failure [OF bulk_client [OF ap at] bulk_inv_start run [unfolded Inl]]
  obtain cs where cs: "bulk_inv r store f bs B0 cs B" "mset (map fst cs) \<subseteq># mset [0 ..< length bs]" by blast
  have "distinct (map fst cs)" using submultiset_distinct [OF cs(2)] by simp
  then show ?thesis using cs(1) Inl by auto
next
  case (Inr rs)
  from map_client.map_success [OF bulk_client [OF ap at] eg bulk_inv_start run [unfolded Inr]]
  obtain cs where cs: "bulk_inv r store f bs B0 cs B" "mset (map fst cs) = mset [0 ..< length bs]" "\<forall>c \<in> set cs. \<not> isl (snd c)" by blast
  have "distinct (map fst cs)" using cs(2) by (metis distinct_upt mset_eq_imp_distinct_iff)
  moreover have "set (map fst cs) = {..< length bs}" using cs(2) by (metis atLeast0LessThan atLeast_upt mset_eq_setD set_upt)
  ultimately show ?thesis using cs(1,3) by blast
qed

section \<open>A run\<close>

lemma distinct_blocks:
  assumes "distinct (concat xss)" and "j < length xss" and "k < length xss" and "x \<in> set (xss ! j)" and "x \<in> set (xss ! k)"
  shows "j = k"
  using assms
proof (induction xss arbitrary: j k)
  case (Cons ys yss)
  have "x \<in> set (concat yss)" if "x \<in> set (yss ! i)" "i < length yss" for i using that by auto
  then show ?case using Cons by (cases j; cases k) auto
qed simp

lemma subseq_bulk_indexes: "subseq ms gs \<Longrightarrow> subseq (bulk_indexes ms) (bulk_indexes gs)"
  by (induction rule: list_emb.induct) (auto simp: bulk_indexes_def subseq_drop_many intro: list_emb_append_mono)

lemma subseq_distinct: "subseq xs ys \<Longrightarrow> distinct ys \<Longrightarrow> distinct xs"
  by (auto simp: subseq_conv_nths)

lemma batches_apart:
  assumes "0 < sz" and "distinct (bulk_indexes ms)"
  shows "apart (bulk_batches sz ms)"
proof -
  have "concat (map bulk_indexes bs) = bulk_indexes (concat bs)" for bs :: "'a bulk_group list list"
    by (induction bs) (simp_all add: bulk_indexes_def)
  from this [of "bulk_batches sz ms"] have d: "distinct (concat (map bulk_indexes (bulk_batches sz ms)))"
    using assms(2) by (simp add: bulk_batches_facts(1) [OF assms(1)])
  show ?thesis using distinct_blocks [OF d] by (fastforce simp: apart_def)
qed

definition bulk_store :: "('v, 'v, 's, 'c, 'u) typed_runner \<Rightarrow> ('v, 's) store_ops option" where
  "bulk_store r = (if is_cached r then fo_Store (tr_options r) else None)"

definition bulk_begin :: "'v list \<Rightarrow> ('v, 's, 'c, 'u) bulk_state \<Rightarrow> ('v, 's, 'c, 'u) bulk_state" where
  "bulk_begin items B = B\<lparr>bk_flow := update_counts (\<lambda>c. c\<lparr>Items := int (length items)\<rparr>) (bk_flow B),
     bk_results := replicate (length items) zero_result\<rparr>"

lemma bulk_begin_frame:
  "unspent r (bk_flow B) (bk_flow (bulk_begin items B))" "bk_calls (bulk_begin items B) = bk_calls B"
  "bk_stuck (bulk_begin items B) = bk_stuck B" "length (bk_results (bulk_begin items B)) = length items"
proof -
  have flow: "bk_flow (bulk_begin items B) = update_counts (\<lambda>c. c\<lparr>Items := int (length items)\<rparr>) (bk_flow B)"
    by (simp add: bulk_begin_def)
  show "unspent r (bk_flow B) (bk_flow (bulk_begin items B))"
    unfolding flow
    by (rule unspent_counts [where t = "Tally (int (length items) - Items (fl_counts (bk_flow B))) 0 0 0 0 0 0 0 0"])
      (simp_all add: tally_of_def)
qed (simp_all add: bulk_begin_def)

text \<open>A run that returned failed before its first batch, or is a map over the batches of its misses.\<close>

definition bulk_mapped :: "'k codec \<Rightarrow> errgroup \<Rightarrow> map_event list \<Rightarrow> (nat \<Rightarrow> ctx) \<Rightarrow> ('v, 'u) bulk_fun \<Rightarrow> nat \<Rightarrow> ('v, 'v, 's, 'c, 'u) typed_runner \<Rightarrow>
    'v list \<Rightarrow> 'v bulk_group list \<Rightarrow> 'v bulk_group list \<Rightarrow> ('v, 's, 'c, 'u) bulk_state \<Rightarrow> ('v, 's, 'c, 'u) bulk_state \<Rightarrow>
    err option \<Rightarrow> ('v, 's, 'c, 'u) bulk_state \<Rightarrow> bool" where
  "bulk_mapped C eg evs seen f sz r items gs ms B B1 e B' \<longleftrightarrow>
     bulk_groups C r (bulk_store r \<noteq> None) items = Inr gs \<and> subseq ms gs \<and>
     sets r (set (bulk_indexes gs) - set (bulk_indexes ms)) (bulk_begin items B) B1 \<and>
     (\<forall>g \<in> set gs. g \<in> set ms \<or> (\<exists>ops v. bulk_store r = Some ops \<and> group_hit ops g v \<and>
       (\<forall>i \<in> set (kg_indexes g). i < length items \<longrightarrow> bk_results B1 ! i = fresh_result v (hit_outcome g)))) \<and>
     (\<exists>c res. bounded_Map eg (bulk_map_options r) (Some (bulk_work (outer_hook seen r) (bulk_store r) f)) c (bulk_batches sz ms) evs B1 = Some (res, B') \<and>
        \<not> bk_stuck B' \<and> (e = None \<longleftrightarrow> \<not> isl res))"

lemma bulk_engine_cases:
  assumes run: "bulk_engine C eg evs seen fo sz r items B = Some (e, B')" and stuck: "\<not> bk_stuck B"
  shows "(e \<noteq> None \<and> unspent r (bk_flow B) (bk_flow B') \<and> bk_calls B' = bk_calls B) \<or>
    (\<exists>f gs ms B1. fo = Some f \<and> 1 \<le> sz \<and> bulk_mapped C eg evs seen f (nat sz) r items gs ms B B1 e B')"
proof (cases "bulk_invalid (tr_step r) fo sz")
  case (Some x)
  then show ?thesis using run by (auto simp: bulk_engine_def)
next
  case valid: None
  then obtain f where f: "fo = Some f" "1 \<le> sz" by (auto simp: bulk_invalid_def split: if_splits)
  let ?B0 = "bulk_begin items B"
  note run = run [unfolded bulk_engine_def valid, simplified, folded bulk_store_def bulk_begin_def, unfolded Let_def]
  show ?thesis
  proof (cases "bulk_groups C r (bulk_store r \<noteq> None) items")
    case (Inl x)
    then have "e = Some x" "B' = ?B0" using run by simp_all
    then show ?thesis using bulk_begin_frame by auto
  next
    case (Inr gs)
    note fine = bulk_groups_fine [OF Inr]
    obtain d ms B1 where load: "(case bulk_store r of None \<Rightarrow> ((None, gs), ?B0) | Some ops \<Rightarrow> bulk_load r ops gs [] ?B0) = ((d, ms), B1)"
      by (metis prod.exhaust)
    have d: "distinct (bulk_indexes gs)" using fine by (simp add: bulk_groups_ok_def)
    have split: "subseq ms gs \<and> sets r (set (bulk_indexes gs) - set (bulk_indexes ms)) ?B0 B1 \<and>
        (d = None \<longrightarrow> (\<forall>g \<in> set gs. g \<in> set ms \<or> (\<exists>ops v. bulk_store r = Some ops \<and> group_hit ops g v \<and>
           (\<forall>i \<in> set (kg_indexes g). i < length items \<longrightarrow> bk_results B1 ! i = fresh_result v (hit_outcome g))))) \<or>
        d \<noteq> None \<and> sets r (set (bulk_indexes gs)) ?B0 B1"
    proof (cases "bulk_store r")
      case None
      then show ?thesis using load by (auto simp: sets_refl)
    next
      case (Some ops)
      then have "bulk_load r ops gs [] ?B0 = ((d, ms), B1)" using load by simp
      from bulk_load_splits [OF this d] have "load_split r ops gs ms ?B0 d B1" by auto
      then show ?thesis using Some bulk_begin_frame(4) [of items B] unfolding load_split_def by metis
    qed
    have g: "bulk_groups C r (\<exists>y. bulk_store r = Some y) items = Inr gs" using Inr by simp
    show ?thesis
    proof (cases d)
      case (Some x)
      have "e = Some x" "B' = B1" using run by (simp_all add: g load Some)
      moreover have "unspent r (bk_flow B) (bk_flow B1) \<and> bk_calls B1 = bk_calls B"
        using split bulk_begin_frame(1) [of r B items] bulk_begin_frame(2) [of items B] by (auto simp: sets_def intro: unspent_trans)
      ultimately show ?thesis by simp
    next
      case None
      note run' = run [unfolded g, simplified, unfolded load None, simplified]
      have "\<exists>c res. bounded_Map eg (bulk_map_options r) (Some (bulk_work (outer_hook seen r) (bulk_store r) f)) c (bulk_batches (nat sz) ms) evs B1 = Some (res, B') \<and>
        \<not> bk_stuck B' \<and> (e = None \<longleftrightarrow> \<not> isl res)"
      proof (cases "ms = []")
        case True
        have "\<not> bk_stuck B1" using split None stuck bulk_begin_frame(3) [of items B] by (auto simp: sets_def)
        then show ?thesis using run' True by (auto simp: bounded_Map_def bulk_batches.simps [of _ "[]"])
      next
        case False
        then show ?thesis using run' f
          by (auto split: if_splits option.splits sum.splits intro!: exI [of _ "lctx (fl_world (bk_flow B1))"])
      qed
      then show ?thesis using split None f Inr unfolding bulk_mapped_def by blast
    qed
  qed
qed

text \<open>The hook of a runner changes neither what is spent nor where the results come from.\<close>

lemma outer_hook_frame [simp]:
  "tr_attempts (outer_hook seen r) = tr_attempts r" "bulk_map_options (outer_hook seen r) = bulk_map_options r"
  "bulk_inv (outer_hook seen r) store f bs B0 cs B \<longleftrightarrow> bulk_inv r store f bs B0 cs B"
proof -
  have "occ (outer_hook seen r) = occ r" by (simp add: outer_hook_def occ_def fun_eq_iff)
  moreover have "batch_result (outer_hook seen r) store f gs i x \<longleftrightarrow> batch_result r store f gs i x" for gs i x
    by (simp add: batch_result_def batch_failure_def outer_hook_def failed_result_def)
  moreover show at: "tr_attempts (outer_hook seen r) = tr_attempts r" by (simp add: outer_hook_def)
  ultimately show "bulk_inv (outer_hook seen r) store f bs B0 cs B \<longleftrightarrow> bulk_inv r store f bs B0 cs B"
    by (simp add: bulk_inv_def spends_def charged_def)
  show "bulk_map_options (outer_hook seen r) = bulk_map_options r" by (simp add: outer_hook_def bulk_map_options_def)
qed

lemma bulk_runner_attempts [simp]: "1 \<le> tr_attempts (bulk_runner s opts)"
  by (simp add: bulk_runner_def Let_def)

text \<open>What is known of a mapped run: its groups, misses, batches, and the invariant at its end.\<close>

lemma bulk_mapped_ends:
  assumes eg: "errgroup_spec eg" and at: "1 \<le> tr_attempts r" and sz: "0 < sz"
    and run: "bulk_mapped C eg evs seen f sz r items gs ms B B1 e B'"
  shows "bulk_groups_ok C r (bulk_store r \<noteq> None) items (length items) gs \<and> distinct (bulk_indexes ms) \<and>
    apart (bulk_batches sz ms) \<and> spends r 0 0 0 (bk_flow B) (bk_flow B1) \<and> bk_calls B1 = bk_calls B \<and>
    (\<exists>cs. bulk_inv r (bulk_store r) f (bulk_batches sz ms) B1 cs B' \<and> distinct (map fst cs) \<and>
      (e = None \<longrightarrow> set (map fst cs) = {..< length (bulk_batches sz ms)} \<and> (\<forall>c \<in> set cs. \<not> isl (snd c))))"
proof -
  from run have fine: "bulk_groups_ok C r (bulk_store r \<noteq> None) items (length items) gs" and sub: "subseq ms gs"
    and load: "sets r (set (bulk_indexes gs) - set (bulk_indexes ms)) (bulk_begin items B) B1"
    unfolding bulk_mapped_def by (auto intro: bulk_groups_fine)
  have d: "distinct (bulk_indexes ms)"
    using fine subseq_distinct [OF subseq_bulk_indexes [OF sub]] by (simp add: bulk_groups_ok_def)
  from run obtain c res where map: "bounded_Map eg (bulk_map_options r) (Some (bulk_work (outer_hook seen r) (bulk_store r) f)) c
      (bulk_batches sz ms) evs B1 = Some (res, B')" and res: "e = None \<longleftrightarrow> \<not> isl res"
    unfolding bulk_mapped_def by blast
  have ap: "apart (bulk_batches sz ms)" by (rule batches_apart [OF sz d])
  have "unspent r (bk_flow B) (bk_flow B1)" using bulk_begin_frame(1) load unfolding sets_def by (blast intro: unspent_trans)
  moreover have "bk_calls B1 = bk_calls B" using load bulk_begin_frame(2) [of items B] by (simp add: sets_def)
  moreover have "\<exists>cs. bulk_inv r (bulk_store r) f (bulk_batches sz ms) B1 cs B' \<and> distinct (map fst cs) \<and>
      (\<not> isl res \<longrightarrow> set (map fst cs) = {..< length (bulk_batches sz ms)} \<and> (\<forall>c \<in> set cs. \<not> isl (snd c)))"
    using bulk_map_ends [OF eg ap, of "outer_hook seen r"] at map by simp
  ultimately show ?thesis using fine d ap res unspent_spends by blast
qed

text \<open>At most one batch of a list satisfies \<open>X\<close>.\<close>

definition at_most_one :: "('a \<Rightarrow> bool) \<Rightarrow> 'a list \<Rightarrow> bool" where
  "at_most_one X xs \<longleftrightarrow> (\<forall>j < length xs. \<forall>k < length xs. X (xs ! j) \<longrightarrow> X (xs ! k) \<longrightarrow> j = k)"

lemma calls_per_batch:
  assumes "bulk_inv r store f bs B1 cs B" and "bk_calls B1 = []" and "distinct (map fst cs)" and "at_most_one X bs"
  shows "int (length (filter X (bk_calls B))) \<le> max 1 (tr_attempts r)"
proof -
  let ?ks = "filter (\<lambda>k. X (bs ! k)) (map fst cs)"
  have dist: "distinct ?ks" using assms(3) by simp
  have "length (filter (\<lambda>c. X (bs ! fst c)) cs) = length ?ks" by (simp add: filter_map o_def)
  also have "\<dots> = card (set ?ks)" by (simp only: distinct_card [OF dist])
  also have "\<dots> \<le> 1"
  proof (rule card_le_Suc0_iff_eq [THEN iffD2, unfolded One_nat_def [symmetric]])
    have "set (map fst cs) \<subseteq> {..< length bs}" using assms(1) by (simp add: bulk_inv_def)
    then show "\<forall>x \<in> set ?ks. \<forall>y \<in> set ?ks. x = y" using assms(4) unfolding at_most_one_def by auto
  qed simp
  finally have "int (length (filter (\<lambda>c. X (bs ! fst c)) cs)) \<le> 1" by simp
  moreover have "int (length (filter X (bk_calls B))) \<le> max 1 (tr_attempts r) * int (length (filter (\<lambda>c. X (bs ! fst c)) cs))"
    using assms(1,2) unfolding bulk_inv_def by auto
  ultimately show ?thesis by (smt (verit) mult_left_le)
qed

lemma one_batch_index: "apart bs \<Longrightarrow> at_most_one (\<lambda>b. i \<in> set (bulk_indexes b)) bs"
  unfolding apart_def at_most_one_def by blast

lemma one_batch_digest:
  assumes "0 < sz" and "distinct (map bg_digest ms)"
  shows "at_most_one (\<lambda>b. d \<in> bg_digest ` set b) (bulk_batches sz ms)"
proof -
  have "distinct (concat (map (map bg_digest) (bulk_batches sz ms)))"
    using assms(2) by (simp add: map_concat [symmetric] bulk_batches_facts(1) [OF assms(1)])
  from distinct_blocks [OF this] show ?thesis by (fastforce simp: at_most_one_def)
qed

lemma groups_at_most_indexes: "\<forall>g \<in> set gs. kg_indexes g \<noteq> [] \<Longrightarrow> length gs \<le> length (bulk_indexes gs)"
proof (induction gs)
  case (Cons g gs)
  have "1 \<le> length (kg_indexes g)" using Cons.prems by (cases "kg_indexes g") auto
  moreover have "length gs \<le> length (bulk_indexes gs)" using Cons by simp
  moreover have "length (bulk_indexes (g # gs)) = length (kg_indexes g) + length (bulk_indexes gs)" by (simp add: bulk_indexes_def)
  ultimately show ?case unfolding list.size by linarith
qed simp

lemma bulk_mapped_spend:
  assumes eg: "errgroup_spec eg" and at: "1 \<le> tr_attempts r" and sz: "0 < sz"
    and run: "bulk_mapped C eg evs seen f sz r items gs ms B B1 e B'" and none: "bk_calls B = []"
  shows "\<exists>q. spends r (int (length (bk_calls B'))) q (sum_list (map length (bk_calls B'))) (bk_flow B) (bk_flow B') \<and>
      q \<le> int ((length items + sz - 1) div sz) \<and> int (length (bk_calls B')) \<le> tr_attempts r * q"
    and "b \<in> set (bk_calls B') \<Longrightarrow> b \<noteq> [] \<and> length b \<le> sz"
    and "int (length (filter (\<lambda>b. i \<in> set (bulk_indexes b)) (bk_calls B'))) \<le> tr_attempts r"
    and "bulk_store r \<noteq> None \<Longrightarrow> int (length (filter (\<lambda>b. d \<in> bg_digest ` set b) (bk_calls B'))) \<le> tr_attempts r"
proof -
  let ?bs = "bulk_batches sz ms"
  note ends = bulk_mapped_ends [OF eg at sz run]
  then obtain cs where inv: "bulk_inv r (bulk_store r) f ?bs B1 cs B'" and dist: "distinct (map fst cs)" by blast
  have B1: "bk_calls B1 = []" "spends r 0 0 0 (bk_flow B) (bk_flow B1)" using ends none by simp_all
  have m: "max 1 (tr_attempts r) = tr_attempts r" using at by simp
  have sub: "subseq ms gs" using run by (simp add: bulk_mapped_def)
  have fine: "bulk_groups_ok C r (bulk_store r \<noteq> None) items (length items) gs" using ends by blast
  from inv obtain q where q: "set (bk_calls B') \<subseteq> set ?bs" "q \<le> int (length cs)" "int (length (bk_calls B')) \<le> tr_attempts r * q"
    "spends r (int (length (bk_calls B'))) q (sum_list (map length (bk_calls B'))) (bk_flow B1) (bk_flow B')"
    unfolding bulk_inv_def B1 m by auto
  have "length gs \<le> length (bulk_indexes gs)"
    by (rule groups_at_most_indexes) (use fine in \<open>auto simp: bulk_groups_ok_def bulk_group_ok_def\<close>)
  also have "\<dots> = length items"
    using fine distinct_card [of "bulk_indexes gs"] by (simp add: bulk_groups_ok_def)
  finally have "length ms \<le> length items" using sub not_subseq_length by (meson le_trans not_le)
  then have "length ?bs \<le> (length items + sz - 1) div sz"
    unfolding bulk_batches_facts(3) [OF sz] by (intro div_le_mono) simp
  moreover have "length cs \<le> length ?bs"
  proof -
    have "length cs = card (set (map fst cs))" using distinct_card [OF dist] by simp
    also have "\<dots> \<le> card {..< length ?bs}" using inv by (intro card_mono) (auto simp: bulk_inv_def)
    finally show ?thesis by simp
  qed
  ultimately have "q \<le> int ((length items + sz - 1) div sz)" using q(2) by linarith
  then show "\<exists>q. spends r (int (length (bk_calls B'))) q (sum_list (map length (bk_calls B'))) (bk_flow B) (bk_flow B') \<and>
      q \<le> int ((length items + sz - 1) div sz) \<and> int (length (bk_calls B')) \<le> tr_attempts r * q"
    using spends_trans [OF B1(2) q(4)] q(3) by auto
  show "b \<in> set (bk_calls B') \<Longrightarrow> b \<noteq> [] \<and> length b \<le> sz" using q(1) bulk_batches_facts(2) [OF sz] by blast
  show "int (length (filter (\<lambda>b. i \<in> set (bulk_indexes b)) (bk_calls B'))) \<le> tr_attempts r"
    using calls_per_batch [OF inv B1(1) dist one_batch_index] ends m by simp
  have "distinct (map bg_digest ms)" if "bulk_store r \<noteq> None"
    using fine that subseq_distinct [OF subseq_map [OF sub, of bg_digest]] by (simp add: bulk_groups_ok_def)
  then show "bulk_store r \<noteq> None \<Longrightarrow> int (length (filter (\<lambda>b. d \<in> bg_digest ` set b) (bk_calls B'))) \<le> tr_attempts r"
    using calls_per_batch [OF inv B1(1) dist one_batch_digest [OF sz]] m by simp
qed

lemma bulk_start_frame [simp]:
  "bk_calls (bulk_start F) = []" "\<not> bk_stuck (bulk_start F)"
  "bk_flow (bulk_start F) = F\<lparr>fl_counts := zero_report, fl_meters := []\<rparr>"
  by (simp_all add: bulk_start_def)

text \<open>C35. A bulk run never admits more than it calls for, whatever its schedule and its outcome. Each budget
  is charged one unit for every group of every provider call, for each place it stands in the limiters of
  the step's resources, and stays within its limit. Every call carries between one and
  \<open>batchSize\<close> groups; there are at most the step's attempts for each sequence that was started, and at most
  one sequence for each batch the items need. No item, and on a cached run no digest, is sent to the provider
  in more than the step's attempts.\<close>

theorem bulk_spend:
  assumes "errgroup_spec eg"
    and "bulk_engine C eg evs seen fo sz (bulk_runner s opts) items (bulk_start F) = Some (e, B)"
    and "budgets_ok (budgets (fl_world F))"
  shows "let hist = bk_calls B; r = bulk_runner s opts; m = tr_attempts r; c = fl_counts (bk_flow B) in
    budgets (fl_world (bk_flow B)) = charge_budgets (int (sum_list (map length hist))) (occ r) (budgets (fl_world F)) \<and>
    budgets_ok (budgets (fl_world (bk_flow B))) \<and>
    (\<forall>b \<in> set hist. b \<noteq> [] \<and> int (length b) \<le> sz) \<and>
    WorkCalls c = int (length hist) \<and> WorkCalls c \<le> m * StartedSequences c \<and>
    StartedSequences c \<le> int ((length items + nat sz - 1) div nat sz) \<and>
    (\<forall>i. int (length (filter (\<lambda>b. i \<in> set (bulk_indexes b)) hist)) \<le> m) \<and>
    (bulk_store r \<noteq> None \<longrightarrow> (\<forall>d. int (length (filter (\<lambda>b. d \<in> bg_digest ` set b) hist)) \<le> m))"
proof -
  let ?r = "bulk_runner s opts"
  have at: "1 \<le> tr_attempts ?r" by simp
  from bulk_engine_cases [OF assms(2) bulk_start_frame(2)] show ?thesis
  proof (elim disjE exE conjE)
    assume "unspent ?r (bk_flow (bulk_start F)) (bk_flow B)" and no: "bk_calls B = bk_calls (bulk_start F)"
    from unspent_spends [OF this(1)] have "WorkCalls (fl_counts (bk_flow B)) = 0" "StartedSequences (fl_counts (bk_flow B)) = 0"
      "budgets (fl_world (bk_flow B)) = budgets (fl_world F)" "bk_calls B = []"
      using no by (simp_all add: spends_def charged_def zero_report_def)
    moreover have "0 \<le> tr_attempts ?r" using at by linarith
    ultimately show ?thesis using assms(3) by (simp add: Let_def)
  next
    fix f gs ms B1
    assume sz: "1 \<le> sz" and map: "bulk_mapped C eg evs seen f (nat sz) ?r items gs ms (bulk_start F) B1 e B"
    have sz': "0 < nat sz" using sz by simp
    note facts = bulk_mapped_spend [OF assms(1) at sz' map bulk_start_frame(1)]
    from facts(1) obtain q where q: "spends ?r (int (length (bk_calls B))) q (sum_list (map length (bk_calls B)))
        (F\<lparr>fl_counts := zero_report, fl_meters := []\<rparr>) (bk_flow B)"
      "q \<le> int ((length items + nat sz - 1) div nat sz)" "int (length (bk_calls B)) \<le> tr_attempts ?r * q" by auto
    have sized: "\<forall>b \<in> set (bk_calls B). b \<noteq> [] \<and> int (length b) \<le> sz"
      using facts(2) sz by (metis int_nat_eq nat_int nat_mono of_nat_mono order_trans zero_le_one)
    from q(1) have counts: "WorkCalls (fl_counts (bk_flow B)) = int (length (bk_calls B))" "StartedSequences (fl_counts (bk_flow B)) = q"
      by (simp_all add: spends_def zero_report_def)
    from q(1) have "budgets (fl_world (bk_flow B)) = charge_budgets (int (sum_list (map length (bk_calls B)))) (occ ?r) (budgets (fl_world F)) \<and>
      budgets_ok (budgets (fl_world (bk_flow B)))"
      using assms(3) by (auto simp: spends_def charged_def)
    then show ?thesis unfolding Let_def counts using sized q(2,3) facts(3,4) by blast
  qed
qed

theorem bulk_spend_witness:
  "\<exists>B. bulk_engine demo_codec first_group [FeedTo 0, Admit 0, Finish 0, FeedTo 1, FeedClose, Admit 1, Finish 1, Drain 0, Drain 1]
       (\<lambda>i. None) (Some batch_demo) 2 (bulk_runner demo_step (demo_flow\<lparr>fo_Store := None\<rparr>)) [''a'', ''bb'', ''a''] (bulk_start demo_state)
     = Some (None, B) \<and> map length (bk_calls B) = [2, 2, 1] \<and>
     (\<forall>i. int (length (filter (\<lambda>b. i \<in> set (bulk_indexes b)) (bk_calls B))) \<le> 2)"
proof -
  let ?run = "bulk_engine demo_codec first_group [FeedTo 0, Admit 0, Finish 0, FeedTo 1, FeedClose, Admit 1, Finish 1, Drain 0, Drain 1]
       (\<lambda>i. None) (Some batch_demo) 2 (bulk_runner demo_step (demo_flow\<lparr>fo_Store := None\<rparr>)) [''a'', ''bb'', ''a''] (bulk_start demo_state)"
  have "bulk_seen ?run = Some (True, [Some ''a!'', Some ''bb!'', Some ''a!''], [2, 2, 1], 3)" by code_simp
  then obtain B where B: "?run = Some (None, B)" "map length (bk_calls B) = [2, 2, 1]" by (rule bulk_seen_run)
  have "tr_attempts (bulk_runner demo_step (demo_flow\<lparr>fo_Store := None\<rparr>)) = 2" by (simp add: bulk_runner_def demo_step_def Let_def)
  moreover have "budgets_ok (budgets (fl_world demo_state))" by (simp add: demo_state_def empty_world_def budgets_ok_def)
  note bulk_spend [OF first_group_spec B(1) this]
  ultimately show ?thesis using B unfolding Let_def by auto
qed

text \<open>Where the result of item \<open>i\<close> of a run comes from: a hit under its own digest, which no call was made
  for; or the batch of its group.\<close>

definition item_of_hit :: "'k codec \<Rightarrow> ('v, 'v, 's, 'c, 'u) typed_runner \<Rightarrow> 'v list \<Rightarrow> 'v bulk_group list list \<Rightarrow> nat \<Rightarrow> 'v fresult \<Rightarrow> bool" where
  "item_of_hit C r items hist i x \<longleftrightarrow> (\<exists>ops g v. bulk_store r = Some ops \<and> bulk_group_ok C r True items g \<and>
     i \<in> set (kg_indexes g) \<and> group_hit ops g v \<and> x = fresh_result v (hit_outcome g) \<and>
     (\<forall>b \<in> set hist. i \<notin> set (bulk_indexes b)))"

definition item_of_batch :: "'k codec \<Rightarrow> ('v, 'v, 's, 'c, 'u) typed_runner \<Rightarrow> ('v, 'u) bulk_fun \<Rightarrow> 'v list \<Rightarrow> nat \<Rightarrow> 'v fresult \<Rightarrow> bool" where
  "item_of_batch C r f items i x \<longleftrightarrow> (\<exists>gs. (\<forall>g \<in> set gs. bulk_group_ok C r (bulk_store r \<noteq> None) items g) \<and>
     i \<in> set (bulk_indexes gs) \<and> batch_result r (bulk_store r) f gs i x)"

lemma one_group:
  assumes "distinct (bulk_indexes gs)" and "g \<in> set gs" and "g' \<in> set gs" and "i \<in> set (kg_indexes g)" and "i \<in> set (kg_indexes g')"
  shows "g = g'"
proof -
  from assms(2,3) obtain j k where jk: "j < length gs" "g = gs ! j" "k < length gs" "g' = gs ! k" by (metis in_set_conv_nth)
  have "j = k" by (rule distinct_blocks [OF assms(1) [unfolded bulk_indexes_def]]) (use jk assms(4,5) in simp_all)
  then show ?thesis using jk by simp
qed

lemma bulk_mapped_items:
  assumes eg: "errgroup_spec eg" and at: "1 \<le> tr_attempts r" and sz: "0 < sz"
    and run: "bulk_mapped C eg evs seen f sz r items gs ms B B1 None B'" and none: "bk_calls B = []"
  shows "length (bk_results B') = length items"
    and "i < length items \<Longrightarrow> item_of_hit C r items (bk_calls B') i (bk_results B' ! i) \<or>
      item_of_batch C r f items i (bk_results B' ! i)"
proof -
  let ?bs = "bulk_batches sz ms"
  note ends = bulk_mapped_ends [OF eg at sz run]
  then obtain cs where inv: "bulk_inv r (bulk_store r) f ?bs B1 cs B'" and ks: "set (map fst cs) = {..< length ?bs}"
    "\<forall>c \<in> set cs. \<not> isl (snd c)" by blast
  have B1: "bk_calls B1 = []" using ends none by simp
  have fine: "bulk_groups_ok C r (bulk_store r \<noteq> None) items (length items) gs" using ends by blast
  have sub: "subseq ms gs" and stuck: "\<not> bk_stuck B'" using run by (auto simp: bulk_mapped_def)
  have batches: "concat ?bs = ms" by (rule bulk_batches_facts(1) [OF sz])
  have in_ms: "set b \<subseteq> set ms" if "b \<in> set ?bs" for b using that arg_cong [OF batches, of set] by auto
  have len1: "length (bk_results B1) = length items"
    using run bulk_begin_frame(4) [of items B] by (simp add: bulk_mapped_def sets_def)
  show "length (bk_results B') = length items" using inv len1 by (simp add: bulk_inv_def)
  assume i: "i < length items"
  then have "i \<in> set (bulk_indexes gs)" using fine by (simp add: bulk_groups_ok_def)
  then obtain g where g: "g \<in> set gs" "i \<in> set (kg_indexes g)" by (auto simp: bulk_indexes_def)
  have g_ok: "bulk_group_ok C r (bulk_store r \<noteq> None) items g" using fine g(1) by (simp add: bulk_groups_ok_def)
  show "item_of_hit C r items (bk_calls B') i (bk_results B' ! i) \<or> item_of_batch C r f items i (bk_results B' ! i)"
  proof (cases "g \<in> set ms")
    case True
    then obtain b where b: "b \<in> set ?bs" "g \<in> set b" using batches by (metis in_set_conv_decomp set_concat UN_iff)
    then obtain k where k: "k < length ?bs" "?bs ! k = b" by (metis in_set_conv_nth)
    then obtain c where c: "c \<in> set cs" "fst c = k" using ks(1) by (metis imageE lessThan_iff list.set_map)
    have ib: "i \<in> set (bulk_indexes b)" using b(2) g(2) by (auto simp: bulk_indexes_def)
    then have "batch_result r (bulk_store r) f b i (bk_results B' ! i)"
      using inv stuck c ks(2) i len1 k(2) unfolding bulk_inv_def by auto
    moreover have "\<forall>g \<in> set b. bulk_group_ok C r (bulk_store r \<noteq> None) items g"
      using in_ms [OF b(1)] sub fine by (auto simp: bulk_groups_ok_def subseq_conv_nths dest: in_set_nthsD)
    ultimately show ?thesis using ib unfolding item_of_batch_def by blast
  next
    case False
    then obtain ops v where hit: "bulk_store r = Some ops" "group_hit ops g v" "bk_results B1 ! i = fresh_result v (hit_outcome g)"
      using run g i unfolding bulk_mapped_def by blast
    have out: "i \<notin> set (kg_indexes g')" if "g' \<in> set ms" for g'
    proof
      assume "i \<in> set (kg_indexes g')"
      moreover have "g' \<in> set gs" using that sub by (auto simp: subseq_conv_nths dest: in_set_nthsD)
      ultimately have "g' = g" using g fine by (intro one_group [of gs]) (simp_all add: bulk_groups_ok_def)
      then show False using that False by simp
    qed
    have apart_i: "i \<notin> set (bulk_indexes b)" if "b \<in> set ?bs" for b
      using in_ms [OF that] out by (auto simp: bulk_indexes_def)
    have "bk_results B' ! i = bk_results B1 ! i"
    proof -
      have "\<forall>c \<in> set cs. i \<notin> set (bulk_indexes (?bs ! fst c))" using apart_i ks(1) by (metis imageI lessThan_iff list.set_map nth_mem)
      then show ?thesis using inv unfolding bulk_inv_def by blast
    qed
    moreover have "set (bk_calls B') \<subseteq> set ?bs" using inv unfolding bulk_inv_def B1 by auto
    ultimately show ?thesis using hit g_ok g(2) apart_i unfolding item_of_hit_def by auto
  qed
qed

text \<open>C36. A bulk run without error returns one result for every item, at the item's index, whatever the schedule
  of the workers. It is the value loaded under the item's own digest, and then no call carried the item; or
  the value at the position of the item's group in an answer that had one value for each group of the call; or
  the mark the step's policy gives to a batch whose last answer was an error, and then that error is not fatal
  and, when it is transient, came with the step's last attempt.\<close>

theorem bulk_aligned:
  assumes "errgroup_spec eg"
    and "bulk_engine C eg evs seen (Some f) sz (bulk_runner s opts) items (bulk_start F) = Some (None, B)"
  shows "length (bk_results B) = length items \<and>
    (\<forall>i < length items. item_of_hit C (bulk_runner s opts) items (bk_calls B) i (bk_results B ! i) \<or>
       item_of_batch C (bulk_runner s opts) f items i (bk_results B ! i))"
proof -
  from bulk_engine_cases [OF assms(2) bulk_start_frame(2)] obtain gs ms B1 where sz: "1 \<le> sz"
    and map: "bulk_mapped C eg evs seen f (nat sz) (bulk_runner s opts) items gs ms (bulk_start F) B1 None B" by auto
  have "0 < nat sz" using sz by simp
  from bulk_mapped_items [OF assms(1) bulk_runner_attempts this map bulk_start_frame(1)] show ?thesis by blast
qed

theorem bulk_aligned_witness:
  "\<exists>B. bulk_engine demo_codec first_group [FeedTo 0, Admit 0, Finish 0, FeedClose, Drain 0]
       (\<lambda>i. None) (Some batch_demo) 2 (bulk_runner demo_step demo_flow) [''a'', ''a''] (bulk_start demo_state) = Some (None, B) \<and>
     map re_Value (bk_results B) = [Some ''a!'', Some ''a!''] \<and> map length (bk_calls B) = [1, 1] \<and> length (bk_results B) = 2"
proof -
  let ?run = "bulk_engine demo_codec first_group [FeedTo 0, Admit 0, Finish 0, FeedClose, Drain 0]
       (\<lambda>i. None) (Some batch_demo) 2 (bulk_runner demo_step demo_flow) [''a'', ''a''] (bulk_start demo_state)"
  have "bulk_seen ?run = Some (True, [Some ''a!'', Some ''a!''], [1, 1], 2)" by code_simp
  then obtain B where B: "?run = Some (None, B)" "map re_Value (bk_results B) = [Some ''a!'', Some ''a!'']"
    "map length (bk_calls B) = [1, 1]" by (rule bulk_seen_run)
  from bulk_aligned [OF first_group_spec B(1)] B show ?thesis by simp
qed

end
