(* ===== verification/Batched.thy ===== *)
theory Batched
  imports Bulk
begin

text \<open>
  Batching with repair, \<open>Batched\<close>, \<open>remappedLedger\<close> and \<open>runBatched\<close> of \<open>src/flow/batch.go\<close>: items
  share the calls of a group step, and what its answers miss goes through a repair step.

  The engine calls \<open>Run\<close> twice. The group step works on whole groups and gives raw text: its values are
  \<open>group_value\<close>s, and \<open>raw\<close> is the run's store at that type (the code's \<open>Store\<close> is generic in the value).
  Both nested runs find the environment of the run they stand in, so their own rates and preflight are
  never read. \<open>sched\<close> and \<open>resched\<close> are the schedules of the two runs; \<open>None\<close> also stands for the panic
  of an index out of range. The reports a reporter would find while the engine runs are the \<open>reps\<close> of
  \<open>core_override\<close>.
\<close>

section \<open>The group step\<close>

datatype 'v group_value = Members "'v list" | Raw string

fun members :: "'v group_value \<Rightarrow> 'v list" where
  "members (Members xs) = xs"
| "members (Raw t) = []"

text \<open>The text of a raw response; the zero value is empty.\<close>

fun raw_text :: "'v group_value option \<Rightarrow> string" where
  "raw_text (Some (Raw t)) = t"
| "raw_text _ = []"

type_synonym 'v parsed = "(int \<times> 'v) list \<times> err option"

record ('v, 'u) batch_spec =
  sp_Name :: string
  sp_Identity :: "'v list Identity"
  sp_Policy :: "float64 policy"
  sp_Group :: "('v list \<Rightarrow> 'u \<Rightarrow> int list list \<times> 'u) option"
  sp_DoAll :: "(ctx \<Rightarrow> 'v list \<Rightarrow> 'u \<Rightarrow> string \<times> err option \<times> 'u) option"
  sp_Split :: "(string \<Rightarrow> 'v list \<Rightarrow> 'u \<Rightarrow> 'v parsed \<times> 'u) option"

definition group_step :: "string \<Rightarrow> ('v, 'u) batch_spec \<Rightarrow> ('v group_value, 's, 'c, 'u) full_step" where
  "group_step name spec =
     \<lparr>st_step = \<lparr>fs_Name = name,
        fs_Identity = \<lparr>id_Kind = id_Kind (sp_Identity spec), id_Version = id_Version (sp_Identity spec),
          id_Key = map_option (\<lambda>f x. f (members x)) (id_Key (sp_Identity spec))\<rparr>,
        fs_Policy = sp_Policy spec, fs_Barrier = False,
        fs_Do = map_option (\<lambda>f c x u. case f c (members x) u of (t, e, u') \<Rightarrow> (Raw t, e, u')) (sp_DoAll spec),
        fs_Meter = None, fs_AttemptMeter = None, fs_OnResult = None\<rparr>,
      st_accepts = (\<lambda>x. case x of Members _ \<Rightarrow> True | Raw _ \<Rightarrow> False), st_override = None, st_validateOverride = None,
      st_extraPlans = [], st_extraPolicies = [], st_stages = None\<rparr>"

text \<open>Every index of a group is an item, and no item stands in two places.\<close>

fun cover_group :: "string \<Rightarrow> nat \<Rightarrow> int list \<Rightarrow> bool list \<Rightarrow> bool list result" where
  "cover_group name k [] covered = Inr covered"
| "cover_group name k (i # is) covered =
     (if i < 0 \<or> int (length covered) \<le> i
      then Inl (Errorf ''batched step %q: group %d references item %d outside [0,%d)''
             [FStr name, FInt (int k), FInt i, FInt (int (length covered))] None)
      else if covered ! nat i
      then Inl (Errorf ''batched step %q: item %d appears in more than one group'' [FStr name, FInt i] None)
      else cover_group name k is (covered[nat i := True]))"

fun cover_groups :: "string \<Rightarrow> nat \<Rightarrow> int list list \<Rightarrow> bool list \<Rightarrow> bool list result" where
  "cover_groups name k [] covered = Inr covered"
| "cover_groups name k (g # gs) covered =
     (case cover_group name k g covered of Inl e \<Rightarrow> Inl e | Inr covered' \<Rightarrow> cover_groups name (Suc k) gs covered')"

definition group_inputs :: "'v list \<Rightarrow> int list list \<Rightarrow> 'v list list" where
  "group_inputs items groups = map (map (\<lambda>i. items ! nat i)) groups"

section \<open>Options of the nested runs\<close>

definition remappedLedger :: "nat list \<Rightarrow> 'u Ledger \<Rightarrow> 'u Ledger" where
  "remappedLedger indexes inner c ev u =
     inner c (if 0 \<le> ev_Index ev \<and> ev_Index ev < int (length indexes)
              then ev\<lparr>ev_Index := int (indexes ! nat (ev_Index ev))\<rparr> else ev) u"

definition nested_in :: "('v, 's, 'c, 'u) flow_options \<Rightarrow> ('v, 's, 'c, 'u) run_options" where
  "nested_in opts = \<lparr>ro_flow = opts\<lparr>fo_obs := (fo_obs opts)\<lparr>oo_Reporter := None\<rparr>\<rparr>, ro_Rates = [], ro_Preflight = None, ro_fresh = 0\<rparr>"

definition group_options :: "(('v, 's) store_ops \<Rightarrow> ('v group_value, 's) store_ops) \<Rightarrow> ('v, 's, 'c, 'u) flow_options \<Rightarrow>
    ('v group_value, 's, 'c, 'u) run_options" where
  "group_options raw opts = nested_in \<lparr>fo_Store = map_option raw (fo_Store opts), fo_obs = fo_obs opts, fo_env = fo_env opts,
     fo_custom = fo_custom opts, fo_int63n = fo_int63n opts\<rparr>"

definition repair_options :: "nat list \<Rightarrow> ('v, 's, 'c, 'u) flow_options \<Rightarrow> ('v, 's, 'c, 'u) run_options" where
  "repair_options todo opts =
     nested_in (opts\<lparr>fo_obs := (fo_obs opts)\<lparr>oo_Ledger := map_option (remappedLedger todo) (oo_Ledger (fo_obs opts))\<rparr>\<rparr>)"

definition repair_for_run :: "nat list \<Rightarrow> ('v, 's, 'c, 'u) full_step \<Rightarrow> ('v, 's, 'c, 'u) full_step" where
  "repair_for_run todo repair = repair\<lparr>st_step := (st_step repair)\<lparr>fs_OnResult :=
     map_option (\<lambda>hook c i. hook c (int (todo ! nat i))) (fs_OnResult (st_step repair))\<rparr>\<rparr>"

section \<open>What the groups answered\<close>

text \<open>What the engine works on beside the state of the run: the results and the items to repair.\<close>

record 'v answers =
  an_results :: "'v fresult list"
  an_missing :: "nat list"

definition miss :: "nat \<Rightarrow> 'v answers \<Rightarrow> 'v answers" where
  "miss i a = a\<lparr>an_missing := an_missing a @ [i]\<rparr>"

definition answer :: "nat \<Rightarrow> 'v fresult \<Rightarrow> 'v answers \<Rightarrow> 'v answers" where
  "answer i x a = a\<lparr>an_results := (an_results a)[i := x]\<rparr>"

text \<open>The result hook of the batched step is called with the context of the run.\<close>

fun split_items :: "('v, 'v, 's, 'c, 'u) typed_runner \<Rightarrow> 'v parsed \<Rightarrow> nat \<Rightarrow> nat list \<Rightarrow> 'v answers \<Rightarrow> ('s, 'c, 'u) flow_state \<Rightarrow>
    err option \<times> 'v answers \<times> ('s, 'c, 'u) flow_state" where
  "split_items r parsed p [] a S = (None, a, S)"
| "split_items r parsed p (i # is) a S =
     (if snd parsed \<noteq> None then split_items r parsed (Suc p) is (miss i a) S
      else case map_of (fst parsed) (int p) of
        None \<Rightarrow> split_items r parsed (Suc p) is (miss i a) S
      | Some v \<Rightarrow>
          let a' = answer i (zero_result\<lparr>re_Value := Some v\<rparr>) a in
          (case notify r (int i) v zero_outcome S of
             (Some e, S1) \<Rightarrow> (Some e, a', S1)
           | (None, S1) \<Rightarrow> split_items r parsed (Suc p) is a' S1))"

definition flagged_result :: "'v fresult \<Rightarrow> bool" where
  "flagged_result x \<longleftrightarrow> re_Quarantined x \<noteq> None \<or> re_Skipped x"

fun split_groups :: "('v, 'v, 's, 'c, 'u) typed_runner \<Rightarrow> (string \<Rightarrow> 'v list \<Rightarrow> 'u \<Rightarrow> 'v parsed \<times> 'u) \<Rightarrow>
    ((nat list \<times> 'v list) \<times> 'v group_value fresult) list \<Rightarrow> 'v answers \<Rightarrow> ('s, 'c, 'u) flow_state \<Rightarrow>
    err option \<times> 'v answers \<times> ('s, 'c, 'u) flow_state" where
  "split_groups r split [] a S = (None, a, S)"
| "split_groups r split (((is, xs), raw) # gs) a S =
     (if flagged_result raw then split_groups r split gs (fold miss is a) S
      else case split (raw_text (re_Value raw)) xs (fl_user S) of
        (parsed, u) \<Rightarrow>
          (case split_items r parsed 0 is a (S\<lparr>fl_user := u\<rparr>) of
             (Some e, a', S1) \<Rightarrow> (Some e, a', S1)
           | (None, a', S1) \<Rightarrow> split_groups r split gs a' S1))"

section \<open>What the repairs gave\<close>

definition moved_to :: "nat \<Rightarrow> 'v fresult \<Rightarrow> 'v fresult" where
  "moved_to i x = x\<lparr>re_Quarantined := map_option (\<lambda>q. q\<lparr>ie_Index := int i\<rparr>) (re_Quarantined x)\<rparr>"

text \<open>The value the hook gets is the zero value where the result has none.\<close>

fun take_repairs :: "('v, 'v, 's, 'c, 'u) typed_runner \<Rightarrow> 'v \<Rightarrow> (nat \<times> 'v fresult) list \<Rightarrow> 'v answers \<Rightarrow> ('s, 'c, 'u) flow_state \<Rightarrow>
    err option \<times> 'v answers \<times> ('s, 'c, 'u) flow_state" where
  "take_repairs r zero [] a S = (None, a, S)"
| "take_repairs r zero ((i, x) # ps) a S =
     (let x' = moved_to i x; a' = answer i x' a in
      if flagged_result x' then take_repairs r zero ps a' S
      else case notify r (int i) (case re_Value x' of Some v \<Rightarrow> v | None \<Rightarrow> zero) (re_Cache x') S of
        (Some e, S1) \<Rightarrow> (Some e, a', S1)
      | (None, S1) \<Rightarrow> take_repairs r zero ps a' S1)"

section \<open>runBatched\<close>

definition batched_invalid :: "('v, 's, 'c, 'u) full_step \<Rightarrow> ('v, 'u) batch_spec \<Rightarrow> string \<Rightarrow> err option" where
  "batched_invalid repair spec name =
     (if sp_Group spec = None \<or> sp_DoAll spec = None \<or> sp_Split spec = None
      then Some (Errorf ''batched step %q needs Group, DoAll, and Split'' [FStr name] None)
      else if fs_Do (st_step repair) = None \<and> st_override repair = None \<and> st_stages repair = None
      then Some (Errorf ''batched step %q needs a runnable repair step'' [FStr name] None)
      else None)"

text \<open>The part after the group run.\<close>

definition repair_missing :: "'k codec \<Rightarrow> 'v \<Rightarrow> pipe_move list \<Rightarrow> ('v, 's, 'c, 'u) full_step \<Rightarrow> ('v, 'v, 's, 'c, 'u) typed_runner \<Rightarrow>
    ('v, 's, 'c, 'u) flow_options \<Rightarrow> 'v list \<Rightarrow> report \<Rightarrow> 'v answers \<Rightarrow> ('s, 'c, 'u) run_state \<Rightarrow>
    ('v run_outcome \<times> ('s, 'c, 'u) run_state) option" where
  "repair_missing C zero resched repair r opts items rep a S =
     (let todo = an_missing a in
      if todo = [] then Some ((an_results a, rep, None), S)
      else (case Run C zero [] resched (repair_for_run todo repair) (map (\<lambda>i. items ! i) todo) (repair_options todo opts) S of
          None \<Rightarrow> None
        | Some ((repaired, rep', err), S1) \<Rightarrow>
            let rep = report_merge rep rep' in
            (case err of
               Some e \<Rightarrow> Some (([], rep, Some e), S1)
             | None \<Rightarrow>
                 if length repaired < length todo then None
                 else (case take_repairs r zero (zip todo repaired) a (rn_flow S1) of
                     (Some e, a', F) \<Rightarrow> Some (([], rep, Some e), S1\<lparr>rn_flow := F\<rparr>)
                   | (None, a', F) \<Rightarrow> Some ((an_results a', rep, None), S1\<lparr>rn_flow := F\<rparr>)))))"

definition uncovered :: "bool list \<Rightarrow> nat list" where
  "uncovered covered = filter (\<lambda>i. \<not> covered ! i) [0 ..< length covered]"

definition runBatched :: "'k codec \<Rightarrow> 'v \<Rightarrow> (('v, 's) store_ops \<Rightarrow> ('v group_value, 's) store_ops) \<Rightarrow> pipe_move list \<Rightarrow> pipe_move list \<Rightarrow>
    ('v, 's, 'c, 'u) full_step \<Rightarrow> ('v, 'u) batch_spec \<Rightarrow> ('v, 's, 'c, 'u) override" where
  "runBatched C zero raw sched resched repair spec s opts items S =
     (let name = fs_Name s; r = bulk_runner s opts in
      case batched_invalid repair spec name of
        Some e \<Rightarrow> Some (([], [], Some e), S)
      | None \<Rightarrow>
     (case the (sp_Group spec) items (fl_user (rn_flow S)) of (groups, u) \<Rightarrow>
      let S1 = S\<lparr>rn_flow := (rn_flow S)\<lparr>fl_user := u\<rparr>\<rparr> in
     (case cover_groups name 0 groups (replicate (length items) False) of
        Inl e \<Rightarrow> Some (([], [], Some e), S1)
      | Inr covered \<Rightarrow>
          let inputs = group_inputs items groups in
     (case Run C (Raw []) [] sched (group_step name (spec\<lparr>sp_Name := name, sp_Policy := fs_Policy s\<rparr>)) (map Members inputs)
             (group_options raw opts) S1 of
        None \<Rightarrow> None
      | Some ((raws, rep, err), S2) \<Rightarrow>
          let rep = report_merge [] rep in
          (case err of
             Some e \<Rightarrow> Some (([], rep, Some e), S2)
           | None \<Rightarrow>
               if length groups < length raws then None
               else (case split_groups r (the (sp_Split spec)) (zip (zip (map (map nat) groups) inputs) raws)
                           \<lparr>an_results = replicate (length items) zero_result, an_missing = uncovered covered\<rparr> (rn_flow S2) of
                   (Some e, a, F) \<Rightarrow> Some (([], rep, Some e), S2\<lparr>rn_flow := F\<rparr>)
                 | (None, a, F) \<Rightarrow> repair_missing C zero resched repair r opts items rep a (S2\<lparr>rn_flow := F\<rparr>)))))))"

definition Batched :: "'k codec \<Rightarrow> 'v \<Rightarrow> (('v, 's) store_ops \<Rightarrow> ('v group_value, 's) store_ops) \<Rightarrow> pipe_move list \<Rightarrow> pipe_move list \<Rightarrow>
    ('v \<Rightarrow> bool) \<Rightarrow> ('v, 's, 'c, 'u) full_step \<Rightarrow> ('v, 'u) batch_spec \<Rightarrow> ('v, 's, 'c, 'u) full_step" where
  "Batched C zero raw sched resched accepts repair spec =
     (let name = (if sp_Name spec = [] then fs_Name (st_step repair) @ ''-groups'' else sp_Name spec) in
      \<lparr>st_step = \<lparr>fs_Name = name, fs_Identity = \<lparr>id_Kind = [], id_Version = [], id_Key = None\<rparr>, fs_Policy = sp_Policy spec,
         fs_Barrier = False, fs_Do = None, fs_Meter = None, fs_AttemptMeter = None, fs_OnResult = None\<rparr>,
       st_accepts = accepts,
       st_override = Some (runBatched C zero raw sched resched repair spec),
       st_validateOverride = Some (\<lambda>current. batched_invalid repair spec (fs_Name current)),
       st_extraPlans = policyPlans (fs_Name (st_step repair)) (fs_Policy (st_step repair)),
       st_extraPolicies = [(fs_Name (st_step repair), fs_Policy (st_step repair))], st_stages = None\<rparr>)"

end
