(* ===== verification/Batched_Facts.thy ===== *)
theory Batched_Facts
  imports Batched Pipeline_Facts
begin

text \<open>
  Where the results of a batched run come from: every item is in at most one group, is answered by its
  group or repaired, and is repaired at most once.
\<close>

section \<open>The groups\<close>

lemma cover_group_ok:
  assumes "cover_group name k g covered = Inr covered'"
  shows "length covered' = length covered \<and> (\<forall>i \<in> set g. 0 \<le> i \<and> i < int (length covered) \<and> \<not> covered ! nat i) \<and> distinct g \<and>
    (\<forall>j < length covered. covered' ! j \<longleftrightarrow> covered ! j \<or> int j \<in> set g)"
  using assms
proof (induction g arbitrary: covered)
  case (Cons i g)
  then have i: "0 \<le> i" "i < int (length covered)" "\<not> covered ! nat i"
    and run: "cover_group name k g (covered[nat i := True]) = Inr covered'"
    by (auto split: if_splits)
  note IH = Cons.IH [OF run]
  have ni: "nat i < length covered" using i by simp
  have "i \<notin> set g" using IH ni by auto
  moreover have "\<not> covered ! nat j" if "j \<in> set g" for j
    using IH that ni by (cases "nat j = nat i") (auto simp: nth_list_update)
  moreover have "covered' ! j \<longleftrightarrow> covered ! j \<or> int j \<in> set (i # g)" if "j < length covered" for j
    using IH that i by (cases "int j = i") (auto simp: nth_list_update)
  ultimately show ?case using IH i by auto
qed simp

lemma cover_groups_ok:
  assumes "cover_groups name k gs covered = Inr covered'"
  shows "length covered' = length covered \<and> (\<forall>i \<in> set (concat gs). 0 \<le> i \<and> i < int (length covered) \<and> \<not> covered ! nat i) \<and>
    distinct (concat gs) \<and> (\<forall>j < length covered. covered' ! j \<longleftrightarrow> covered ! j \<or> int j \<in> set (concat gs))"
  using assms
proof (induction gs arbitrary: k covered)
  case (Cons g gs)
  then obtain c1 where one: "cover_group name k g covered = Inr c1" and run: "cover_groups name (Suc k) gs c1 = Inr covered'"
    by (auto split: sum.splits)
  note A = cover_group_ok [OF one] and B = Cons.IH [OF run]
  have "i \<notin> set (concat gs)" if "i \<in> set g" for i
    using A B that by (metis int_nat_eq nat_less_iff)
  moreover have "\<not> covered ! nat i" if "i \<in> set (concat gs)" for i
    using A B that by (metis nat_less_iff)
  ultimately show ?case using A B by auto
qed simp

text \<open>The items in no group, and the items of the groups, are all items, each once.\<close>

lemma cover_partition:
  assumes "cover_groups name 0 groups (replicate n False) = Inr covered"
  shows "distinct (uncovered covered @ map nat (concat groups))"
    and "set (uncovered covered @ map nat (concat groups)) = {..< n}"
    and "\<forall>i \<in> set (concat groups). 0 \<le> i \<and> i < int n" and "distinct (concat groups)"
proof -
  note A = cover_groups_ok [OF assms]
  show range: "\<forall>i \<in> set (concat groups). 0 \<le> i \<and> i < int n" and d: "distinct (concat groups)" using A by auto
  have len: "length covered = n" using A by simp
  have cov: "covered ! j \<longleftrightarrow> int j \<in> set (concat groups)" if "j < n" for j using A that by auto
  have "inj_on nat (set (concat groups))" by (rule inj_onI) (metis range int_nat_eq)
  then have "distinct (map nat (concat groups))" using d by (simp add: distinct_map)
  moreover have un: "set (uncovered covered) = {j. j < n \<and> int j \<notin> set (concat groups)}"
    using cov len by (auto simp: uncovered_def)
  moreover have on: "set (map nat (concat groups)) = {j. j < n \<and> int j \<in> set (concat groups)}"
  proof (rule set_eqI, rule iffI)
    fix j
    assume "j \<in> set (map nat (concat groups))"
    then obtain i where i: "i \<in> set (concat groups)" "j = nat i" unfolding set_map by blast
    then show "j \<in> {j. j < n \<and> int j \<in> set (concat groups)}" using range [THEN bspec, OF i(1)]
      by (auto simp: nat_less_iff)
  next
    fix j
    assume "j \<in> {j. j < n \<and> int j \<in> set (concat groups)}"
    then have "nat (int j) \<in> set (map nat (concat groups))" unfolding set_map by blast
    then show "j \<in> set (map nat (concat groups))" by (simp only: nat_int)
  qed
  moreover have "distinct (uncovered covered)" by (simp add: uncovered_def)
  ultimately show "distinct (uncovered covered @ map nat (concat groups))" by auto
  show "set (uncovered covered @ map nat (concat groups)) = {..< n}" unfolding set_append un on by auto
qed

section \<open>Answers and repairs\<close>

text \<open>The items of \<open>dones\<close> went through the groups: each has a result with \<open>P\<close> or is to be repaired.\<close>

definition answers_ok :: "(nat \<Rightarrow> 'v fresult \<Rightarrow> bool) \<Rightarrow> nat \<Rightarrow> nat list \<Rightarrow> 'v answers \<Rightarrow> bool" where
  "answers_ok P n dones a \<longleftrightarrow> length (an_results a) = n \<and> distinct (an_missing a) \<and> set (an_missing a) \<subseteq> set dones \<and>
     (\<forall>i \<in> set dones. i \<in> set (an_missing a) \<or> P i (an_results a ! i))"

lemma answers_miss:
  assumes "answers_ok P n dones a" and "i \<notin> set dones"
  shows "answers_ok P n (dones @ [i]) (miss i a)"
  using assms by (auto simp: answers_ok_def miss_def)

lemma answers_answer:
  assumes "answers_ok P n dones a" and "i \<notin> set dones" and "i < n" and "P i x"
  shows "answers_ok P n (dones @ [i]) (answer i x a)"
proof -
  have "an_results (answer i x a) ! j = an_results a ! j" if "j \<in> set dones" for j
    using assms(2) that by (cases "i = j") (simp_all add: answer_def)
  then show ?thesis using assms by (auto simp: answers_ok_def answer_def)
qed

lemma answers_miss_all:
  assumes "answers_ok P n dones a" and "distinct (dones @ is)"
  shows "answers_ok P n (dones @ is) (fold miss is a)"
  using assms
proof (induction "is" arbitrary: dones a)
  case (Cons i "is")
  from answers_miss [OF Cons.prems(1), of i] Cons.prems(2) have "answers_ok P n (dones @ [i]) (miss i a)" by simp
  from Cons.IH [OF this] Cons.prems(2) show ?case by simp
qed simp

lemma split_items_ok:
  assumes "split_items r parsed p is a S = (None, a', S')" and "answers_ok P n dones a" and "distinct (dones @ is)"
    and "set is \<subseteq> {..< n}"
    and "\<And>q v. snd parsed = None \<Longrightarrow> q < length is \<Longrightarrow> map_of (fst parsed) (int (p + q)) = Some v \<Longrightarrow>
      P (is ! q) (zero_result\<lparr>re_Value := Some v\<rparr>)"
  shows "answers_ok P n (dones @ is) a'"
  using assms
proof (induction "is" arbitrary: p a S dones)
  case (Cons i "is")
  have rest: "P (is ! q) (zero_result\<lparr>re_Value := Some v\<rparr>)"
    if "snd parsed = None" "q < length is" "map_of (fst parsed) (int (Suc p + q)) = Some v" for q v
    using Cons.prems(5) [of "Suc q" v] that by simp
  show ?case
  proof (cases "snd parsed \<noteq> None \<or> map_of (fst parsed) (int p) = None")
    case True
    then have run: "split_items r parsed (Suc p) is (miss i a) S = (None, a', S')"
      using Cons.prems(1) by (auto split: if_splits)
    have "answers_ok P n (dones @ [i]) (miss i a)" using Cons.prems(2,3) by (intro answers_miss) auto
    from Cons.IH [OF run this _ _ rest] Cons.prems(3,4) show ?thesis by simp
  next
    case False
    then obtain v where v: "snd parsed = None" "map_of (fst parsed) (int p) = Some v" by auto
    let ?x = "zero_result\<lparr>re_Value := Some v\<rparr>"
    from v Cons.prems(1) obtain S1 where run: "split_items r parsed (Suc p) is (answer i ?x a) S1 = (None, a', S')"
      by (auto simp: Let_def split: option.splits prod.splits)
    have "answers_ok P n (dones @ [i]) (answer i ?x a)"
      using Cons.prems(2-4) Cons.prems(5) [of 0 v] v by (intro answers_answer) auto
    from Cons.IH [OF run this _ _ rest] Cons.prems(3,4) show ?thesis by simp
  qed
qed simp

text \<open>What an unflagged raw response says of the items of its group.\<close>

definition says :: "(string \<Rightarrow> 'v list \<Rightarrow> 'u \<Rightarrow> 'v parsed \<times> 'u) \<Rightarrow> (nat list \<times> 'v list) \<times> 'v group_value fresult \<Rightarrow>
    nat \<Rightarrow> 'v fresult \<Rightarrow> bool" where
  "says split g i x \<longleftrightarrow> (case g of ((is, xs), raw) \<Rightarrow> \<not> flagged_result raw \<and>
     (\<exists>q v u ps u'. q < length is \<and> is ! q = i \<and> split (raw_text (re_Value raw)) xs u = ((ps, None), u') \<and>
        map_of ps (int q) = Some v \<and> x = zero_result\<lparr>re_Value := Some v\<rparr>))"

lemma split_groups_ok:
  assumes "split_groups r split gs a S = (None, a', S')" and "answers_ok P n dones a"
    and "distinct (dones @ concat (map (fst \<circ> fst) gs))" and "set (concat (map (fst \<circ> fst) gs)) \<subseteq> {..< n}"
    and "\<And>g i x. g \<in> set gs \<Longrightarrow> says split g i x \<Longrightarrow> P i x"
  shows "answers_ok P n (dones @ concat (map (fst \<circ> fst) gs)) a'"
  using assms
proof (induction gs arbitrary: a S dones)
  case (Cons g gs)
  obtain "is" xs raw where g: "g = ((is, xs), raw)" by (metis prod.exhaust)
  have d: "distinct (dones @ is)" "set is \<subseteq> {..< n}" using Cons.prems(3,4) g by auto
  have rest: "P i x" if "g' \<in> set gs" "says split g' i x" for g' i x
    using that by (intro Cons.prems(5) [of g']) auto
  have "\<exists>a1 S1. answers_ok P n (dones @ is) a1 \<and> split_groups r split gs a1 S1 = (None, a', S')"
  proof (cases "flagged_result raw")
    case True
    then show ?thesis using Cons.prems(1) g answers_miss_all [OF Cons.prems(2) d(1)] by auto
  next
    case False
    obtain parsed u where sp: "split (raw_text (re_Value raw)) xs (fl_user S) = (parsed, u)" by fastforce
    from Cons.prems(1) g False sp obtain a1 S1 where one: "split_items r parsed 0 is a (S\<lparr>fl_user := u\<rparr>) = (None, a1, S1)"
      and more: "split_groups r split gs a1 S1 = (None, a', S')"
      by (auto split: option.splits prod.splits)
    have "P (is ! q) (zero_result\<lparr>re_Value := Some v\<rparr>)"
      if "snd parsed = None" "q < length is" "map_of (fst parsed) (int (0 + q)) = Some v" for q v
    proof (rule Cons.prems(5) [of g])
      have "parsed = (fst parsed, None)" using that(1) by (metis prod.collapse)
      then show "says split g (is ! q) (zero_result\<lparr>re_Value := Some v\<rparr>)"
        using that False sp unfolding says_def g by (simp, metis)
    qed simp
    from split_items_ok [OF one Cons.prems(2) d this] more show ?thesis by blast
  qed
  then obtain a1 S1 where "answers_ok P n (dones @ is) a1" "split_groups r split gs a1 S1 = (None, a', S')" by blast
  from Cons.IH [OF this(2,1) _ _ rest] Cons.prems(3,4) g show ?case by simp
qed simp

lemma take_repairs_ok:
  assumes "take_repairs r zero ps a S = (None, a', S')" and "distinct (map fst ps)"
    and "\<forall>p \<in> set ps. fst p < length (an_results a)"
  shows "length (an_results a') = length (an_results a) \<and>
    (\<forall>(i, x) \<in> set ps. an_results a' ! i = moved_to i x) \<and>
    (\<forall>i. i \<notin> fst ` set ps \<longrightarrow> an_results a' ! i = an_results a ! i)"
  using assms
proof (induction ps arbitrary: a S)
  case (Cons p ps)
  obtain i x where p: "p = (i, x)" by fastforce
  let ?a = "answer i (moved_to i x) a"
  from Cons.prems(1) p obtain S1 where run: "take_repairs r zero ps ?a S1 = (None, a', S')"
    by (auto simp: Let_def split: if_splits option.splits prod.splits)
  have len: "length (an_results ?a) = length (an_results a)" by (simp add: answer_def)
  note IH = Cons.IH [OF run]
  have i: "i < length (an_results a)" "i \<notin> fst ` set ps" using Cons.prems(2,3) p by auto
  have here: "an_results ?a ! i = moved_to i x" using i by (simp add: answer_def)
  have away: "an_results ?a ! j = an_results a ! j" if "j \<noteq> i" for j using that by (simp add: answer_def)
  show ?case using IH Cons.prems(2,3) p len i(2) here away by auto
qed simp

section \<open>The run\<close>

text \<open>The two runs of a batched run without error: the group run over the groups \<open>groups\<close> of the spec, and the
  repair run over the items \<open>todo\<close>, where there is one.\<close>

definition group_run :: "'k codec \<Rightarrow> (('v, 's) store_ops \<Rightarrow> ('v group_value, 's) store_ops) \<Rightarrow> pipe_move list \<Rightarrow>
    ('v, 'u) batch_spec \<Rightarrow> ('v, 'v, 'u) step \<Rightarrow> ('v, 's, 'c, 'u) flow_options \<Rightarrow> 'v list \<Rightarrow> ('s, 'c, 'u) run_state \<Rightarrow>
    int list list \<Rightarrow> 'v group_value fresult list \<Rightarrow> bool" where
  "group_run C raw sched spec s opts items S groups raws \<longleftrightarrow> (\<exists>f u rep S1 S2.
     sp_Group spec = Some f \<and> f items (fl_user (rn_flow S)) = (groups, u) \<and>
     Run C (Raw []) [] sched (group_step (fs_Name s) (spec\<lparr>sp_Name := fs_Name s, sp_Policy := fs_Policy s\<rparr>))
       (map Members (group_inputs items groups)) (group_options raw opts) S1 = Some ((raws, rep, None), S2))"

definition repair_run :: "'k codec \<Rightarrow> 'v \<Rightarrow> pipe_move list \<Rightarrow> ('v, 's, 'c, 'u) full_step \<Rightarrow> ('v, 's, 'c, 'u) flow_options \<Rightarrow>
    'v list \<Rightarrow> nat list \<Rightarrow> 'v fresult list \<Rightarrow> bool" where
  "repair_run C zero resched repair opts items todo repaired \<longleftrightarrow> (todo = [] \<and> repaired = []) \<or>
     (length todo \<le> length repaired \<and> (\<exists>(S1 :: ('s, 'c, 'u) run_state) rep S2.
        Run C zero [] resched (repair_for_run todo repair) (map (\<lambda>i. items ! i) todo) (repair_options todo opts) S1
          = Some ((repaired, rep, None), S2)))"

lemma group_step_length:
  assumes "Run C (Raw []) [] sched (group_step name spec) items ro S = Some ((raws, rep, None), S')"
  shows "length raws = length items"
  using run_came_through [OF assms] by (simp add: group_step_def)

lemma repair_missing_ok:
  fixes S :: "('s, 'c, 'u) run_state"
  assumes run: "repair_missing C zero resched repair r opts items rep a S = Some ((results, rep', None), S')"
    and d: "distinct (an_missing a)" and n: "\<forall>i \<in> set (an_missing a). i < length (an_results a)"
  shows "\<exists>repaired. repair_run C zero resched repair opts items (an_missing a) repaired \<and>
    length results = length (an_results a) \<and>
    (\<forall>q < length (an_missing a). results ! (an_missing a ! q) = moved_to (an_missing a ! q) (repaired ! q)) \<and>
    (\<forall>i. i \<notin> set (an_missing a) \<longrightarrow> results ! i = an_results a ! i)"
proof (cases "an_missing a = []")
  case True
  then show ?thesis using run by (auto simp: repair_missing_def repair_run_def)
next
  case False
  let ?todo = "an_missing a"
  from run False obtain repaired rep1 S1 a' F where
    go: "Run C zero [] resched (repair_for_run ?todo repair) (map (\<lambda>i. items ! i) ?todo) (repair_options ?todo opts) S = Some ((repaired, rep1, None), S1)"
    and len: "length ?todo \<le> length repaired"
    and take: "take_repairs r zero (zip ?todo repaired) a (rn_flow S1) = (None, a', F)" and res: "results = an_results a'"
    by (auto simp: repair_missing_def Let_def split: option.splits prod.splits if_splits)
  have fst: "map fst (zip ?todo repaired) = ?todo" using len by (simp add: map_fst_zip_take)
  then have fst_set: "fst ` set (zip ?todo repaired) = set ?todo" by (metis set_map)
  have "distinct (map fst (zip ?todo repaired))" using d fst by simp
  moreover have "\<forall>p \<in> set (zip ?todo repaired). fst p < length (an_results a)" using n fst_set by auto
  ultimately have T: "length (an_results a') = length (an_results a)"
    "\<And>i x. (i, x) \<in> set (zip ?todo repaired) \<Longrightarrow> an_results a' ! i = moved_to i x"
    "\<And>i. i \<notin> set ?todo \<Longrightarrow> an_results a' ! i = an_results a ! i"
    using take_repairs_ok [OF take] unfolding fst_set by auto
  have "results ! (?todo ! q) = moved_to (?todo ! q) (repaired ! q)" if "q < length ?todo" for q
    unfolding res by (rule T(2)) (use that len in \<open>auto simp: in_set_zip\<close>)
  moreover have "repair_run C zero resched repair opts items ?todo repaired"
    using go len unfolding repair_run_def by blast
  ultimately show ?thesis using T(1,3) res by blast
qed

text \<open>C37. A batched run without error gives one result for every item, at the item's index. The groups hold
  each item at most once. An item is answered by its group, and its result is the value the split of the
  group's raw response has at the item's position; or it is one of the items the repair run was given, and its
  result is the repair's, with a quarantine naming the item's own index. No item is repaired twice, and every
  item of a failed group, of a response that could not be split, of a missing position or of no group is
  repaired.\<close>

theorem batched_aligned:
  fixes S S' :: "('s, 'c, 'u) run_state"
  assumes "runBatched C zero raw sched resched repair spec s opts items S = Some ((results, rep, None), S')"
  shows "length results = length items \<and> (\<exists>groups raws todo repaired.
    group_run C raw sched spec s opts items S groups raws \<and> length raws = length groups \<and>
    distinct (concat groups) \<and> set (concat groups) \<subseteq> int ` {..< length items} \<and>
    repair_run C zero resched repair opts items todo repaired \<and> distinct todo \<and> set todo \<subseteq> {..< length items} \<and>
    (\<forall>i < length items.
       (\<exists>q < length todo. todo ! q = i \<and> results ! i = moved_to i (repaired ! q)) \<or>
       (i \<notin> set todo \<and> (\<exists>k < length groups. says (the (sp_Split spec))
          ((map nat (groups ! k), group_inputs items groups ! k), raws ! k) i (results ! i)))))"
proof -
  let ?n = "length items"
  from assms obtain groups u covered raws grep S2 a F where
    grp: "the (sp_Group spec) items (fl_user (rn_flow S)) = (groups, u)" "batched_invalid repair spec (fs_Name s) = None"
    and cov: "cover_groups (fs_Name s) 0 groups (replicate ?n False) = Inr covered"
    and run1: "Run C (Raw []) [] sched (group_step (fs_Name s) (spec\<lparr>sp_Name := fs_Name s, sp_Policy := fs_Policy s\<rparr>))
       (map Members (group_inputs items groups)) (group_options raw opts) (S\<lparr>rn_flow := (rn_flow S)\<lparr>fl_user := u\<rparr>\<rparr>)
       = Some ((raws, grep, None), S2)"
    and sp: "split_groups (bulk_runner s opts) (the (sp_Split spec)) (zip (zip (map (map nat) groups) (group_inputs items groups)) raws)
         \<lparr>an_results = replicate ?n zero_result, an_missing = uncovered covered\<rparr> (rn_flow S2) = (None, a, F)"
    and rest: "repair_missing C zero resched repair (bulk_runner s opts) opts items (report_merge [] grep) a (S2\<lparr>rn_flow := F\<rparr>)
         = Some ((results, rep, None), S')"
    by (auto simp: runBatched_def Let_def split: option.splits prod.splits sum.splits if_splits)
  note part = cover_partition [OF cov]
  have len: "length raws = length groups" using group_step_length [OF run1] by (simp add: group_inputs_def)
  let ?gs = "zip (zip (map (map nat) groups) (group_inputs items groups)) raws"
  have "map (fst \<circ> fst) ?gs = map (map nat) groups"
    by (rule nth_equalityI) (simp_all add: len group_inputs_def)
  then have firsts: "concat (map (fst \<circ> fst) ?gs) = map nat (concat groups)" by (simp add: map_concat)
  let ?P = "\<lambda>i x. \<exists>k < length groups. says (the (sp_Split spec)) ((map nat (groups ! k), group_inputs items groups ! k), raws ! k) i x"
  have "answers_ok ?P ?n (uncovered covered) \<lparr>an_results = replicate ?n zero_result, an_missing = uncovered covered\<rparr>"
    using part(1) by (simp add: answers_ok_def)
  note start = this
  have at: "\<exists>k < length groups. g = ((map nat (groups ! k), group_inputs items groups ! k), raws ! k)" if "g \<in> set ?gs" for g
  proof -
    from that obtain k where "k < length ?gs" "g = ?gs ! k" by (metis in_set_conv_nth)
    then show ?thesis by (auto simp: len group_inputs_def)
  qed
  have ok: "answers_ok ?P ?n (uncovered covered @ map nat (concat groups)) a"
    unfolding firsts [symmetric]
  proof (rule split_groups_ok [OF sp start])
    show "?P i x" if "g \<in> set ?gs" "says (the (sp_Split spec)) g i x" for g i x using at [OF that(1)] that(2) by blast
  qed (use part(1,2) in \<open>simp_all only: firsts set_append, blast\<close>)
  from ok have an: "length (an_results a) = ?n" "distinct (an_missing a)" "set (an_missing a) \<subseteq> {..< ?n}"
    "\<forall>i < ?n. i \<in> set (an_missing a) \<or> ?P i (an_results a ! i)"
    unfolding answers_ok_def part(2) by auto
  from repair_missing_ok [OF rest an(2)] an(1,3) obtain repaired where
    rp: "repair_run C zero resched repair opts items (an_missing a) repaired" "length results = ?n"
    "\<forall>q < length (an_missing a). results ! (an_missing a ! q) = moved_to (an_missing a ! q) (repaired ! q)"
    "\<forall>i. i \<notin> set (an_missing a) \<longrightarrow> results ! i = an_results a ! i" by auto
  have "group_run C raw sched spec s opts items S groups raws"
    using grp run1 unfolding group_run_def batched_invalid_def by (auto split: if_splits)
  moreover have "set (concat groups) \<subseteq> int ` {..< ?n}"
  proof
    fix i assume "i \<in> set (concat groups)"
    then have "0 \<le> i" "i < int ?n" using part(3) by blast+
    then show "i \<in> int ` {..< ?n}" by (metis image_eqI int_nat_eq lessThan_iff nat_less_iff)
  qed
  moreover have "(\<exists>q < length (an_missing a). an_missing a ! q = i \<and> results ! i = moved_to i (repaired ! q)) \<or>
       (i \<notin> set (an_missing a) \<and> ?P i (results ! i))" if "i < ?n" for i
  proof (cases "i \<in> set (an_missing a)")
    case True
    then obtain q where "q < length (an_missing a)" "an_missing a ! q = i" by (metis in_set_conv_nth)
    then show ?thesis using rp(3) by blast
  next
    case False
    then have "?P i (an_results a ! i)" using an(4) that by blast
    moreover have "results ! i = an_results a ! i" using rp(4) False by blast
    ultimately show ?thesis using False by simp
  qed
  ultimately show ?thesis using len part(4) rp(1,2) an(2,3) by blast
qed

text \<open>Groups of pairs; the split finds the first item of a pair only.\<close>

definition pair_spec :: "(string, nat) batch_spec" where
  "pair_spec = \<lparr>sp_Name = ''pairs'', sp_Identity = \<lparr>id_Kind = [], id_Version = [], id_Key = None\<rparr>, sp_Policy = fs_Policy demo_step,
     sp_Group = Some (\<lambda>xs u. ([[0, 1]], u)), sp_DoAll = Some (\<lambda>c xs u. (concat xs, None, u + 1)),
     sp_Split = Some (\<lambda>t xs u. (([(0, t)], None), u))\<rparr>"

definition pair_run :: "(string run_outcome \<times> (unit, unit, nat) run_state) option" where
  "pair_run = runBatched demo_codec [] (\<lambda>_. \<lparr>so_Load = (\<lambda>c k s. Inr None), so_Store = (\<lambda>c k v s. (None, s))\<rparr>)
     [StartStage 0, ItemMove 0, ItemMove 0, EndStage 0]
     [StartStage 0, ItemMove 0, ItemMove 0, ItemMove 1, ItemMove 1, EndStage 0]
     (plain_step (mark_step ''one'')) pair_spec (mark_step ''pairs'') (ro_flow mark_options) [''a'', ''b'', ''c'']
     (mark_state\<lparr>rn_env := Some (newRunEnv [] None 0)\<rparr>)"

theorem batched_aligned_witness:
  "\<exists>results report S'. pair_run = Some ((results, report, None), S') \<and>
     map re_Value results = [Some ''ab'', Some ''b!'', Some ''c!''] \<and> length results = 3"
proof -
  have "map_option (\<lambda>((rs, rep, e), S). (map re_Value rs, Option.is_none e)) pair_run
      = Some ([Some ''ab'', Some ''b!'', Some ''c!''], True)" by code_simp
  then obtain results report S' where run: "pair_run = Some ((results, report, None), S')"
    "map re_Value results = [Some ''ab'', Some ''b!'', Some ''c!'']" by (auto simp: Option.is_none_def)
  from batched_aligned [OF run(1) [unfolded pair_run_def], THEN conjunct1] have "length results = 3" by simp
  with run show ?thesis by (intro exI conjI)
qed

end
