(* ===== verification/Live_Report.thy ===== *)
theory Live_Report
  imports Report
begin

text \<open>
  The reports of runs in progress: \<open>reportSource\<close> of \<open>src/flow/observe.go\<close>, the report of an
  override stage (\<open>run.go\<close>) and the one of a batched run, \<open>currentReport\<close>, \<open>setActiveReport\<close> and
  \<open>mergeCompleted\<close> of \<open>src/flow/batch.go\<close>.

  The code hands report functions of engines around. Here an engine is its number, and the table
  \<open>lw_engines\<close> holds what the report function of each engine returns now. A read of the current
  report takes two steps: under the lock it copies the merged report and the active engine, and
  afterwards, without the lock, it asks that engine. Meters may be negative and the spending is a
  snapshot, so growth speaks of the counters.
\<close>

section \<open>Cells\<close>

type_synonym reportSource = "nat option"

definition source_set :: "nat \<Rightarrow> reportSource \<Rightarrow> reportSource" where
  "source_set k src = Some k"

definition source_report :: "report list \<Rightarrow> reportSource \<Rightarrow> report" where
  "source_report engines src = (case src of None \<Rightarrow> [] | Some k \<Rightarrow> engines ! k)"

text \<open>The report of a batched run, and of an override stage: what completed runs counted, and the
  engine that is running.\<close>

record report_cell =
  rc_report :: report
  rc_active :: "nat option"

definition new_cell :: report_cell where
  "new_cell = \<lparr>rc_report = [], rc_active = None\<rparr>"

definition setActiveReport :: "nat \<Rightarrow> report_cell \<Rightarrow> report_cell" where
  "setActiveReport k c = c\<lparr>rc_active := Some k\<rparr>"

definition mergeCompleted :: "report \<Rightarrow> report_cell \<Rightarrow> report_cell" where
  "mergeCompleted completed c = \<lparr>rc_report = report_merge (rc_report c) completed, rc_active = None\<rparr>"

definition read_locked :: "report_cell \<Rightarrow> report \<times> nat option" where
  "read_locked c = (report_Clone (rc_report c), rc_active c)"

definition read_unlocked :: "report list \<Rightarrow> report \<times> nat option \<Rightarrow> report" where
  "read_unlocked engines r =
     (case snd r of None \<Rightarrow> fst r | Some k \<Rightarrow> report_merge (fst r) (engines ! k))"

text \<open>Both steps at one moment.\<close>

definition live_report :: "report list \<Rightarrow> report_cell \<Rightarrow> report" where
  "live_report engines c = read_unlocked engines (read_locked c)"

text \<open>What \<open>runCore\<close> does with the hook \<open>registerReport\<close> of its options when its engine offers its
  report: the engine of an override step registers with a source of its own, and the hook of the
  options is not called; a run of stages calls the hook.\<close>

definition registers_with :: "bool \<Rightarrow> nat \<Rightarrow> reportSource \<times> report_cell \<Rightarrow> reportSource \<times> report_cell" where
  "registers_with overridden k cells =
     (if overridden then (source_set k (fst cells), snd cells) else (fst cells, setActiveReport k (snd cells)))"

lemma override_stays_hidden:
  "live_report engines (snd (registers_with True k (src, c))) = live_report engines c \<and>
   source_report engines (fst (registers_with True k (src, c))) = engines ! k"
  by (simp add: registers_with_def source_set_def source_report_def)

section \<open>Growth of counters\<close>

definition step_grows :: "StepReport \<Rightarrow> StepReport \<Rightarrow> bool" where
  "step_grows a b \<longleftrightarrow> Items a \<le> Items b \<and> Hits a \<le> Hits b \<and> Misses a \<le> Misses b \<and> Stored a \<le> Stored b \<and>
     WorkCalls a \<le> WorkCalls b \<and> StartedSequences a \<le> StartedSequences b \<and> Retries a \<le> Retries b \<and>
     Quarantined a \<le> Quarantined b \<and> Skipped a \<le> Skipped b \<and>
     list_all (\<lambda>c. lookup0 0 (RetriesByClass a) c \<le> lookup0 0 (RetriesByClass b) c)
       (map fst (RetriesByClass a @ RetriesByClass b))"

definition report_grows :: "report \<Rightarrow> report \<Rightarrow> bool" where
  "report_grows a b \<longleftrightarrow> list_all (\<lambda>k. step_grows (Step_of a k) (Step_of b k)) (map fst (a @ b))"

text \<open>The maps a report is made of have distinct keys.\<close>

definition report_maps :: "report \<Rightarrow> bool" where
  "report_maps r \<longleftrightarrow> go_map r \<and> list_all (\<lambda>(k, st). go_map (RetriesByClass st)) r"

section \<open>Moves\<close>

record live_world =
  lw_cell :: report_cell
  lw_engines :: "report list"

definition live_start :: live_world where
  "live_start = \<lparr>lw_cell = new_cell, lw_engines = []\<rparr>"

text \<open>The moves of the runs inside a batched run. They follow each other; each offers its report
  once, when it offers it at all, counts on, and ends with a report that counts at least what it
  showed.\<close>

datatype live_move = Offer report | Count report | Complete report

fun live_step :: "live_move \<Rightarrow> live_world \<Rightarrow> live_world option" where
  "live_step (Offer rep) w =
     (if rc_active (lw_cell w) = None \<and> report_maps rep \<and> report_grows [] rep
      then Some \<lparr>lw_cell = setActiveReport (length (lw_engines w)) (lw_cell w), lw_engines = lw_engines w @ [rep]\<rparr>
      else None)"
| "live_step (Count rep) w =
     (case rc_active (lw_cell w) of
        None \<Rightarrow> None
      | Some k \<Rightarrow> if report_maps rep \<and> report_grows (lw_engines w ! k) rep
                  then Some (w\<lparr>lw_engines := (lw_engines w)[k := rep]\<rparr>) else None)"
| "live_step (Complete rep) w =
     (if report_maps rep \<and> report_grows (source_report (lw_engines w) (rc_active (lw_cell w))) rep
      then Some (w\<lparr>lw_cell := mergeCompleted rep (lw_cell w)\<rparr>) else None)"

fun live_run :: "live_move list \<Rightarrow> live_world \<Rightarrow> live_world option" where
  "live_run [] w = Some w"
| "live_run (m # ms) w = (case live_step m w of None \<Rightarrow> None | Some w' \<Rightarrow> live_run ms w')"

text \<open>The abstract report: what completed runs counted, and what the run in progress showed last.\<close>

fun total_step :: "live_move \<Rightarrow> report \<times> report \<Rightarrow> report \<times> report" where
  "total_step (Offer rep) (d, p) = (d, rep)"
| "total_step (Count rep) (d, p) = (d, rep)"
| "total_step (Complete rep) (d, p) = (report_merge d rep, [])"

definition total_report :: "live_move list \<Rightarrow> report" where
  "total_report ms = (case fold total_step ms ([], []) of (d, p) \<Rightarrow> report_merge d p)"

definition same_counts :: "report \<Rightarrow> report \<Rightarrow> bool" where
  "same_counts a b \<longleftrightarrow> report_grows a b \<and> report_grows b a"

section \<open>Merging and growth\<close>

lemma list_all_keys: "(\<And>c. c \<notin> set ks \<Longrightarrow> P c) \<Longrightarrow> list_all P ks \<longleftrightarrow> (\<forall>c. P c)"
  by (auto simp: list_all_iff)

lemma step_grows_iff:
  "step_grows a b \<longleftrightarrow> Items a \<le> Items b \<and> Hits a \<le> Hits b \<and> Misses a \<le> Misses b \<and> Stored a \<le> Stored b \<and>
     WorkCalls a \<le> WorkCalls b \<and> StartedSequences a \<le> StartedSequences b \<and> Retries a \<le> Retries b \<and>
     Quarantined a \<le> Quarantined b \<and> Skipped a \<le> Skipped b \<and>
     (\<forall>c. lookup0 0 (RetriesByClass a) c \<le> lookup0 0 (RetriesByClass b) c)"
  unfolding step_grows_def by (subst list_all_keys) (simp_all add: lookup0_fresh)

lemma report_grows_iff: "report_grows a b \<longleftrightarrow> (\<forall>k. step_grows (Step_of a k) (Step_of b k))"
  unfolding report_grows_def by (rule list_all_keys) (simp add: Step_of_def lookup0_fresh step_grows_iff)

lemma report_grows_refl [simp]: "report_grows a a"
  by (simp add: report_grows_iff step_grows_iff)

lemma report_grows_trans: "report_grows a b \<Longrightarrow> report_grows b c \<Longrightarrow> report_grows a c"
  unfolding report_grows_iff step_grows_iff by (meson order_trans)

lemma report_maps_iff: "report_maps r \<longleftrightarrow> go_map r \<and> (\<forall>k. go_map (RetriesByClass (Step_of r k)))"
proof -
  have "go_map (RetriesByClass (Step_of r k))" if "list_all (\<lambda>(k, st). go_map (RetriesByClass st)) r" for k
    using that by (auto simp: Step_of_def lookup0_def list_all_iff zero_report_def go_map_def
      split: option.splits dest: map_of_SomeD)
  moreover have "list_all (\<lambda>(k, st). go_map (RetriesByClass st)) r"
    if "go_map r" "\<forall>k. go_map (RetriesByClass (Step_of r k))"
    unfolding list_all_iff
  proof safe
    fix k st
    assume "(k, st) \<in> set r"
    then have "Step_of r k = st" using that(1) by (simp add: Step_of_def lookup0_def go_map_def)
    then show "go_map (RetriesByClass st)" using that(2) by metis
  qed
  ultimately show ?thesis by (auto simp: report_maps_def)
qed

lemma report_maps_Nil [simp]: "report_maps []"
  by (simp add: report_maps_def go_map_def)

lemma Step_of_merge:
  "report_maps other \<Longrightarrow> Step_of (report_merge r other) k = step_merge (Step_of r k) (Step_of other k)"
  by (simp add: report_maps_iff report_merge_lookup Step_of_def [of "report_merge r other"] lookup0_def split: option.splits)
    (auto simp: Step_of_def lookup0_def step_merge_def zero_report_def split: option.splits)

lemma Step_of_Clone: "report_maps r \<Longrightarrow> Step_of (report_Clone r) k = step_Clone (Step_of r k)"
  by (auto simp: report_maps_iff report_Clone_def Step_of_def lookup0_def clone_steps_lookup step_Clone_def
      zero_report_def split: option.splits)

lemma report_maps_merge: "report_maps r \<Longrightarrow> report_maps other \<Longrightarrow> report_maps (report_merge r other)"
  unfolding report_maps_iff [of "report_merge r other"]
  by (auto simp: Step_of_merge step_merge_def report_maps_iff intro: go_map_loops)

lemma report_maps_Clone: "report_maps r \<Longrightarrow> report_maps (report_Clone r)"
  unfolding report_maps_iff [of "report_Clone r"] by (simp add: Step_of_Clone step_Clone_def)
    (simp add: report_Clone_def go_map_loops go_map_def [of "[]"])

lemma Clone_grows:
  "report_maps r \<Longrightarrow> report_grows r (report_Clone r)"
  "report_maps r \<Longrightarrow> report_grows (report_Clone r) r"
  by (auto simp: report_grows_iff Step_of_Clone step_grows_iff step_Clone_def lookup0_def overwrite_lookup
      report_maps_iff split: option.splits)

lemma merge_mono:
  "report_grows a a' \<Longrightarrow> report_grows b b' \<Longrightarrow> report_maps b \<Longrightarrow> report_maps b' \<Longrightarrow>
   report_grows (report_merge a b) (report_merge a' b')"
  unfolding report_grows_iff
  by (auto simp: Step_of_merge step_grows_iff step_merge_def add_counts_lookup report_maps_iff intro: add_mono)

lemma merge_upper: "report_grows [] b \<Longrightarrow> report_maps b \<Longrightarrow> report_grows a (report_merge a b)"
  using merge_mono [of a a "[]" b] by simp

section \<open>Invariants of the moves\<close>

text \<open>The cell holds the abstract report, and every report is well formed.\<close>

definition live_ok :: "live_world \<Rightarrow> report \<times> report \<Rightarrow> bool" where
  "live_ok w dp \<longleftrightarrow> rc_report (lw_cell w) = fst dp \<and> report_maps (fst dp) \<and>
     list_all (\<lambda>rep. report_maps rep \<and> report_grows [] rep) (lw_engines w) \<and>
     snd dp = source_report (lw_engines w) (rc_active (lw_cell w)) \<and>
     (\<forall>k. rc_active (lw_cell w) = Some k \<longrightarrow> k < length (lw_engines w))"

lemma live_ok_start: "live_ok live_start ([], [])"
  by (simp add: live_ok_def live_start_def new_cell_def source_report_def)

lemmas cell_simps = setActiveReport_def mergeCompleted_def source_report_def nth_append

lemma live_step_ok:
  assumes "live_ok w dp" and "live_step m w = Some w'"
  shows "live_ok w' (total_step m dp)"
proof (cases m)
  case (Offer rep)
  then show ?thesis using assms by (cases dp) (auto simp: live_ok_def cell_simps split: if_splits)
next
  case (Count rep)
  then show ?thesis using assms
    by (cases dp, auto simp: live_ok_def cell_simps list_all_length nth_list_update split: if_splits option.splits)
      (blast intro: report_grows_trans)
next
  case (Complete rep)
  then show ?thesis using assms
    by (cases dp) (auto simp: live_ok_def cell_simps report_maps_merge split: if_splits)
qed

lemma live_run_ok: "live_ok w dp \<Longrightarrow> live_run ms w = Some w' \<Longrightarrow> live_ok w' (fold total_step ms dp)"
proof (induction ms arbitrary: w dp)
  case (Cons m ms)
  then obtain w1 where "live_step m w = Some w1" "live_run ms w1 = Some w'" by (auto split: option.splits)
  with Cons.IH [OF live_step_ok [OF Cons.prems(1)]] show ?case by simp
qed simp

text \<open>What a moment has of an earlier one: each engine has counted on, and its run is still in
  progress or its report is part of what completed.\<close>

definition later :: "live_world \<Rightarrow> live_world \<Rightarrow> bool" where
  "later w w' \<longleftrightarrow> length (lw_engines w) \<le> length (lw_engines w') \<and>
     (\<forall>k < length (lw_engines w). report_grows (lw_engines w ! k) (lw_engines w' ! k)) \<and>
     report_grows (rc_report (lw_cell w)) (rc_report (lw_cell w')) \<and>
     (\<forall>k. rc_active (lw_cell w) = Some k \<longrightarrow> rc_active (lw_cell w') \<noteq> Some k \<longrightarrow>
        report_grows (report_merge (rc_report (lw_cell w)) (lw_engines w' ! k)) (rc_report (lw_cell w')))"

lemma later_refl: "later w w"
  by (simp add: later_def)

lemma live_ok_engine:
  "live_ok w dp \<Longrightarrow> k < length (lw_engines w) \<Longrightarrow> report_maps (lw_engines w ! k) \<and> report_grows [] (lw_engines w ! k)"
  by (simp add: live_ok_def list_all_length)

lemma live_ok_source:
  "live_ok w dp \<Longrightarrow> report_grows [] (source_report (lw_engines w) (rc_active (lw_cell w)))"
  by (auto simp: live_ok_def source_report_def list_all_length split: option.splits)

lemma later_step:
  assumes "live_ok w dp" and "live_ok w' dp'" and "later w w'" and "live_step m w' = Some w''"
  shows "later w w''"
proof (cases m)
  case (Offer rep)
  then show ?thesis using assms
    by (auto simp: later_def live_ok_def cell_simps split: if_splits)
next
  case (Count rep)
  then obtain j where j: "rc_active (lw_cell w') = Some j" "report_grows (lw_engines w' ! j) rep"
    and w'': "w'' = w'\<lparr>lw_engines := (lw_engines w')[j := rep]\<rparr>" and "j < length (lw_engines w')"
    using assms(2,4) by (auto simp: live_ok_def split: option.splits if_splits)
  then show ?thesis using assms(3) by (auto simp: later_def nth_list_update intro: report_grows_trans)
next
  case (Complete rep)
  let ?src = "source_report (lw_engines w') (rc_active (lw_cell w'))"
  have rep: "report_maps rep" "report_grows ?src rep" and w'': "w'' = w'\<lparr>lw_cell := mergeCompleted rep (lw_cell w')\<rparr>"
    using assms(4) Complete by (auto split: if_splits)
  have up: "report_grows (rc_report (lw_cell w')) (report_merge (rc_report (lw_cell w')) rep)"
    using merge_upper [OF report_grows_trans [OF live_ok_source [OF assms(2)] rep(2)] rep(1)] .
  have "report_grows (report_merge (rc_report (lw_cell w)) (lw_engines w' ! k)) (report_merge (rc_report (lw_cell w')) rep)"
    if k: "rc_active (lw_cell w) = Some k" for k
  proof (cases "rc_active (lw_cell w') = Some k")
    case True
    then have "report_grows (lw_engines w' ! k) rep" "report_maps (lw_engines w' ! k)"
      using rep(2) assms(2) by (auto simp: source_report_def live_ok_def list_all_length)
    with rep(1) assms(3) show ?thesis by (auto simp: later_def intro: merge_mono)
  next
    case False
    with k assms(3) up show ?thesis by (auto simp: later_def intro: report_grows_trans)
  qed
  then show ?thesis using assms(3) up
    by (auto simp: later_def w'' mergeCompleted_def intro: report_grows_trans)
qed

lemma later_run:
  "live_ok w dp \<Longrightarrow> live_ok w' dp' \<Longrightarrow> later w w' \<Longrightarrow> live_run ms w' = Some w'' \<Longrightarrow> later w w''"
proof (induction ms arbitrary: w' dp')
  case (Cons m ms)
  then obtain w1 where "live_step m w' = Some w1" "live_run ms w1 = Some w''" by (auto split: option.splits)
  with Cons.IH [OF Cons.prems(1) live_step_ok [OF Cons.prems(2)] later_step [OF Cons.prems(1-3)]] show ?case by simp
qed simp

section \<open>Reads\<close>

lemma live_report_counts:
  assumes "live_ok w dp"
  shows "same_counts (live_report (lw_engines w) (lw_cell w)) (report_merge (fst dp) (snd dp))"
proof -
  have "report_maps (snd dp)" using assms by (auto simp: live_ok_def source_report_def list_all_length split: option.splits)
  moreover have "report_maps (rc_report (lw_cell w))" using assms by (simp add: live_ok_def)
  ultimately show ?thesis using assms Clone_grows [of "rc_report (lw_cell w)"]
    by (auto simp: same_counts_def live_report_def read_unlocked_def read_locked_def live_ok_def source_report_def
        intro: merge_mono split: option.splits)
qed

lemma read_between:
  assumes "live_ok w dp" and "live_ok w' dp'" and "later w w'"
  defines "seen \<equiv> read_unlocked (lw_engines w') (read_locked (lw_cell w))"
  shows "report_grows (live_report (lw_engines w) (lw_cell w)) seen \<and>
    report_grows seen (live_report (lw_engines w') (lw_cell w'))"
proof -
  let ?b = "rc_report (lw_cell w)" and ?b' = "rc_report (lw_cell w')"
  have maps: "report_maps ?b" "report_maps ?b'" using assms(1,2) by (auto simp: live_ok_def)
  have base: "report_grows (report_Clone ?b) ?b'" and up: "report_grows ?b' (report_Clone ?b')"
    using assms(3) maps Clone_grows by (auto simp: later_def intro: report_grows_trans)
  have now: "report_grows ?b' (live_report (lw_engines w') (lw_cell w'))"
    using up live_ok_engine [OF assms(2)] assms(2)
    by (auto simp: live_report_def read_unlocked_def read_locked_def live_ok_def intro: merge_upper report_grows_trans
        split: option.splits)
  show ?thesis
  proof (cases "rc_active (lw_cell w)")
    case None
    then show ?thesis using report_grows_trans [OF base now]
      by (simp add: seen_def live_report_def read_unlocked_def read_locked_def)
  next
    case (Some k)
    then have k: "k < length (lw_engines w)" "k < length (lw_engines w')"
      using assms(1,3) by (auto simp: live_ok_def later_def)
    note e = live_ok_engine [OF assms(1) k(1)] and e' = live_ok_engine [OF assms(2) k(2)]
    have seen: "seen = report_merge (report_Clone ?b) (lw_engines w' ! k)"
      and old: "live_report (lw_engines w) (lw_cell w) = report_merge (report_Clone ?b) (lw_engines w ! k)"
      using Some by (simp_all add: seen_def live_report_def read_unlocked_def read_locked_def)
    have "report_grows seen (live_report (lw_engines w') (lw_cell w'))"
    proof (cases "rc_active (lw_cell w') = Some k")
      case True
      then show ?thesis unfolding seen using merge_mono [OF report_grows_trans [OF base up], of "lw_engines w' ! k"] e'
        by (simp add: live_report_def read_unlocked_def read_locked_def)
    next
      case False
      then have "report_grows (report_merge ?b (lw_engines w' ! k)) ?b'" using assms(3) Some by (simp add: later_def)
      moreover have "report_grows seen (report_merge ?b (lw_engines w' ! k))"
        unfolding seen using Clone_grows(2) [OF maps(1)] e' by (simp add: merge_mono)
      ultimately show ?thesis using now by (blast intro: report_grows_trans)
    qed
    moreover have "report_grows (live_report (lw_engines w) (lw_cell w)) seen"
      unfolding old seen using assms(3) k(1) e e' by (auto simp: later_def intro: merge_mono)
    ultimately show ?thesis by simp
  qed
qed

text \<open>C32. The live report of a batched run neither loses nor counts twice, and never goes back. After
  any sequence of nested runs that offer their reports, count on and complete, it has the counts of
  the completed runs plus what the run in progress showed last. A reader that copies the cell at one
  moment and asks the running engine at any later one, whatever completed or started in between,
  sees at least what was counted at the first moment and at most what was counted at the second.\<close>

theorem live_report_consistent:
  assumes "live_run ms live_start = Some w" and "live_run ms' w = Some w'"
    and "seen = read_unlocked (lw_engines w') (read_locked (lw_cell w))"
  shows "same_counts (live_report (lw_engines w') (lw_cell w')) (total_report (ms @ ms')) \<and>
    report_grows (live_report (lw_engines w) (lw_cell w)) seen \<and>
    report_grows seen (live_report (lw_engines w') (lw_cell w'))"
proof -
  note ok = live_run_ok [OF live_ok_start assms(1)]
  note ok' = live_run_ok [OF ok assms(2)]
  show ?thesis
    using live_report_counts [OF ok'] read_between [OF ok ok' later_run [OF ok ok later_refl assms(2)]]
    by (simp add: assms(3) total_report_def case_prod_beta)
qed

theorem live_report_consistent_witness:
  "\<exists>w w'. live_run [Offer [], Count [(''s'', zero_report\<lparr>Items := 2\<rparr>)]] live_start = Some w \<and>
     live_run [Complete [(''s'', zero_report\<lparr>Items := 3\<rparr>)], Offer [(''r'', zero_report)]] w = Some w' \<and>
     report_grows (live_report (lw_engines w) (lw_cell w)) (read_unlocked (lw_engines w') (read_locked (lw_cell w))) \<and>
     Items (Step_of (read_unlocked (lw_engines w') (read_locked (lw_cell w))) ''s'') = 2 \<and>
     Items (Step_of (live_report (lw_engines w') (lw_cell w')) ''s'') = 3"
proof -
  define a b where "a = [(''s'', zero_report\<lparr>Items := 2\<rparr>)]" and "b = [(''s'', zero_report\<lparr>Items := 3\<rparr>)]"
  have "live_run [Offer [], Count a] live_start = Some \<lparr>lw_cell = \<lparr>rc_report = [], rc_active = Some 0\<rparr>, lw_engines = [a]\<rparr>"
    (is "_ = Some ?w") unfolding a_def by code_simp
  moreover have "live_run [Complete b, Offer [(''r'', zero_report)]] ?w =
     Some \<lparr>lw_cell = \<lparr>rc_report = b, rc_active = Some 1\<rparr>, lw_engines = [a, [(''r'', zero_report)]]\<rparr>"
    (is "_ = Some ?w'") unfolding a_def b_def by code_simp
  moreover have "Items (Step_of (read_unlocked (lw_engines ?w') (read_locked (lw_cell ?w))) ''s'') = 2"
    "Items (Step_of (live_report (lw_engines ?w') (lw_cell ?w')) ''s'') = 3" unfolding a_def b_def by code_simp+
  ultimately show ?thesis using live_report_consistent [OF _ _ refl, of "[Offer [], Count a]" ?w] a_def b_def by blast
qed

end
