(* ===== verification/Paths.thy ===== *)
theory Paths
  imports Flow_Prelude
begin

text \<open>
  The path and directory helpers of \<open>src/internal/fsutil/fsutil.go\<close>: \<open>JoinWithin\<close>, \<open>DirectorySize\<close> and
  \<open>SyncDirectory\<close>.

  \<open>JoinWithin\<close> is lexical, so \<open>path/filepath\<close> is modelled on strings as it is documented for Unix: a path is cut
  at its slashes into elements, and \<open>Clean\<close> keeps a stack of elements. \<open>filepath.WalkDir\<close> visits a tree; what
  the system answers at each node (an entry, its size, an error) and the context at each visit are part of
  the input.
\<close>

section \<open>path/filepath\<close>

abbreviation slash :: char where "slash \<equiv> CHR 0x2F"

fun elements :: "string \<Rightarrow> string list" where
  "elements [] = [[]]"
| "elements (c # s) = (if c = slash then [] # elements s else (c # hd (elements s)) # tl (elements s))"

fun join_elements :: "string list \<Rightarrow> string" where
  "join_elements [] = []"
| "join_elements [e] = e"
| "join_elements (e # es) = e @ slash # join_elements es"

definition IsAbs :: "string \<Rightarrow> bool" where
  "IsAbs p \<longleftrightarrow> p \<noteq> [] \<and> hd p = slash"

text \<open>One element against the stack of those before it: empty and \<open>.\<close> elements vanish, \<open>..\<close> takes the last
  element away, stays at the front of a relative path and vanishes at the root.\<close>

fun clean_step :: "bool \<Rightarrow> string \<Rightarrow> string list \<Rightarrow> string list" where
  "clean_step rooted e st =
     (if e = [] \<or> e = ''.'' then st
      else if e = ''..'' then (case st of
          [] \<Rightarrow> if rooted then [] else [e]
        | t # ts \<Rightarrow> if t = ''..'' then e # st else ts)
      else e # st)"

definition clean_elements :: "bool \<Rightarrow> string list \<Rightarrow> string list" where
  "clean_elements rooted es = rev (fold (clean_step rooted) es [])"

definition path_elements :: "string \<Rightarrow> string list" where
  "path_elements p = clean_elements (IsAbs p) (elements p)"

definition Clean :: "string \<Rightarrow> string" where
  "Clean p = (if p = [] then ''.''
     else if IsAbs p then slash # join_elements (path_elements p)
     else if path_elements p = [] then ''.'' else join_elements (path_elements p))"

text \<open>\<open>filepath.Join\<close> of two paths.\<close>

definition Join2 :: "string \<Rightarrow> string \<Rightarrow> string" where
  "Join2 a b = (if a = [] then (if b = [] then [] else Clean b) else Clean (a @ slash # b))"

fun drop_common :: "string list \<Rightarrow> string list \<Rightarrow> string list \<times> string list" where
  "drop_common (b # bs) (t # ts) = (if b = t then drop_common bs ts else (b # bs, t # ts))"
| "drop_common bs ts = (bs, ts)"

definition Rel :: "string \<Rightarrow> string \<Rightarrow> string result" where
  "Rel base targ =
     (if Clean base = Clean targ then Inr ''.''
      else if IsAbs base \<noteq> IsAbs targ then Inl (ErrorsNew (''Rel: cannot make '' @ targ @ '' relative to '' @ base))
      else case drop_common (path_elements base) (path_elements targ) of
        (bs, ts) \<Rightarrow>
          if bs \<noteq> [] \<and> hd bs = ''..'' then Inl (ErrorsNew (''Rel: cannot make '' @ targ @ '' relative to '' @ base))
          else Inr (join_elements (map (\<lambda>_. ''..'') bs @ ts)))"

section \<open>JoinWithin\<close>

definition escapes :: "string \<Rightarrow> bool" where
  "escapes p \<longleftrightarrow> p = ''..'' \<or> take 3 p = ''../''"

definition JoinWithin :: "string \<Rightarrow> string \<Rightarrow> string result" where
  "JoinWithin root relative =
     (if TrimSpace root = [] then Inl (Errorf ''root path is required'' [] None)
      else if relative = [] \<or> IsAbs relative then Inl (Errorf ''path must be non-empty and relative'' [] None)
      else let clean = Clean relative in
        if clean = ''.'' \<or> escapes clean then Inl (Errorf ''path escapes root'' [] None)
        else let root = Clean root; path = Join2 root clean in
          (case Rel root path of
             Inl e \<Rightarrow> Inl (Errorf ''path escapes root'' [] None)
           | Inr r \<Rightarrow> if escapes r then Inl (Errorf ''path escapes root'' [] None) else Inr path))"

section \<open>DirectorySize and SyncDirectory\<close>

text \<open>A tree as \<open>WalkDir\<close> finds it: an entry with what \<open>Info\<close> answers, a directory with its entries in order,
  a directory that cannot be read to its end, or a name that cannot be examined.\<close>

datatype node = Entry "int result" | Directory "node list" | Unreadable err | Missing err

text \<open>The visits of the walk in their order: what the callback finds each time.\<close>

datatype visit = Failed_visit err | At_directory | At_entry "int result"

fun visits :: "node \<Rightarrow> visit list" where
  "visits (Entry info) = [At_entry info]"
| "visits (Directory ns) = At_directory # concat (map visits ns)"
| "visits (Unreadable e) = [At_directory, Failed_visit e]"
| "visits (Missing e) = [Failed_visit e]"

text \<open>The callback; it ends the walk with its first error. The sum is an \<open>int64\<close>.\<close>

fun size_walk :: "(nat \<Rightarrow> ctx) \<Rightarrow> nat \<Rightarrow> visit list \<Rightarrow> int \<Rightarrow> int result" where
  "size_walk c n [] acc = Inr acc"
| "size_walk c n (v # vs) acc =
     (case v of
        Failed_visit e \<Rightarrow> Inl e
      | At_directory \<Rightarrow> (case c n of Some e \<Rightarrow> Inl e | None \<Rightarrow> size_walk c (Suc n) vs acc)
      | At_entry info \<Rightarrow>
          (case c n of Some e \<Rightarrow> Inl e
           | None \<Rightarrow> (case info of Inl e \<Rightarrow> Inl e | Inr sz \<Rightarrow> size_walk c (Suc n) vs (wrap64 (acc + sz)))))"

definition DirectorySize :: "(nat \<Rightarrow> ctx) \<Rightarrow> node \<Rightarrow> int \<times> err option" where
  "DirectorySize c root = (case size_walk c 0 (visits root) 0 of Inl e \<Rightarrow> (0, Some e) | Inr n \<Rightarrow> (n, None))"

text \<open>What opening, syncing and closing a directory answer; the number of closes shows that the handle is
  given back.\<close>

definition SyncDirectory_calls :: "err option \<Rightarrow> err option \<Rightarrow> err option \<Rightarrow> err option \<times> nat" where
  "SyncDirectory_calls opened synced closed =
     (case opened of
        Some e \<Rightarrow> (Some e, 0)
      | None \<Rightarrow> (case synced of Some e \<Rightarrow> (Some e, 1) | None \<Rightarrow> (closed, 1)))"

section \<open>Elements\<close>

lemma elements_ne [simp]: "elements s \<noteq> []"
  by (cases s) auto

lemma elements_append: "elements (a @ slash # b) = elements a @ elements b"
  by (induction a) (simp_all add: hd_append tl_append2)

lemma elements_plain: "slash \<notin> set e \<Longrightarrow> elements e = [e]"
  by (induction e) auto

lemma no_slash: "\<forall>e \<in> set (elements s). slash \<notin> set e"
proof (induction s)
  case (Cons c s)
  obtain e es where es: "elements s = e # es" using elements_ne by (cases "elements s") auto
  show ?case using Cons by (simp add: es)
qed simp

lemma elements_join: "es \<noteq> [] \<Longrightarrow> \<forall>e \<in> set es. slash \<notin> set e \<Longrightarrow> elements (join_elements es) = es"
  by (induction es rule: join_elements.induct) (auto simp: elements_plain elements_append)

section \<open>Clean paths\<close>

definition plain :: "string \<Rightarrow> bool" where
  "plain e \<longleftrightarrow> e \<noteq> [] \<and> e \<noteq> ''.'' \<and> e \<noteq> ''..'' \<and> slash \<notin> set e"

text \<open>The stack of a clean path, its last element first.\<close>

definition stack_ok :: "bool \<Rightarrow> string list \<Rightarrow> bool" where
  "stack_ok rooted st \<longleftrightarrow> (\<exists>us k. st = us @ replicate k ''..'' \<and> (\<forall>u \<in> set us. plain u) \<and> (rooted \<longrightarrow> k = 0))"

lemma step_ok:
  assumes "stack_ok rooted st" and "slash \<notin> set e"
  shows "stack_ok rooted (clean_step rooted e st)"
proof -
  from assms(1) obtain us k where st: "st = us @ replicate k ''..''" "\<forall>u \<in> set us. plain u" "rooted \<longrightarrow> k = 0"
    by (auto simp: stack_ok_def)
  consider "e = [] \<or> e = ''.''" | "e = ''..''" "us = []" | u vs where "e = ''..''" "us = u # vs" | "plain e"
    using assms(2) by (cases us) (auto simp: plain_def)
  then show ?thesis
  proof cases
    case 1
    then show ?thesis using assms(1) by auto
  next
    case 2
    have "clean_step rooted e st = replicate (if rooted then 0 else Suc k) ''..''"
      using 2 st(1,3) by (cases k) auto
    then show ?thesis unfolding stack_ok_def
      by (intro exI [of _ "[]"] exI [of _ "if rooted then 0 else Suc k"]) auto
  next
    case 3
    then have "clean_step rooted e st = vs @ replicate k ''..''" using st(1,2) by (auto simp: plain_def)
    then show ?thesis using 3 st(2,3) unfolding stack_ok_def by auto
  next
    case 4
    then have "clean_step rooted e st = (e # us) @ replicate k ''..''" using st(1) by (auto simp: plain_def)
    then show ?thesis using 4 st(2,3) unfolding stack_ok_def by (intro exI [of _ "e # us"]) auto
  qed
qed

lemma fold_ok: "\<forall>e \<in> set es. slash \<notin> set e \<Longrightarrow> stack_ok rooted st \<Longrightarrow> stack_ok rooted (fold (clean_step rooted) es st)"
  by (induction es arbitrary: st) (auto intro: step_ok simp del: clean_step.simps)

lemma fold_plain: "\<forall>e \<in> set es. plain e \<Longrightarrow> fold (clean_step rooted) es st = rev es @ st"
  by (induction es arbitrary: st) (auto simp: plain_def)

lemma fold_dots: "\<not> rooted \<Longrightarrow> fold (clean_step rooted) (replicate k ''..'') (replicate m ''..'') = replicate (k + m) ''..''"
proof (induction k arbitrary: m)
  case (Suc k)
  have "clean_step rooted ''..'' (replicate m ''..'') = replicate (Suc m) ''..''" using Suc.prems by (cases m) auto
  then show ?case using Suc.IH [OF Suc.prems, of "Suc m"] by (simp del: clean_step.simps)
qed simp

lemma clean_again:
  assumes "stack_ok rooted (rev es)"
  shows "clean_elements rooted es = es"
proof -
  from assms obtain us k where "rev es = us @ replicate k ''..''" and us: "\<forall>u \<in> set us. plain u" "rooted \<longrightarrow> k = 0"
    by (auto simp: stack_ok_def)
  then have es: "es = replicate k ''..'' @ rev us" by (metis rev_append rev_replicate rev_rev_ident)
  have "fold (clean_step rooted) (replicate k ''..'') [] = replicate k ''..''"
    using us(2) fold_dots [of rooted k 0] by (cases rooted) auto
  then show ?thesis using us(1) by (simp add: clean_elements_def es fold_plain)
qed

lemma path_stack: "stack_ok (IsAbs p) (rev (path_elements p))"
proof -
  have "stack_ok (IsAbs p) (fold (clean_step (IsAbs p)) (elements p) [])"
    by (rule fold_ok) (use no_slash in \<open>auto simp: stack_ok_def\<close>)
  then show ?thesis by (simp add: path_elements_def clean_elements_def)
qed

lemma path_element:
  assumes "e \<in> set (path_elements p)"
  shows "slash \<notin> set e \<and> e \<noteq> [] \<and> e \<noteq> ''.''"
proof -
  obtain us k where "rev (path_elements p) = us @ replicate k ''..''" "\<forall>u \<in> set us. plain u"
    using path_stack [of p] by (auto simp: stack_ok_def)
  then have "plain e \<or> e = ''..''" using assms by (metis Un_iff in_set_replicate set_append set_rev)
  then show ?thesis by (auto simp: plain_def)
qed

lemma join_elements_Nil: "\<forall>e \<in> set es. e \<noteq> [] \<Longrightarrow> join_elements es = [] \<longleftrightarrow> es = []"
  by (cases es rule: join_elements.cases) auto

lemma path_elements_again:
  assumes "es \<noteq> []" and "es = path_elements p" and "\<not> IsAbs p"
  shows "elements (join_elements es) = es" and "\<not> IsAbs (join_elements es)"
proof -
  show "elements (join_elements es) = es" using assms path_element by (intro elements_join) auto
  obtain e fs where es: "es = e # fs" using assms(1) by (cases es) auto
  then have "e \<noteq> []" "slash \<notin> set e" using assms(2) path_element [of e p] by auto
  then obtain c e' where "e = c # e'" "c \<noteq> slash" by (cases e) auto
  then show "\<not> IsAbs (join_elements es)" using es by (cases fs) (auto simp: IsAbs_def)
qed

lemma Clean_ne [simp]: "Clean p \<noteq> []"
  using join_elements_Nil [of "path_elements p"] path_element by (auto simp: Clean_def)

lemma Clean_IsAbs: "IsAbs (Clean p) \<longleftrightarrow> IsAbs p"
  using path_elements_again [OF _ refl, of p] by (auto simp: Clean_def IsAbs_def)

lemma path_elements_dot: "path_elements ''.'' = []" "path_elements [] = []"
  by (simp_all add: path_elements_def clean_elements_def IsAbs_def)

lemma path_elements_Clean: "path_elements (Clean p) = path_elements p"
proof -
  note again = clean_again [OF path_stack, of p]
  consider "p = []" | "IsAbs p" | "p \<noteq> []" "\<not> IsAbs p" "path_elements p = []" | "p \<noteq> []" "\<not> IsAbs p" "path_elements p \<noteq> []" by blast
  then show ?thesis
  proof cases
    case 1
    then show ?thesis by (simp add: Clean_def path_elements_dot)
  next
    case 2
    then have clean: "Clean p = slash # join_elements (path_elements p)" by (auto simp: Clean_def IsAbs_def)
    have abs: "IsAbs (slash # x)" for x by (simp add: IsAbs_def)
    have "elements (Clean p) = [] # (if path_elements p = [] then [[]] else path_elements p)"
      using path_element by (simp add: clean elements_join)
    then have "path_elements (Clean p) = clean_elements True ([] # (if path_elements p = [] then [[]] else path_elements p))"
      unfolding path_elements_def [of "Clean p"] using abs by (simp only: clean)
    also have "\<dots> = clean_elements True (path_elements p)" by (simp add: clean_elements_def)
    finally show ?thesis using again 2 by simp
  next
    case 3
    then show ?thesis by (simp add: Clean_def path_elements_dot)
  next
    case 4
    then have clean: "Clean p = join_elements (path_elements p)" by (simp add: Clean_def)
    have "elements (Clean p) = path_elements p" "\<not> IsAbs (Clean p)"
      unfolding clean using path_elements_again [OF 4(3) refl 4(2)] by blast+
    then show ?thesis using again 4(2) by (simp add: path_elements_def [of "Clean p"])
  qed
qed

lemma Clean_Clean: "Clean (Clean p) = Clean p"
  by (cases "p = []") (simp_all add: Clean_def [of "Clean p"] Clean_IsAbs path_elements_Clean,
      simp_all add: Clean_def path_elements_dot IsAbs_def)

text \<open>A clean path leaves its root when its first element is \<open>..\<close>.\<close>

lemma escapes_head: "slash \<notin> set e \<Longrightarrow> escapes (e @ slash # s) \<longleftrightarrow> e = ''..''"
  by (cases e; cases "tl e"; cases "tl (tl e)") (auto simp: escapes_def)

lemma escapes_join:
  assumes "es \<noteq> []" and "\<forall>e \<in> set es. slash \<notin> set e"
  shows "escapes (join_elements es) \<longleftrightarrow> hd es = ''..''"
proof (cases es rule: join_elements.cases)
  case (2 e)
  have "take 3 e \<noteq> ''../''" using assms 2 by (metis in_set_takeD list.set_intros(1) list.set_intros(2))
  then show ?thesis using 2 by (simp add: escapes_def)
next
  case (3 e f fs)
  then show ?thesis using assms(2) escapes_head by simp
qed (use assms in simp)

section \<open>Containment\<close>

lemma drop_common_prefix: "drop_common xs (xs @ ys) = ([], ys)"
  by (induction xs) (cases ys; simp)+

text \<open>A clean relative path that does not begin with \<open>..\<close> has plain elements only.\<close>

lemma inside_plain:
  assumes "\<not> IsAbs p" and "path_elements p \<noteq> []" and "hd (path_elements p) \<noteq> ''..''"
  shows "\<forall>e \<in> set (path_elements p). plain e"
proof -
  obtain us k where st: "rev (path_elements p) = us @ replicate k ''..''" "\<forall>u \<in> set us. plain u"
    using path_stack [of p] by (auto simp: stack_ok_def)
  then have es: "path_elements p = replicate k ''..'' @ rev us" by (metis rev_append rev_replicate rev_rev_ident)
  then have "k = 0" using assms(3) by (cases k) auto
  then show ?thesis using es st(2) by simp
qed

lemma joined_elements:
  assumes "\<not> IsAbs rel" and "path_elements rel \<noteq> []" and "hd (path_elements rel) \<noteq> ''..''" and "rel \<noteq> []"
  shows "path_elements (Join2 (Clean root) (Clean rel)) = path_elements root @ path_elements rel"
    and "IsAbs (Join2 (Clean root) (Clean rel)) \<longleftrightarrow> IsAbs root"
proof -
  let ?p = "Clean root @ slash # Clean rel"
  have join: "Join2 (Clean root) (Clean rel) = Clean ?p" by (simp add: Join2_def)
  have "IsAbs ?p \<longleftrightarrow> IsAbs (Clean root)" by (auto simp: IsAbs_def)
  then have abs: "IsAbs ?p \<longleftrightarrow> IsAbs root" by (simp add: Clean_IsAbs)
  then show "IsAbs (Join2 (Clean root) (Clean rel)) \<longleftrightarrow> IsAbs root" unfolding join Clean_IsAbs .
  have "Clean rel = join_elements (path_elements rel)" using assms by (simp add: Clean_def)
  then have tail: "elements (Clean rel) = path_elements rel" using path_elements_again(1) [OF assms(2) refl assms(1)] by simp
  have "fold (clean_step (IsAbs root)) (elements (Clean root)) [] = rev (path_elements root)"
    using path_elements_Clean [of root] by (simp add: path_elements_def clean_elements_def Clean_IsAbs)
  then have "path_elements ?p = path_elements root @ path_elements rel"
    unfolding path_elements_def [of ?p] abs elements_append tail clean_elements_def
    using fold_plain [OF inside_plain [OF assms(1-3)]] by simp
  then show "path_elements (Join2 (Clean root) (Clean rel)) = path_elements root @ path_elements rel"
    unfolding join path_elements_Clean .
qed

text \<open>What \<open>JoinWithin\<close> accepts.\<close>

definition acceptable :: "string \<Rightarrow> string \<Rightarrow> bool" where
  "acceptable root relative \<longleftrightarrow> TrimSpace root \<noteq> [] \<and> relative \<noteq> [] \<and> \<not> IsAbs relative \<and>
     path_elements relative \<noteq> [] \<and> hd (path_elements relative) \<noteq> ''..''"

lemma clean_inside:
  assumes "relative \<noteq> []" and "\<not> IsAbs relative"
  shows "Clean relative = ''.'' \<or> escapes (Clean relative) \<longleftrightarrow> path_elements relative = [] \<or> hd (path_elements relative) = ''..''"
proof (cases "path_elements relative = []")
  case True
  then show ?thesis using assms by (simp add: Clean_def)
next
  case False
  then have clean: "Clean relative = join_elements (path_elements relative)" using assms by (simp add: Clean_def)
  have "Clean relative \<noteq> ''.''"
    using path_elements_Clean [of relative] path_elements_dot(1) False by auto
  moreover have "escapes (Clean relative) \<longleftrightarrow> hd (path_elements relative) = ''..''"
    unfolding clean by (rule escapes_join [OF False]) (use path_element in blast)
  ultimately show ?thesis using False by simp
qed

lemma within_relative:
  assumes "acceptable root relative"
  shows "Rel (Clean root) (Join2 (Clean root) (Clean relative)) = Inr (join_elements (path_elements relative))"
    and "\<not> escapes (join_elements (path_elements relative))"
proof -
  let ?p = "Join2 (Clean root) (Clean relative)"
  have ok: "\<not> IsAbs relative" "path_elements relative \<noteq> []" "hd (path_elements relative) \<noteq> ''..''" "relative \<noteq> []"
    using assms by (simp_all add: acceptable_def)
  note joined = joined_elements [OF ok, of root]
  have "Clean (Clean root) \<noteq> Clean ?p"
    using joined(1) ok(2) path_elements_Clean [of "Clean root"] path_elements_Clean [of ?p] path_elements_Clean [of root]
    by (metis self_append_conv)
  then show "Rel (Clean root) ?p = Inr (join_elements (path_elements relative))"
    using joined by (simp add: Rel_def Clean_IsAbs path_elements_Clean drop_common_prefix)
  show "\<not> escapes (join_elements (path_elements relative))"
    using escapes_join [OF ok(2)] path_element ok(3) by blast
qed

text \<open>C38. \<open>JoinWithin\<close> accepts a path exactly when the root is not blank and the path is relative, not empty, and
  clean does not begin with \<open>..\<close> nor is the root itself. What it returns lies beneath the root: its elements are
  those of the root followed by at least one more, none of which is empty, \<open>.\<close>, \<open>..\<close> or holds a
  separator.\<close>

theorem join_within_contained:
  "case JoinWithin root relative of
     Inl e \<Rightarrow> \<not> acceptable root relative
   | Inr p \<Rightarrow> acceptable root relative \<and> IsAbs p = IsAbs root \<and>
       (\<exists>es. path_elements p = path_elements root @ es \<and> es \<noteq> [] \<and> list_all plain es)"
proof (cases "acceptable root relative")
  case True
  then have ok: "\<not> IsAbs relative" "path_elements relative \<noteq> []" "hd (path_elements relative) \<noteq> ''..''" "relative \<noteq> []" "TrimSpace root \<noteq> []"
    by (simp_all add: acceptable_def)
  then have "JoinWithin root relative = Inr (Join2 (Clean root) (Clean relative))"
    using clean_inside [OF ok(4,1)] within_relative [OF True] by (simp add: JoinWithin_def Let_def)
  then show ?thesis using True joined_elements [OF ok(1-4), of root] ok(2) inside_plain [OF ok(1-3)] by (simp add: list_all_iff)
next
  case False
  then have "\<exists>e. JoinWithin root relative = Inl e"
    using clean_inside [of relative] by (auto simp: JoinWithin_def acceptable_def Let_def)
  then show ?thesis using False by auto
qed

section \<open>The size of a directory\<close>

lemma wrap64_twice: "wrap64 (wrap64 a + b) = wrap64 (a + b)"
  unfolding wrap64_def by (simp add: mod_simps algebra_simps)

text \<open>A tree whose every node could be read, and the sizes of its entries.\<close>

fun readable :: "node \<Rightarrow> bool" where
  "readable (Entry info) = (\<not> isl info)"
| "readable (Directory ns) = list_all readable ns"
| "readable (Unreadable e) = False"
| "readable (Missing e) = False"

fun sizes :: "node \<Rightarrow> int" where
  "sizes (Entry info) = (case info of Inl _ \<Rightarrow> 0 | Inr sz \<Rightarrow> sz)"
| "sizes (Directory ns) = sum_list (map sizes ns)"
| "sizes (Unreadable e) = 0"
| "sizes (Missing e) = 0"

fun visit_ok :: "visit \<Rightarrow> bool" where
  "visit_ok (Failed_visit e) = False"
| "visit_ok At_directory = True"
| "visit_ok (At_entry info) = (\<not> isl info)"

fun visit_size :: "visit \<Rightarrow> int" where
  "visit_size (At_entry (Inr sz)) = sz"
| "visit_size _ = 0"

lemma size_walk_sum:
  "case size_walk c n vs acc of
     Inl e \<Rightarrow> \<not> (list_all visit_ok vs \<and> (\<forall>k < length vs. c (n + k) = None))
   | Inr m \<Rightarrow> list_all visit_ok vs \<and> (\<forall>k < length vs. c (n + k) = None) \<and>
       (int64_range acc \<longrightarrow> m = wrap64 (acc + sum_list (map visit_size vs)))"
proof (induction vs arbitrary: n acc)
  case (Cons v vs)
  have shift: "(\<forall>k < length (v # vs). c (n + k) = None) \<longleftrightarrow> c n = None \<and> (\<forall>k < length vs. c (Suc n + k) = None)"
    by (auto simp: less_Suc_eq_0_disj)
  show ?case
  proof (cases v)
    case (Failed_visit e)
    then show ?thesis unfolding shift by simp
  next
    case At_directory
    then show ?thesis using Cons.IH [of "Suc n" acc] unfolding shift by (auto split: option.splits sum.splits)
  next
    case (At_entry info)
    then show ?thesis using Cons.IH [of "Suc n" "wrap64 (acc + projr info)"] unfolding shift
      by (cases info) (auto simp: wrap64_twice add.assoc split: option.splits sum.splits)
  qed
qed simp

lemma visits_facts: "list_all visit_ok (visits t) \<longleftrightarrow> readable t" "sum_list (map visit_size (visits t)) = sizes t"
proof (induction t)
  case (Entry info)
  case 1 show ?case by simp
  case 2 show ?case by (cases info) simp_all
next
  case (Directory ns)
  case 1
  have "list_all visit_ok (concat (map visits ns)) \<longleftrightarrow> list_all readable ns" using Directory.IH(1) by (induction ns) auto
  then show ?case by simp
  case 2
  have "sum_list (map visit_size (concat (map visits ns))) = sum_list (map sizes ns)" using Directory.IH(2) by (induction ns) auto
  then show ?case by simp
qed simp_all

text \<open>\<open>DirectorySize\<close> has no error exactly when every node could be read and the context lived through every
  visit; its result is then the sum of the sizes, as an \<open>int64\<close>.\<close>

lemma directory_size_sum:
  "snd (DirectorySize c t) = None \<longleftrightarrow> readable t \<and> (\<forall>k < length (visits t). c k = None)"
  "snd (DirectorySize c t) = None \<Longrightarrow> fst (DirectorySize c t) = wrap64 (sizes t)"
  "snd (DirectorySize c t) \<noteq> None \<Longrightarrow> fst (DirectorySize c t) = 0"
  using size_walk_sum [where c = c and n = 0 and vs = "visits t" and acc = 0] visits_facts [of t]
  by (auto simp: DirectorySize_def int64_range_def split: sum.splits)

end
